(* ===== verification/Go_Prelude.thy ===== *)
theory Go_Prelude
  imports Main "HOL-Library.Word" "HOL-Library.AList"
begin

text \<open>
  Shared vocabulary of the development: Go's machine types with the wrap-around of its 64-bit \<^verbatim>\<open>int\<close>, Go maps as
  association lists, bounds-checked slicing, the orders in which Go may range over a map, counting in lists,
  and the reachable states of a step relation, with the rule for invariants and the rule for loops as
  locales. Strings are in \<open>Go_Strings\<close>, byte orders in \<open>Go_Binary\<close>.
\<close>

section \<open>Machine types\<close>

type_synonym byte = "8 word"
type_synonym bytes = "byte list"
type_synonym gotime = int      \<comment> \<open>nanoseconds\<close>
type_synonym duration = int    \<comment> \<open>nanoseconds\<close>

abbreviation second :: duration where "second \<equiv> 1000000000"
abbreviation millisecond :: duration where "millisecond \<equiv> 1000000"
abbreviation minute :: duration where "minute \<equiv> 60 * second"

named_theorems go_arith \<open>reduction of Go's fixed-width arithmetic\<close>
named_theorems go_slice \<open>bounds-checked slices\<close>

text \<open>Go's \<^verbatim>\<open>int\<close> on a 64-bit platform: the two's complement value of an integer.\<close>

definition int64 :: "int \<Rightarrow> int" where
  "int64 x = signed_take_bit 63 x"

lemma int64_id [go_arith]: "- (2 ^ 63) \<le> x \<Longrightarrow> x < 2 ^ 63 \<Longrightarrow> int64 x = x"
  unfolding int64_def by (rule signed_take_bit_int_eq_self)

lemma int64_bounds: "- (2 ^ 63) \<le> int64 x" "int64 x < 2 ^ 63"
  unfolding int64_def
  by (rule signed_take_bit_int_greater_eq_minus_exp signed_take_bit_int_less_exp)+

section \<open>Slices\<close>

text \<open>\<open>goslice xs lo hi\<close> is Go's \<^verbatim>\<open>xs[lo:hi]\<close> on a slice whose capacity is its length; \<open>None\<close>
  is the run-time panic.\<close>

definition goslice :: "'a list \<Rightarrow> int \<Rightarrow> int \<Rightarrow> 'a list option" where
  "goslice xs lo hi =
     (if 0 \<le> lo \<and> lo \<le> hi \<and> hi \<le> int (length xs)
      then Some (take (nat (hi - lo)) (drop (nat lo) xs)) else None)"

lemma slice_length [go_slice]:
  "goslice xs lo hi = Some ys \<Longrightarrow> int (length ys) = hi - lo"
  by (auto simp: goslice_def split: if_splits)

lemma slice_append [go_slice]:
  "hi \<le> int (length xs) \<Longrightarrow> goslice (xs @ zs) lo hi = goslice xs lo hi"
  by (auto simp: goslice_def nat_diff_distrib)

section \<open>Go maps\<close>

text \<open>
  A Go map is an association list with distinct keys. Lookup is \<open>map_of\<close>; assignment and
  \<^verbatim>\<open>delete\<close> are the library's operations. The iteration order of \<^verbatim>\<open>range\<close> is not
  specified by the language, so every definition that ranges over a map takes the order as an
  argument: a function on the list of keys that visits each key exactly once.
\<close>

type_synonym ('k, 'v) gomap = "('k \<times> 'v) list"

abbreviation mput :: "'k \<Rightarrow> 'v \<Rightarrow> ('k, 'v) gomap \<Rightarrow> ('k, 'v) gomap" where
  "mput \<equiv> AList.update"

abbreviation mdel :: "'k \<Rightarrow> ('k, 'v) gomap \<Rightarrow> ('k, 'v) gomap" where
  "mdel \<equiv> AList.delete"

abbreviation mkeys :: "('k, 'v) gomap \<Rightarrow> 'k list" where
  "mkeys m \<equiv> map fst m"

definition mhas :: "('k, 'v) gomap \<Rightarrow> 'k \<Rightarrow> bool" where
  "mhas m k \<longleftrightarrow> map_of m k \<noteq> None"

text \<open>A missing key of a \<^verbatim>\<open>map[string]int\<close> reads as the zero value.\<close>

definition mget0 :: "('k, int) gomap \<Rightarrow> 'k \<Rightarrow> int" where
  "mget0 m k = (case map_of m k of None \<Rightarrow> 0 | Some v \<Rightarrow> v)"

definition range_order :: "('k list \<Rightarrow> 'k list) \<Rightarrow> bool" where
  "range_order f \<longleftrightarrow> (\<forall>ks. distinct ks \<longrightarrow> distinct (f ks) \<and> set (f ks) = set ks)"

lemma range_order_id [simp]: "range_order (\<lambda>ks. ks)"
  by (simp add: range_order_def)

lemma range_order_rev [simp]: "range_order rev"
  by (simp add: range_order_def)

lemma range_orderD:
  assumes "range_order f" "distinct ks"
  shows "distinct (f ks)" "set (f ks) = set ks"
  using assms by (auto simp: range_order_def)

lemmas gomap_simps [simp] = update_conv' delete_conv'

lemma mhas_iff: "mhas m k \<longleftrightarrow> k \<in> set (mkeys m)"
  by (auto simp: mhas_def map_of_eq_None_iff)

lemma mhas_mput [simp]: "mhas (mput k v m) k' \<longleftrightarrow> k' = k \<or> mhas m k'"
  by (simp add: mhas_def)

lemma mhas_mdel [simp]: "mhas (mdel k m) k' \<longleftrightarrow> k' \<noteq> k \<and> mhas m k'"
  by (simp add: mhas_def)

lemma mget0_mput [simp]: "mget0 (mput k v m) k' = (if k' = k then v else mget0 m k')"
  by (simp add: mget0_def)

lemma mget0_mdel [simp]: "mget0 (mdel k m) k' = (if k' = k then 0 else mget0 m k')"
  by (simp add: mget0_def)

lemma mget0_Nil [simp]: "mget0 [] k = 0"
  by (simp add: mget0_def)

lemma mget0_absent: "\<not> mhas m k \<Longrightarrow> mget0 m k = 0"
  by (simp add: mhas_def mget0_def)

lemma mhas_Nil [simp]: "\<not> mhas [] k"
  by (simp add: mhas_def)

lemma distinct_mkeys_mput [simp, intro]: "distinct (mkeys m) \<Longrightarrow> distinct (mkeys (mput k v m))"
  by (rule distinct_update)

lemma distinct_mkeys_mdel [simp, intro]: "distinct (mkeys m) \<Longrightarrow> distinct (mkeys (mdel k m))"
  by (rule distinct_delete)

lemma map_of_mkeys_in: "map_of m k = Some v \<Longrightarrow> k \<in> set (mkeys m)"
  by (auto simp: map_of_eq_None_iff dest: map_of_SomeD intro: rev_image_eqI)

section \<open>Counting threads\<close>

definition cnt :: "('a \<Rightarrow> bool) \<Rightarrow> 'a list \<Rightarrow> int" where
  "cnt P xs = int (length (filter P xs))"

lemma cnt_simps [simp]:
  "cnt P [] = 0" "cnt P (x # xs) = of_bool (P x) + cnt P xs" "cnt P (xs @ ys) = cnt P xs + cnt P ys"
  by (simp_all add: cnt_def)

lemma cnt_nonneg [simp]: "0 \<le> cnt P xs"
  by (simp add: cnt_def)

lemma cnt_update:
  "i < length xs \<Longrightarrow> cnt P (xs[i := y]) = cnt P xs - of_bool (P (xs ! i)) + of_bool (P y)"
  by (induction xs arbitrary: i) (auto split: nat.split simp: less_Suc_eq_0_disj)

lemma cnt_pos: "x \<in> set xs \<Longrightarrow> P x \<Longrightarrow> 0 < cnt P xs"
  by (induction xs) (auto simp: add_pos_nonneg add_nonneg_pos)

lemma cnt_zero: "(\<And>x. x \<in> set xs \<Longrightarrow> \<not> P x) \<Longrightarrow> cnt P xs = 0"
  by (simp add: cnt_def filter_empty_conv)

section \<open>Reachable states and inductive invariants\<close>

inductive reach :: "('s \<Rightarrow> bool) \<Rightarrow> ('s \<Rightarrow> 's \<Rightarrow> bool) \<Rightarrow> 's \<Rightarrow> bool"
  for I :: "'s \<Rightarrow> bool" and R :: "'s \<Rightarrow> 's \<Rightarrow> bool" where
  reach_init: "I s \<Longrightarrow> reach I R s"
| reach_step: "reach I R s \<Longrightarrow> R s t \<Longrightarrow> reach I R t"

locale inductive_invariant =
  fixes init :: "'s \<Rightarrow> bool"
    and step :: "'s \<Rightarrow> 's \<Rightarrow> bool"
    and inv :: "'s \<Rightarrow> bool"
  assumes inv_init: "init s \<Longrightarrow> inv s"
    and inv_step: "inv s \<Longrightarrow> step s t \<Longrightarrow> inv t"
begin

lemma reach_inv: "reach init step s \<Longrightarrow> inv s"
  by (induction rule: reach.induct) (auto intro: inv_init inv_step)

lemma steps_inv: "step\<^sup>*\<^sup>* s t \<Longrightarrow> inv s \<Longrightarrow> inv t"
  by (induction rule: rtranclp_induct) (auto intro: inv_step)

end

section \<open>Loops of steps that keep an invariant\<close>

text \<open>The contract of a loop body: a step with a loop variable that keeps an invariant. Go's
  \<^verbatim>\<open>for range\<close> is a fold of the body, a counted loop an iteration of it.\<close>

locale keeps_invariant =
  fixes I :: "'s \<Rightarrow> bool" and f :: "'x \<Rightarrow> 's \<Rightarrow> 's"
  assumes keeps: "I q \<Longrightarrow> I (f x q)"
begin

lemma keeps_fold: "I p \<Longrightarrow> I (fold f xs p)"
  by (induction xs arbitrary: p) (auto intro: keeps)

lemma keeps_funpow: "I p \<Longrightarrow> I ((f x ^^ n) p)"
  by (induction n) (auto intro: keeps)

end

end
