(* ===== verification/Go_Strings.thy ===== *)
theory Go_Strings
  imports Go_Prelude
begin

text \<open>
  The parts of Go's \<^verbatim>\<open>strconv\<close>, \<^verbatim>\<open>strings\<close> and \<^verbatim>\<open>bytes\<close> packages the SDK calls:
  \<^verbatim>\<open>Itoa\<close> and \<^verbatim>\<open>Atoi\<close>, the index of a byte, \<^verbatim>\<open>Split\<close> on a single byte, \<^verbatim>\<open>Join\<close> and
  \<^verbatim>\<open>ToLower\<close>. The lemmas are the laws the components rest on: printing an
  integer and reading it back gives the integer, a printed integer has no separator in it, and
  joining the pieces of a split gives the text back.
\<close>

section \<open>Decimal numbers\<close>

definition digit :: "nat \<Rightarrow> char" where
  "digit n = char_of (48 + n)"

fun show_nat :: "nat \<Rightarrow> string" where
  "show_nat n = (if n < 10 then [digit n] else show_nat (n div 10) @ [digit (n mod 10)])"

declare show_nat.simps [simp del]

definition Itoa :: "int \<Rightarrow> string" where
  "Itoa i = (if i < 0 then ''-'' @ show_nat (nat (- i)) else show_nat (nat i))"

definition is_digit :: "char \<Rightarrow> bool" where
  "is_digit c \<longleftrightarrow> 48 \<le> (of_char c :: nat) \<and> (of_char c :: nat) \<le> 57"

definition digit_val :: "char \<Rightarrow> nat" where
  "digit_val c = (of_char c :: nat) - 48"

definition digits_val :: "string \<Rightarrow> nat" where
  "digits_val cs = foldl (\<lambda>acc c. acc * 10 + digit_val c) 0 cs"

text \<open>\<^verbatim>\<open>strconv.Atoi\<close>: an optional sign, at least one digit, digits only, and the value in the
  range of a 64-bit \<^verbatim>\<open>int\<close>; \<open>None\<close> is the error.\<close>

definition Atoi :: "string \<Rightarrow> int option" where
  "Atoi s =
     (let (neg, ds) = (case s of
          [] \<Rightarrow> (False, [])
        | c # cs \<Rightarrow> if c = CHR ''-'' then (True, cs) else if c = CHR ''+'' then (False, cs)
                    else (False, s))
      in if ds = [] \<or> \<not> list_all is_digit ds then None
         else let v = (if neg then - int (digits_val ds) else int (digits_val ds))
              in if - (2 ^ 63) \<le> v \<and> v < 2 ^ 63 then Some v else None)"

lemma of_char_digit: "n < 10 \<Longrightarrow> (of_char (digit n) :: nat) = 48 + n"
  by (simp add: digit_def)

lemma digit_is_digit [simp]: "n < 10 \<Longrightarrow> is_digit (digit n)"
  by (simp add: is_digit_def of_char_digit)

lemma digit_val_digit [simp]: "n < 10 \<Longrightarrow> digit_val (digit n) = n"
  by (simp add: digit_val_def of_char_digit)

lemma show_nat_digits: "list_all is_digit (show_nat n)"
proof (induction n rule: show_nat.induct)
  case (1 n)
  then show ?case by (subst show_nat.simps) simp
qed

lemma show_nat_nonempty [simp]: "show_nat n \<noteq> []"
  by (subst show_nat.simps) simp

lemma digits_val_snoc: "digits_val (cs @ [c]) = digits_val cs * 10 + digit_val c"
  by (simp add: digits_val_def)

lemma digits_val_show_nat [simp]: "digits_val (show_nat n) = n"
proof (induction n rule: show_nat.induct)
  case (1 n)
  show ?case
  proof (cases "n < 10")
    case True
    then show ?thesis by (subst show_nat.simps) (simp add: digits_val_def)
  next
    case False
    with 1 show ?thesis by (subst show_nat.simps) (simp add: digits_val_snoc)
  qed
qed

lemma show_nat_not_mem: "\<not> is_digit c \<Longrightarrow> c \<notin> set (show_nat n)"
  using show_nat_digits [of n] by (auto simp: list_all_iff)

lemma not_digit_consts [simp]:
  "\<not> is_digit CHR '':''" "\<not> is_digit CHR ''-''" "\<not> is_digit CHR ''+''" "\<not> is_digit CHR ''.''"
  "\<not> is_digit CHR ''|''"
  by (simp_all add: is_digit_def)

lemma Atoi_Itoa:
  assumes "- (2 ^ 63) \<le> i" "i < 2 ^ 63"
  shows "Atoi (Itoa i) = Some i"
proof (cases "i < 0")
  case True
  with assms show ?thesis
    by (simp add: Atoi_def Itoa_def show_nat_digits Let_def)
next
  case False
  obtain c cs where c: "show_nat (nat i) = c # cs"
    by (cases "show_nat (nat i)") auto
  then have "is_digit c"
    using show_nat_digits [of "nat i"] by simp
  then have "c \<noteq> CHR ''-''" "c \<noteq> CHR ''+''" by auto
  moreover have "digits_val (c # cs) = nat i"
    using digits_val_show_nat [of "nat i"] c by simp
  moreover have "list_all is_digit (c # cs)"
    using show_nat_digits [of "nat i"] c by simp
  ultimately show ?thesis
    using False assms c by (simp add: Atoi_def Itoa_def Let_def)
qed

lemma Itoa_nonempty [simp]: "Itoa i \<noteq> []"
  by (simp add: Itoa_def)

lemma Itoa_no_colon: "CHR '':'' \<notin> set (Itoa i)"
  by (simp add: Itoa_def show_nat_not_mem)

section \<open>Searching, splitting, joining\<close>

text \<open>\<^verbatim>\<open>strings.Index\<close> for a one-byte pattern: the first position, or -1.\<close>

definition Index :: "'a list \<Rightarrow> 'a \<Rightarrow> int" where
  "Index s c = (if c \<in> set s then int (length (takeWhile (\<lambda>x. x \<noteq> c) s)) else - 1)"

text \<open>\<^verbatim>\<open>Split\<close> on a one-byte separator: always at least one piece.\<close>

fun Split :: "'a list \<Rightarrow> 'a \<Rightarrow> 'a list list" where
  "Split [] c = [[]]"
| "Split (x # xs) c =
     (if x = c then [] # Split xs c
      else case Split xs c of [] \<Rightarrow> [[x]] | p # ps \<Rightarrow> (x # p) # ps)"

fun Join :: "'a list list \<Rightarrow> 'a list \<Rightarrow> 'a list" where
  "Join [] sep = []"
| "Join [p] sep = p"
| "Join (p # q # ps) sep = p @ sep @ Join (q # ps) sep"

text \<open>\<^verbatim>\<open>strings.ToLower\<close> on ASCII text.\<close>

definition lower_char :: "char \<Rightarrow> char" where
  "lower_char c = (if 65 \<le> (of_char c :: nat) \<and> (of_char c :: nat) \<le> 90
     then char_of ((of_char c :: nat) + 32) else c)"

definition ToLower :: "string \<Rightarrow> string" where
  "ToLower s = map lower_char s"

lemma Split_nonempty [simp]: "Split xs c \<noteq> []"
  by (cases xs) (auto split: list.splits)

lemma Split_no_sep: "p \<in> set (Split xs c) \<Longrightarrow> c \<notin> set p"
  by (induction xs arbitrary: p) (fastforce split: if_splits list.splits)+

lemma Join_Split: "Join (Split xs c) [c] = xs"
proof (induction xs)
  case Nil
  then show ?case by simp
next
  case (Cons x xs)
  obtain p ps where "Split xs c = p # ps"
    by (cases "Split xs c") auto
  with Cons show ?case by (cases ps) auto
qed

lemma Split_append_sep: "c \<notin> set p \<Longrightarrow> Split (p @ c # xs) c = p # Split xs c"
  by (induction p) auto

lemma Split_single: "c \<notin> set p \<Longrightarrow> Split p c = [p]"
  by (induction p) auto

lemma Index_append:
  "c \<notin> set p \<Longrightarrow> Index (p @ c # xs) c = int (length p)"
proof -
  assume "c \<notin> set p"
  then have "takeWhile (\<lambda>x. x \<noteq> c) (p @ c # xs) = p"
    by (induction p) auto
  then show ?thesis by (simp add: Index_def)
qed

lemma Index_bounds: "- 1 \<le> Index s c" "Index s c < int (length s) \<or> s = []"
proof -
  show "- 1 \<le> Index s c" by (simp add: Index_def)
  have "c \<in> set s \<Longrightarrow> length (takeWhile (\<lambda>x. x \<noteq> c) s) < length s"
    by (induction s) auto
  then show "Index s c < int (length s) \<or> s = []"
    by (auto simp: Index_def)
qed

lemma Index_pos_split:
  assumes "Index s c = int n" 
  shows "s = take n s @ c # drop (Suc n) s" and "c \<notin> set (take n s)"
proof -
  from assms have c: "c \<in> set s" and n: "n = length (takeWhile (\<lambda>x. x \<noteq> c) s)"
    by (auto simp: Index_def split: if_splits)
  obtain p q where s: "s = p @ c # q" and p: "c \<notin> set p"
    using split_list_first [OF c] by blast
  have "takeWhile (\<lambda>x. x \<noteq> c) s = p"
    using p unfolding s by (induction p) auto
  then have "n = length p" using n by simp
  with s p show "s = take n s @ c # drop (Suc n) s" "c \<notin> set (take n s)" by auto
qed

end
