(* ===== verification/Util.thy ===== *)
theory Util
  imports Complex_Main Go_Strings
begin

text \<open>
  The package \<^verbatim>\<open>util\<close>: the exponential backoff of \<^verbatim>\<open>util/backoff.go\<close>, the conversions of
  \<^verbatim>\<open>util/bytestring.go\<close> and the hash of \<^verbatim>\<open>util/hash.go\<close> (its addresses and identifiers are in \<open>Host_IP\<close>).
  Floating-point values are exact rationals; the random number is an argument.
\<close>

section \<open>Exponential backoff\<close>

record ExponentialBackoff =
  InitialInterval :: duration
  MaxInterval :: duration
  Multiplier :: rat
  Randomization :: rat

text \<open>Go's conversion of a floating-point value to an integer drops the fraction.\<close>

definition trunc :: "rat \<Rightarrow> int" where
  "trunc x = (if 0 \<le> x then \<lfloor>x\<rfloor> else \<lceil>x\<rceil>)"

text \<open>\<open>r\<close> is the value of \<^verbatim>\<open>rand.Float64()\<close>, in the half-open unit interval.\<close>

definition Next :: "ExponentialBackoff \<Rightarrow> rat \<Rightarrow> int \<Rightarrow> duration" where
  "Next b r retryCount =
     (if retryCount \<le> 0 then InitialInterval b
      else let interval = of_int (InitialInterval b) * Multiplier b ^ nat (retryCount - 1);
               interval = (if Randomization b > 0
                           then interval * (1 + Randomization b * (r * 2 - 1)) else interval);
               interval = (if interval > of_int (MaxInterval b) then of_int (MaxInterval b)
                           else interval)
           in trunc interval)"

definition backoff_wf :: "ExponentialBackoff \<Rightarrow> bool" where
  "backoff_wf b \<longleftrightarrow> 0 \<le> InitialInterval b \<and> InitialInterval b \<le> MaxInterval b \<and>
     1 \<le> Multiplier b \<and> 0 \<le> Randomization b \<and> Randomization b \<le> 1"

definition jitter :: "ExponentialBackoff \<Rightarrow> rat \<Rightarrow> rat" where
  "jitter b r = (if Randomization b > 0 then 1 + Randomization b * (r * 2 - 1) else 1)"

lemma jitter_nonneg: "backoff_wf b \<Longrightarrow> 0 \<le> r \<Longrightarrow> r < 1 \<Longrightarrow> 1 - Randomization b \<le> jitter b r \<and> 0 \<le> jitter b r"
proof -
  assume b: "backoff_wf b" and r: "0 \<le> r" "r < 1"
  have "Randomization b * 0 \<le> Randomization b * r"
    using b r by (intro mult_left_mono) (auto simp: backoff_wf_def)
  then have "0 \<le> Randomization b * r" by simp
  with b show ?thesis by (auto simp: jitter_def backoff_wf_def algebra_simps)
qed

lemma Next_eq:
  "0 < n \<Longrightarrow> Next b r n = trunc (min (of_int (MaxInterval b))
     (of_int (InitialInterval b) * Multiplier b ^ nat (n - 1) * jitter b r))"
  by (auto simp: Next_def Let_def jitter_def min_def)

lemma trunc_mono: "0 \<le> x \<Longrightarrow> x \<le> y \<Longrightarrow> trunc x \<le> trunc y"
  by (simp add: trunc_def floor_mono)

lemma trunc_of_int [simp]: "trunc (of_int i) = i"
  by (simp add: trunc_def)

lemma raw_interval_nonneg:
  "backoff_wf b \<Longrightarrow> 0 \<le> r \<Longrightarrow> r < 1 \<Longrightarrow> 0 \<le> of_int (InitialInterval b) * Multiplier b ^ k * jitter b r"
  using jitter_nonneg [of b r] by (auto simp: backoff_wf_def)

text \<open>
  The waiting time of the backoff is never negative and never above the maximal interval, it
  does not shrink when the number of retries grows (for the same random draw), and at least the
  part of the exponential interval that the randomisation cannot take away is waited, up to the
  maximum.
\<close>

theorem Next_bounds_and_growth:
  assumes b: "backoff_wf b" and r: "0 \<le> r" "r < 1"
  shows "0 \<le> Next b r n \<and> Next b r n \<le> MaxInterval b \<and>
    (0 < n \<and> n \<le> m \<longrightarrow> Next b r n \<le> Next b r m) \<and>
    (0 < n \<longrightarrow> min (of_int (MaxInterval b))
        (of_int (InitialInterval b) * Multiplier b ^ nat (n - 1) * (1 - Randomization b))
      < of_int (Next b r n + 1))"
proof (cases "n \<le> 0")
  case True
  with b show ?thesis by (simp add: Next_def backoff_wf_def)
next
  case False
  let ?x = "\<lambda>k. of_int (InitialInterval b) * Multiplier b ^ nat (k - 1) * jitter b r"
  let ?m = "of_int (MaxInterval b) :: rat"
  have x0: "0 \<le> ?x k" for k using raw_interval_nonneg [OF b r] by blast
  have m0: "0 \<le> ?m" using b by (simp add: backoff_wf_def)
  have n: "Next b r n = trunc (min ?m (?x n))" using False by (simp add: Next_eq)
  have "0 \<le> Next b r n" using n x0 [of n] m0 by (simp add: trunc_def)
  moreover have "Next b r n \<le> MaxInterval b"
    using trunc_mono [of "min ?m (?x n)" ?m] x0 [of n] m0 n by simp
  moreover have "Next b r n \<le> Next b r m" if "n \<le> m"
  proof -
    have "Multiplier b ^ nat (n - 1) \<le> Multiplier b ^ nat (m - 1)"
      using b that False by (intro power_increasing) (auto simp: backoff_wf_def)
    then have "?x n \<le> ?x m"
      using b jitter_nonneg [OF b r] by (intro mult_right_mono mult_left_mono) (auto simp: backoff_wf_def)
    then have "min ?m (?x n) \<le> min ?m (?x m)" by simp
    with x0 [of n] m0 n show ?thesis
      using trunc_mono [of "min ?m (?x n)" "min ?m (?x m)"] that False by (simp add: Next_eq)
  qed
  moreover have "min ?m (of_int (InitialInterval b) * Multiplier b ^ nat (n - 1) * (1 - Randomization b))
      < of_int (Next b r n + 1)"
  proof -
    have "of_int (InitialInterval b) * Multiplier b ^ nat (n - 1) * (1 - Randomization b) \<le> ?x n"
      using b jitter_nonneg [OF b r] by (intro mult_left_mono) (auto simp: backoff_wf_def)
    then have "min ?m (of_int (InitialInterval b) * Multiplier b ^ nat (n - 1) * (1 - Randomization b))
      \<le> min ?m (?x n)" by (rule min.mono [OF order_refl])
    also have "\<dots> < of_int (trunc (min ?m (?x n)) + 1)"
      using x0 [of n] m0 by (simp add: trunc_def) linarith
    finally show ?thesis by (simp only: n)
  qed
  ultimately show ?thesis by blast
qed

text \<open>The backoff of the connection pool and the one of the worker's retries.\<close>

definition pool_backoff :: ExponentialBackoff where
  "pool_backoff = \<lparr>InitialInterval = 10 * second, MaxInterval = minute, Multiplier = 2,
     Randomization = 1 / 2\<rparr>"

definition retry_backoff :: ExponentialBackoff where
  "retry_backoff = \<lparr>InitialInterval = 100 * millisecond, MaxInterval = 10 * second,
     Multiplier = 2, Randomization = 1 / 5\<rparr>"

lemma pool_backoff_wf: "backoff_wf pool_backoff"
  by (simp add: backoff_wf_def pool_backoff_def)

lemma retry_backoff_wf: "backoff_wf retry_backoff"
  by (simp add: backoff_wf_def retry_backoff_def)

theorem Next_bounds_and_growth_witness:
  "0 \<le> Next retry_backoff (1 / 4) 1 \<and> Next retry_backoff (1 / 4) 1 \<le> Next retry_backoff (1 / 4) 3 \<and>
   Next retry_backoff (1 / 4) 3 \<le> 10 * second"
  using Next_bounds_and_growth [OF retry_backoff_wf, of "1 / 4" 1 3]
    Next_bounds_and_growth [OF retry_backoff_wf, of "1 / 4" 3 3]
  by (simp add: retry_backoff_def)

section \<open>Strings and bytes\<close>

definition BytesToString :: "bytes \<Rightarrow> string" where
  "BytesToString bs = map (\<lambda>b. char_of (unat b)) bs"

definition StringToBytes :: "string \<Rightarrow> bytes" where
  "StringToBytes s = map (\<lambda>c. word_of_nat (of_char c)) s"

lemma BytesToString_StringToBytes [simp]: "BytesToString (StringToBytes s) = s"
proof -
  have "char_of (unat (word_of_nat (of_char c) :: byte)) = c" for c
    using of_char_mod_256 [of c, where 'a = nat] by (simp add: unat_of_nat)
  then show ?thesis by (simp add: BytesToString_def StringToBytes_def o_def)
qed

lemma StringToBytes_BytesToString [simp]: "StringToBytes (BytesToString bs) = bs"
proof -
  have "word_of_nat (of_char (char_of (unat b))) = b" for b :: byte
  proof -
    have "unat b < 2 ^ LENGTH(8)" by (rule unsigned_less)
    then show ?thesis by (simp add: of_char_of)
  qed
  then show ?thesis by (simp add: BytesToString_def StringToBytes_def o_def)
qed

lemma length_BytesToString [simp]: "length (BytesToString bs) = length bs"
  by (simp add: BytesToString_def)

lemma length_StringToBytes [simp]: "length (StringToBytes s) = length s"
  by (simp add: StringToBytes_def)

section \<open>Java's string hash\<close>

definition JavaStringHash :: "bytes \<Rightarrow> 32 word" where
  "JavaStringHash s = foldl (\<lambda>h c. 31 * h + ucast c) 0 s"

text \<open>The polynomial of \<^verbatim>\<open>String.hashCode\<close>: the first byte has the highest power of 31.\<close>

fun java_hash_poly :: "bytes \<Rightarrow> nat" where
  "java_hash_poly [] = 0"
| "java_hash_poly (c # cs) = unat c * 31 ^ length cs + java_hash_poly cs"

lemma JavaStringHash_poly: "unat (JavaStringHash s) = java_hash_poly s mod 2 ^ 32"
proof -
  have "foldl (\<lambda>h c. 31 * h + ucast c) h s =
      (word_of_nat (31 ^ length s) * h + word_of_nat (java_hash_poly s) :: 32 word)" for h
    by (induction s arbitrary: h) (simp_all add: algebra_simps)
  from this [of 0] show ?thesis by (simp add: JavaStringHash_def unat_of_nat)
qed

end
