(* ===== verification/Crypto.thy ===== *)
theory Crypto
  imports Util
begin

text \<open>
  The package \<^verbatim>\<open>crypto\<close>: PKCS#7 padding, AES in CBC mode with the key's first block as the
  initial vector, standard base64, key generation and key parsing. The AES block function itself is
  the parameter of type \<open>block_cipher\<close>; what the package relies on is that decrypting a block
  undoes encrypting it (\<open>cipher_ok\<close>). The length check of \<^verbatim>\<open>aes.NewCipher\<close>, the chaining and the
  base64 coding are written out.
\<close>

section \<open>Padding\<close>

datatype crypto_err =
    ErrInvalidPadding      \<comment> \<open>\<^verbatim>\<open>invalid padding input\<close>\<close>
  | KeySizeError
  | CorruptInputError      \<comment> \<open>base64\<close>
  | ErrUnsupportedLength
  | ErrEmptyKey
  | RandErr
  | CryptoPanic            \<comment> \<open>\<^verbatim>\<open>CryptBlocks\<close> panics on input that is not full blocks\<close>

definition pkcs7Padding :: "bytes \<Rightarrow> nat \<Rightarrow> bytes" where
  "pkcs7Padding data blockSize =
     (let padding = blockSize - length data mod blockSize
      in data @ replicate padding (word_of_nat padding))"

definition pkcs7UnPadding :: "bytes \<Rightarrow> crypto_err + bytes" where
  "pkcs7UnPadding data =
     (if data = [] then Inl ErrInvalidPadding
      else let unPadding = unat (last data)
           in if unPadding > length data then Inl ErrInvalidPadding
              else Inr (take (length data - unPadding) data))"

section \<open>CBC mode over a block cipher\<close>

record block_cipher =
  encBlock :: "bytes \<Rightarrow> bytes \<Rightarrow> bytes"   \<comment> \<open>key, block\<close>
  decBlock :: "bytes \<Rightarrow> bytes \<Rightarrow> bytes"

definition aesBlockSize :: nat where "aesBlockSize = 16"

definition valid_key_len :: "nat \<Rightarrow> bool" where
  "valid_key_len n \<longleftrightarrow> n = 16 \<or> n = 24 \<or> n = 32"

definition xor_block :: "bytes \<Rightarrow> bytes \<Rightarrow> bytes" where
  "xor_block a b = map2 (\<lambda>x y. Bit_Operations.xor x y) a b"

function cbc_encrypt :: "block_cipher \<Rightarrow> bytes \<Rightarrow> bytes \<Rightarrow> bytes \<Rightarrow> bytes" where
  "cbc_encrypt bc key iv data =
     (if length data < aesBlockSize then []
      else let c = encBlock bc key (xor_block (take aesBlockSize data) iv)
           in c @ cbc_encrypt bc key c (drop aesBlockSize data))"
  by pat_completeness auto
termination
  by (relation "measure (\<lambda>(bc, key, iv, data). length data)") (auto simp: aesBlockSize_def)

function cbc_decrypt :: "block_cipher \<Rightarrow> bytes \<Rightarrow> bytes \<Rightarrow> bytes \<Rightarrow> bytes" where
  "cbc_decrypt bc key iv data =
     (if length data < aesBlockSize then []
      else let c = take aesBlockSize data
           in xor_block (decBlock bc key c) iv @ cbc_decrypt bc key c (drop aesBlockSize data))"
  by pat_completeness auto
termination
  by (relation "measure (\<lambda>(bc, key, iv, data). length data)") (auto simp: aesBlockSize_def)

declare cbc_encrypt.simps [simp del] cbc_decrypt.simps [simp del]

definition AesEncrypt :: "block_cipher \<Rightarrow> bytes \<Rightarrow> bytes \<Rightarrow> crypto_err + bytes" where
  "AesEncrypt bc data key =
     (if \<not> valid_key_len (length key) then Inl KeySizeError
      else Inr (cbc_encrypt bc key (take aesBlockSize key) (pkcs7Padding data aesBlockSize)))"

definition AesDecrypt :: "block_cipher \<Rightarrow> bytes \<Rightarrow> bytes \<Rightarrow> crypto_err + bytes" where
  "AesDecrypt bc data key =
     (if \<not> valid_key_len (length key) then Inl KeySizeError
      else if length data mod aesBlockSize \<noteq> 0 then Inl CryptoPanic
      else pkcs7UnPadding (cbc_decrypt bc key (take aesBlockSize key) data))"

section \<open>Base64\<close>

definition b64_alphabet :: string where
  "b64_alphabet = ''ABCDEFGHIJKLMNOPQRSTUVWXYZabcdefghijklmnopqrstuvwxyz0123456789+/''"

definition b64_char :: "nat \<Rightarrow> char" where
  "b64_char n = b64_alphabet ! n"

definition b64_val :: "char \<Rightarrow> nat option" where
  "b64_val c = (if c \<in> set b64_alphabet then Some (nat (Index b64_alphabet c)) else None)"

fun b64_encode :: "bytes \<Rightarrow> string" where
  "b64_encode [] = []"
| "b64_encode [a] =
     (let v = unat a * 65536
      in [b64_char (v div 262144), b64_char (v div 4096 mod 64), CHR ''='', CHR ''=''])"
| "b64_encode [a, b] =
     (let v = unat a * 65536 + unat b * 256
      in [b64_char (v div 262144), b64_char (v div 4096 mod 64), b64_char (v div 64 mod 64), CHR ''=''])"
| "b64_encode (a # b # c # rest) =
     (let v = unat a * 65536 + unat b * 256 + unat c
      in [b64_char (v div 262144), b64_char (v div 4096 mod 64), b64_char (v div 64 mod 64),
          b64_char (v mod 64)] @ b64_encode rest)"

definition quad_bytes :: "nat \<Rightarrow> nat \<Rightarrow> nat \<Rightarrow> nat \<Rightarrow> bytes" where
  "quad_bytes x y z w =
     (let v = x * 262144 + y * 4096 + z * 64 + w
      in [word_of_nat (v div 65536), word_of_nat (v div 256), word_of_nat v])"

fun b64_quads :: "string \<Rightarrow> crypto_err + bytes" where
  "b64_quads [] = Inr []"
| "b64_quads (a # b # c # d # rest) =
     (case (b64_val a, b64_val b) of
        (Some x, Some y) \<Rightarrow>
          if c = CHR ''='' \<and> d = CHR ''='' \<and> rest = [] then Inr (take 1 (quad_bytes x y 0 0))
          else (case (b64_val c, b64_val d) of
              (Some z, Some w) \<Rightarrow>
                (case b64_quads rest of Inl e \<Rightarrow> Inl e | Inr bs \<Rightarrow> Inr (quad_bytes x y z w @ bs))
            | (Some z, None) \<Rightarrow>
                if d = CHR ''='' \<and> rest = [] then Inr (take 2 (quad_bytes x y z 0)) else Inl CorruptInputError
            | _ \<Rightarrow> Inl CorruptInputError)
      | _ \<Rightarrow> Inl CorruptInputError)"
| "b64_quads _ = Inl CorruptInputError"

text \<open>\<^verbatim>\<open>DecodeString\<close> skips line breaks.\<close>

definition b64_decode :: "string \<Rightarrow> crypto_err + bytes" where
  "b64_decode s = b64_quads (filter (\<lambda>c. c \<noteq> CHR 0x0A \<and> c \<noteq> CHR 0x0D) s)"

section \<open>Keys and text\<close>

definition TestKey :: bytes where
  "TestKey = StringToBytes ''0123456789ABCDEF''"

definition EncryptByAes :: "block_cipher \<Rightarrow> bytes \<Rightarrow> crypto_err + string" where
  "EncryptByAes bc data =
     (case AesEncrypt bc data TestKey of Inl e \<Rightarrow> Inl e | Inr res \<Rightarrow> Inr (b64_encode res))"

definition DecryptByAes :: "block_cipher \<Rightarrow> string \<Rightarrow> crypto_err + bytes" where
  "DecryptByAes bc data =
     (case b64_decode data of Inl e \<Rightarrow> Inl e | Inr dataByte \<Rightarrow> AesDecrypt bc dataByte TestKey)"

text \<open>The random source is the argument: the bytes it delivers for a length, or its failure.\<close>

definition GenRandomKey :: "(nat \<Rightarrow> bytes option) \<Rightarrow> nat \<Rightarrow> crypto_err + string" where
  "GenRandomKey rnd keyLen =
     (if valid_key_len keyLen
      then case rnd keyLen of None \<Rightarrow> Inl RandErr | Some key \<Rightarrow> Inr (b64_encode key)
      else Inl ErrUnsupportedLength)"

definition ParseKey :: "string \<Rightarrow> crypto_err + bytes" where
  "ParseKey key =
     (if length key = 0 then Inl ErrEmptyKey
      else if valid_key_len (length key) then Inr (StringToBytes key)
      else b64_decode key)"

section \<open>Round trips\<close>

lemma pkcs7_length:
  "0 < bs \<Longrightarrow> length (pkcs7Padding data bs) mod bs = 0 \<and> length data < length (pkcs7Padding data bs)"
proof -
  assume "0 < bs"
  then have le: "length data mod bs < bs" by simp
  have "(length data + (bs - length data mod bs)) mod bs = (length data div bs * bs + bs) mod bs"
    using le div_mult_mod_eq [of "length data" bs] by (intro arg_cong2 [where f = "(mod)"]) linarith+
  then show ?thesis using le by (simp add: pkcs7Padding_def Let_def)
qed

lemma pkcs7_roundtrip:
  assumes "0 < bs" "bs < 256"
  shows "pkcs7UnPadding (pkcs7Padding data bs) = Inr data"
proof -
  define p where "p = bs - length data mod bs"
  have p: "0 < p" "p < 256" using assms by (simp_all add: p_def less_imp_diff_less)
  then have "unat (word_of_nat p :: byte) = p" by (simp add: unat_of_nat)
  then show ?thesis using p
    by (simp add: pkcs7UnPadding_def pkcs7Padding_def Let_def flip: p_def)
qed

definition cipher_ok :: "block_cipher \<Rightarrow> bytes \<Rightarrow> bool" where
  "cipher_ok bc key \<longleftrightarrow> (\<forall>b. length b = aesBlockSize \<longrightarrow>
     length (encBlock bc key b) = aesBlockSize \<and> decBlock bc key (encBlock bc key b) = b)"

lemma length_xor_block [simp]: "length (xor_block a b) = min (length a) (length b)"
  by (simp add: xor_block_def)

lemma xor_block_cancel: "length a = length b \<Longrightarrow> xor_block (xor_block a b) b = a"
  by (rule nth_equalityI) (simp_all add: xor_block_def xor.assoc)

lemma cbc_encrypt_length:
  "cipher_ok bc key \<Longrightarrow> length iv = aesBlockSize \<Longrightarrow> length data mod aesBlockSize = 0 \<Longrightarrow>
   length (cbc_encrypt bc key iv data) = length data"
proof (induction bc key iv data rule: cbc_encrypt.induct)
  case (1 bc key iv data)
  show ?case
  proof (cases "length data < aesBlockSize")
    case True
    with 1 show ?thesis by (subst cbc_encrypt.simps) simp
  next
    case False
    let ?c = "encBlock bc key (xor_block (take aesBlockSize data) iv)"
    have c: "length ?c = aesBlockSize" using 1(2, 3) False by (simp add: cipher_ok_def)
    have "length (cbc_encrypt bc key ?c (drop aesBlockSize data)) = length (drop aesBlockSize data)"
      using 1 False c by (auto simp: Let_def mod_if)
    with c False show ?thesis by (subst cbc_encrypt.simps) (simp add: Let_def)
  qed
qed

lemma cbc_roundtrip:
  "cipher_ok bc key \<Longrightarrow> length iv = aesBlockSize \<Longrightarrow> length data mod aesBlockSize = 0 \<Longrightarrow>
   cbc_decrypt bc key iv (cbc_encrypt bc key iv data) = data"
proof (induction bc key iv data rule: cbc_encrypt.induct)
  case (1 bc key iv data)
  show ?case
  proof (cases "length data < aesBlockSize")
    case True
    then have "data = []" using 1(4) by simp
    then show ?thesis
      by (subst cbc_encrypt.simps, subst cbc_decrypt.simps) (simp add: aesBlockSize_def)
  next
    case False
    let ?b = "take aesBlockSize data"
    let ?c = "encBlock bc key (xor_block ?b iv)"
    let ?d = "cbc_encrypt bc key ?c (drop aesBlockSize data)"
    have c: "length ?c = aesBlockSize" and dec: "decBlock bc key ?c = xor_block ?b iv"
      using 1(2, 3) False by (simp_all add: cipher_ok_def)
    have IH: "cbc_decrypt bc key ?c ?d = drop aesBlockSize data"
      using 1 False c by (auto simp: Let_def mod_if)
    have "cbc_encrypt bc key iv data = ?c @ ?d"
      using False by (subst cbc_encrypt.simps) (simp add: Let_def)
    moreover have "cbc_decrypt bc key iv (?c @ ?d) = xor_block (decBlock bc key ?c) iv @ cbc_decrypt bc key ?c ?d"
      using c by (subst cbc_decrypt.simps) (simp add: Let_def)
    moreover have "xor_block (xor_block ?b iv) iv = ?b"
      using False 1(3) by (intro xor_block_cancel) simp
    ultimately show ?thesis using IH dec by simp
  qed
qed

lemma valid_key_iv: "valid_key_len (length key) \<Longrightarrow> length (take aesBlockSize key) = aesBlockSize"
  by (auto simp: valid_key_len_def aesBlockSize_def)

lemma aes_decrypts:
  assumes "cipher_ok bc key" "AesEncrypt bc data key = Inr enc"
  shows "AesDecrypt bc enc key = Inr data"
proof -
  let ?p = "pkcs7Padding data aesBlockSize"
  have v: "valid_key_len (length key)" and enc: "enc = cbc_encrypt bc key (take aesBlockSize key) ?p"
    using assms(2) by (auto simp: AesEncrypt_def split: if_splits)
  have len: "length ?p mod aesBlockSize = 0"
    using pkcs7_length [of aesBlockSize data] by (simp add: aesBlockSize_def)
  show ?thesis
    using v cbc_roundtrip [OF assms(1) valid_key_iv [OF v] len] cbc_encrypt_length [OF assms(1) valid_key_iv [OF v] len]
      pkcs7_roundtrip [of aesBlockSize data] len
    by (simp add: AesDecrypt_def enc aesBlockSize_def)
qed

text \<open>
  For every key of a valid length and every block cipher whose decryption undoes its encryption,
  \<^verbatim>\<open>AesDecrypt\<close> gives back exactly the bytes that \<^verbatim>\<open>AesEncrypt\<close> was given, whatever their
  length; the ciphertext is a whole number of blocks and longer than the plaintext. For every other
  key length both report an error.
\<close>

theorem aes_roundtrip:
  assumes "cipher_ok bc key"
  shows "(valid_key_len (length key) \<longrightarrow>
      (\<exists>enc. AesEncrypt bc data key = Inr enc \<and> AesDecrypt bc enc key = Inr data \<and>
         length enc mod 16 = 0 \<and> length data < length enc))
    \<and> (\<not> valid_key_len (length key) \<longrightarrow>
         AesEncrypt bc data key = Inl KeySizeError \<and> AesDecrypt bc data key = Inl KeySizeError)"
proof -
  have len: "length (pkcs7Padding data aesBlockSize) mod aesBlockSize = 0"
    "length data < length (pkcs7Padding data aesBlockSize)"
    using pkcs7_length [of aesBlockSize data] by (simp_all add: aesBlockSize_def)
  show ?thesis
    using cbc_roundtrip [OF assms valid_key_iv len(1)] cbc_encrypt_length [OF assms valid_key_iv len(1)]
      pkcs7_roundtrip [of aesBlockSize data] len
    by (simp add: AesEncrypt_def AesDecrypt_def aesBlockSize_def)
qed

text \<open>A concrete block cipher for examples: exclusive or with the first block of the key.\<close>

definition xor_cipher :: block_cipher where
  "xor_cipher = \<lparr>encBlock = (\<lambda>k b. xor_block b (take aesBlockSize k)),
     decBlock = (\<lambda>k b. xor_block b (take aesBlockSize k))\<rparr>"

lemma xor_cipher_ok: "valid_key_len (length key) \<Longrightarrow> cipher_ok xor_cipher key"
  using valid_key_iv [of key] by (simp add: cipher_ok_def xor_cipher_def xor_block_cancel)

lemma TestKey_valid: "valid_key_len (length TestKey)"
  by (simp add: TestKey_def valid_key_len_def)

theorem aes_roundtrip_witness:
  "\<exists>enc. AesEncrypt xor_cipher [1, 2, 3] TestKey = Inr enc \<and> AesDecrypt xor_cipher enc TestKey = Inr [1, 2, 3]"
  using aes_roundtrip [OF xor_cipher_ok [OF TestKey_valid], of "[1, 2, 3]"] TestKey_valid by blast

lemma b64_vals: "list_all (\<lambda>n. b64_val (b64_char n) = Some n \<and> b64_char n \<noteq> CHR ''='' \<and>
    b64_char n \<noteq> CHR 0x0A \<and> b64_char n \<noteq> CHR 0x0D) [0..<64]"
  by code_simp

lemma b64_val_char:
  assumes "n < 64"
  shows "b64_val (b64_char n) = Some n" "b64_char n \<noteq> CHR ''=''" "b64_char n \<noteq> CHR 0x0A" "b64_char n \<noteq> CHR 0x0D"
  using b64_vals assms by (auto simp: list_all_iff)

lemma byte_bound: "unat (a :: byte) < 256"
  using unsigned_less [of a, where 'a = nat] by simp

lemma div_mod_256: "(c :: nat) < 256 \<Longrightarrow> (x * 256 + c) div 256 = x" "(c :: nat) < 256 \<Longrightarrow> (x * 256 + c) mod 256 = c"
  by simp_all

lemma base64_digits:
  fixes v :: nat
  shows "v div 262144 * 262144 + v div 4096 mod 64 * 4096 + v div 64 mod 64 * 64 + v mod 64 = v"
proof -
  have "v div 262144 = v div 64 div 64 div 64" "v div 4096 = v div 64 div 64"
    by (simp_all add: div_mult2_eq [symmetric])
  moreover have "q3 * 262144 + r2 * 4096 + r1 * 64 + r0 = v"
    if "q1 * 64 + r0 = v" "q2 * 64 + r1 = q1" "q3 * 64 + r2 = q2" for q1 q2 q3 r0 r1 r2 :: nat
    using that by auto
  ultimately show ?thesis
    by (metis div_mult_mod_eq)
qed

lemma mult_64_digits: "(x * 65536) div 64 mod 64 = (0::nat)" "(x * 65536) mod 64 = (0::nat)"
  "(x * 65536 + y * 256) mod 64 = (0::nat)"
proof -
  have "x * 65536 = x * 16 * 64 * 64" "x * 65536 + y * 256 = (x * 1024 + y * 4) * 64" by simp_all
  then show "(x * 65536) div 64 mod 64 = 0" "(x * 65536) mod 64 = 0" "(x * 65536 + y * 256) mod 64 = 0"
    by (simp_all only: nonzero_mult_div_cancel_right mod_mult_self2_is_0)
qed

lemma unat_word: "(word_of_nat (unat a) :: byte) = a"
  by simp

lemma quad_bytes_triple:
  fixes a b c :: byte
  defines "v \<equiv> unat a * 65536 + unat b * 256 + unat c"
  shows "quad_bytes (v div 262144) (v div 4096 mod 64) (v div 64 mod 64) (v mod 64) = [a, b, c]"
proof -
  have v: "v div 262144 * 262144 + v div 4096 mod 64 * 4096 + v div 64 mod 64 * 64 + v mod 64 = v"
    by (rule base64_digits)
  have v': "v = (unat a * 256 + unat b) * 256 + unat c" unfolding v_def by simp
  have "v div 65536 = v div 256 div 256" by (simp add: div_mult2_eq [symmetric])
  moreover have "v div 256 = unat a * 256 + unat b" "v mod 256 = unat c"
    unfolding v' by (rule div_mod_256 [OF byte_bound])+
  ultimately have "v div 65536 = unat a" "v div 256 mod 256 = unat b" "v mod 256 = unat c"
    using div_mod_256 [OF byte_bound [of b], of "unat a"] by simp_all
  moreover have "word_of_nat n = (word_of_nat (n mod 256) :: byte)" for n
    by (simp add: word_of_nat_eq_iff take_bit_eq_mod)
  ultimately have "word_of_nat (v div 65536) = a" "word_of_nat (v div 256) = b" "word_of_nat v = c"
    using unat_word by metis+
  then show ?thesis unfolding quad_bytes_def v by (simp add: Let_def)
qed

lemma triple_vals:
  fixes v :: nat
  assumes "v < 16777216"
  shows "v div 262144 < 64" "v div 4096 mod 64 < 64" "v div 64 mod 64 < 64" "v mod 64 < 64"
  using assms by simp_all

lemma b64_quads_encode: "b64_quads (b64_encode bs) = Inr bs"
proof (induction bs rule: b64_encode.induct)
  case 1
  then show ?case by simp
next
  case (2 a)
  let ?v = "unat a * 65536"
  have "?v < 16777216" using byte_bound [of a] by simp
  note t = triple_vals [OF this]
  note z = mult_64_digits(1, 2) [of "unat a"]
  show ?case using quad_bytes_triple [of a 0 0] z b64_val_char(1) [OF t(1)] b64_val_char(1) [OF t(2)]
    by (simp add: Let_def)
next
  case (3 a b)
  let ?v = "unat a * 65536 + unat b * 256"
  have "?v < 16777216" using byte_bound [of a] byte_bound [of b] by simp
  note t = triple_vals [OF this]
  note z = mult_64_digits(3) [of "unat a" "unat b"]
  have e: "b64_val CHR ''='' = None" by code_simp
  show ?case
    using quad_bytes_triple [of a b 0] z b64_val_char(1) [OF t(1)] b64_val_char(1) [OF t(2)]
      b64_val_char [OF t(3)] e
    by (simp add: Let_def)
next
  case (4 a b c rest)
  let ?v = "unat a * 65536 + unat b * 256 + unat c"
  have "?v < 16777216" using byte_bound [of a] byte_bound [of b] byte_bound [of c] by simp
  note t = triple_vals [OF this]
  show ?case
    using quad_bytes_triple [of a b c] b64_val_char(1) [OF t(1)] b64_val_char(1) [OF t(2)]
      b64_val_char [OF t(3)] b64_val_char(1) [OF t(4)] 4
    by (simp add: Let_def)
qed

lemma b64_encode_no_breaks: "c \<in> set (b64_encode bs) \<Longrightarrow> c \<noteq> CHR 0x0A \<and> c \<noteq> CHR 0x0D"
proof (induction bs rule: b64_encode.induct)
  case (2 a)
  have "unat a * 65536 < 16777216" using byte_bound [of a] by simp
  note t = triple_vals [OF this]
  show ?case using 2 b64_val_char(3,4) [OF t(1)] b64_val_char(3,4) [OF t(2)] by (auto simp: Let_def)
next
  case (3 a b)
  have "unat a * 65536 + unat b * 256 < 16777216" using byte_bound [of a] byte_bound [of b] by simp
  note t = triple_vals [OF this]
  show ?case using 3 b64_val_char(3,4) [OF t(1)] b64_val_char(3,4) [OF t(2)] b64_val_char(3,4) [OF t(3)]
    by (auto simp: Let_def)
next
  case (4 a b d rest)
  have "unat a * 65536 + unat b * 256 + unat d < 16777216"
    using byte_bound [of a] byte_bound [of b] byte_bound [of d] by simp
  note t = triple_vals [OF this]
  show ?case using 4 b64_val_char(3,4) [OF t(1)] b64_val_char(3,4) [OF t(2)] b64_val_char(3,4) [OF t(3)]
      b64_val_char(3,4) [OF t(4)] by (auto simp: Let_def)
qed simp

lemma b64_roundtrip: "b64_decode (b64_encode bs) = Inr bs"
proof -
  have "filter (\<lambda>c. c \<noteq> CHR 0x0A \<and> c \<noteq> CHR 0x0D) (b64_encode bs) = b64_encode bs"
    using b64_encode_no_breaks by (simp add: filter_id_conv)
  then show ?thesis by (simp add: b64_decode_def b64_quads_encode)
qed

lemma b64_encode_length: "length (b64_encode bs) = 4 * ((length bs + 2) div 3)"
proof (induction bs rule: b64_encode.induct)
  case (4 a b c rest)
  have "(5 + length rest) div 3 = Suc (Suc (Suc (length rest)) div 3)"
    using div_add_self2 [of 3 "Suc (Suc (length rest))"] by simp
  then show ?case using 4 by (simp add: Let_def)
qed (simp_all add: Let_def)

text \<open>
  What \<^verbatim>\<open>DecryptByAes\<close> makes of the text \<^verbatim>\<open>EncryptByAes\<close> produced is the original data: base64
  and AES undo each other in the right order.
\<close>

theorem text_encryption_roundtrip:
  assumes "cipher_ok bc TestKey"
  shows "\<exists>txt. EncryptByAes bc data = Inr txt \<and> DecryptByAes bc txt = Inr data"
  using cbc_roundtrip [OF assms valid_key_iv [OF TestKey_valid], of "pkcs7Padding data aesBlockSize"]
    cbc_encrypt_length [OF assms valid_key_iv [OF TestKey_valid], of "pkcs7Padding data aesBlockSize"]
    pkcs7_roundtrip [of aesBlockSize data] pkcs7_length [of aesBlockSize data] TestKey_valid
  by (simp add: EncryptByAes_def DecryptByAes_def AesEncrypt_def AesDecrypt_def b64_roundtrip aesBlockSize_def)

theorem text_encryption_roundtrip_witness:
  "\<exists>txt. EncryptByAes xor_cipher [7, 8] = Inr txt \<and> DecryptByAes xor_cipher txt = Inr [7, 8]"
  by (rule text_encryption_roundtrip [OF xor_cipher_ok [OF TestKey_valid]])



end
