(* ===== verification/Message.thy ===== *)
theory Message
  imports Util
begin

text \<open>
  \<^verbatim>\<open>tglog/message.go\<close>: the log record, parsing a file of records, and turning an object into a
  record. An object is what reflection sees of it: a possibly nil pointer chain that ends in a struct
  with its field values or in something else. Floating-point fields are exact rationals printed with
  three decimals; the printing of times, durations and values of other types is the argument
  \<open>ext\<close>.
\<close>

record Message =
  Name :: string
  Payload :: bytes
  Headers :: "(string \<times> string) list"
  MetaData :: "nat option"

definition mk_message :: "string \<Rightarrow> bytes \<Rightarrow> Message" where
  "mk_message n p = \<lparr>Name = n, Payload = p, Headers = [], MetaData = None\<rparr>"

abbreviation bar :: byte where "bar \<equiv> 124"
abbreviation newline :: byte where "newline \<equiv> 10"

section \<open>Parsing\<close>

datatype msg_err = ErrNoMessages | ErrNoName

definition parse_line :: "bytes \<Rightarrow> Message option" where
  "parse_line r =
     (let index = Index r bar
      in if index \<le> 0 then None
         else Some (mk_message (BytesToString (take (nat index) r)) (r @ [newline])))"

definition ParseMessages :: "bytes \<Rightarrow> msg_err + Message list" where
  "ParseMessages raw =
     (let output = List.map_filter parse_line (Split raw newline)
      in if output = [] then Inl ErrNoMessages else Inr output)"

definition GetTGLogName :: "string \<Rightarrow> msg_err + string" where
  "GetTGLogName lg =
     (let index = Index lg (CHR ''|'')
      in if index \<le> 0 then Inl ErrNoName else Inr (take (nat index) lg))"

section \<open>Objects\<close>

datatype 'x goval =
    VString string
  | VBytes bytes
  | VInt int          \<comment> \<open>the signed integer types\<close>
  | VUint nat         \<comment> \<open>the unsigned integer types\<close>
  | VFloat rat
  | VBool bool
  | VTimeNil          \<comment> \<open>a nil \<^verbatim>\<open>*time.Time\<close>\<close>
  | VExt 'x           \<comment> \<open>times, durations, everything printed with \<^verbatim>\<open>%v\<close>\<close>
  | VUnexported

datatype 'x goobj =
    ONil
  | OPtrNil string
  | OPtr "'x goobj"
  | OStruct string "'x goval list"
  | OOther string

definition hex_digit :: "nat \<Rightarrow> char" where
  "hex_digit n = ''0123456789abcdef'' ! n"

definition hexEncode :: "bytes \<Rightarrow> string" where
  "hexEncode bs = concat (map (\<lambda>b. [hex_digit (unat b div 16), hex_digit (unat b mod 16)]) bs)"

text \<open>\<^verbatim>\<open>FormatFloat(x, 'f', 3, 64)\<close>: the nearest multiple of a thousandth, ties to even.\<close>

definition round_half_even :: "rat \<Rightarrow> int" where
  "round_half_even x =
     (let q = \<lfloor>x\<rfloor>; r = x - of_int q
      in if r > 1 / 2 \<or> (r = 1 / 2 \<and> odd q) then q + 1 else q)"

definition FormatFloat3 :: "rat \<Rightarrow> string" where
  "FormatFloat3 x =
     (let n = nat (round_half_even (\<bar>x\<bar> * 1000))
      in (if x < 0 then ''-'' else []) @ show_nat (n div 1000) @ ''.'' @
         [digit (n div 100 mod 10), digit (n div 10 mod 10), digit (n mod 10)])"

fun toString :: "('x \<Rightarrow> string) \<Rightarrow> 'x goval \<Rightarrow> string" where
  "toString ext (VString s) = s"
| "toString ext (VBytes bs) = hexEncode bs"
| "toString ext (VInt i) = Itoa i"
| "toString ext (VUint n) = Itoa (int n)"
| "toString ext (VFloat x) = FormatFloat3 x"
| "toString ext (VBool b) = (if b then ''true'' else ''false'')"
| "toString ext VTimeNil = []"
| "toString ext (VExt x) = ext x"
| "toString ext VUnexported = []"

fun tglogStructValue :: "'x goobj \<Rightarrow> string \<times> 'x goval list option" where
  "tglogStructValue ONil = ([], None)"
| "tglogStructValue (OPtrNil n) = (n, None)"
| "tglogStructValue (OPtr v) = tglogStructValue v"
| "tglogStructValue (OStruct n fs) = (n, Some fs)"
| "tglogStructValue (OOther n) = (n, None)"

definition ToTGLogString :: "('x \<Rightarrow> string) \<Rightarrow> 'x goobj \<Rightarrow> string" where
  "ToTGLogString ext obj =
     (case tglogStructValue obj of
        (n, None) \<Rightarrow> n @ [CHR 0x0A]
      | (n, Some fs) \<Rightarrow> n @ concat (map (\<lambda>f. CHR ''|'' # toString ext f) fs) @ [CHR 0x0A])"

definition ToTGLogMessage :: "('x \<Rightarrow> string) \<Rightarrow> 'x goobj \<Rightarrow> Message" where
  "ToTGLogMessage ext obj =
     (case tglogStructValue obj of
        (n, None) \<Rightarrow> mk_message n (StringToBytes n @ [newline])
      | (n, Some fs) \<Rightarrow>
          mk_message n (StringToBytes n @ concat (map (\<lambda>f. bar # StringToBytes (toString ext f)) fs) @ [newline]))"

section \<open>Properties\<close>

text \<open>A record as the format wants it: a non-empty name, a bar, the rest, and a newline at the end and
  nowhere else.\<close>

definition wf_message :: "Message \<Rightarrow> bool" where
  "wf_message m \<longleftrightarrow> (\<exists>rest. m = mk_message (Name m) (StringToBytes (Name m) @ bar # rest @ [newline])
     \<and> newline \<notin> set rest) \<and> Name m \<noteq> [] \<and> bar \<notin> set (StringToBytes (Name m)) \<and> newline \<notin> set (StringToBytes (Name m))"

lemma parse_line_wf:
  assumes "wf_message m" "Payload m = l @ [newline]"
  shows "parse_line l = Some m"
proof -
  obtain rest where m: "m = mk_message (Name m) (StringToBytes (Name m) @ bar # rest @ [newline])"
    using assms(1) by (auto simp: wf_message_def)
  have "Payload m = StringToBytes (Name m) @ bar # rest @ [newline]" by (subst m) (simp add: mk_message_def)
  then have l: "l = StringToBytes (Name m) @ bar # rest" using assms(2) by simp
  have "Index l bar = int (length (Name m))"
    using assms(1) unfolding l by (subst Index_append) (simp_all add: wf_message_def)
  moreover have "Name m \<noteq> []" using assms(1) by (simp add: wf_message_def)
  ultimately have "parse_line l = Some (mk_message (Name m) (l @ [newline]))"
    by (simp add: parse_line_def Let_def l)
  then show ?thesis using m l by simp
qed

lemma wf_payload: "wf_message m \<Longrightarrow> \<exists>l. Payload m = l @ [newline] \<and> newline \<notin> set l"
proof -
  assume "wf_message m"
  then obtain rest where m: "m = mk_message (Name m) (StringToBytes (Name m) @ bar # rest @ [newline])"
    and n: "newline \<notin> set rest" "newline \<notin> set (StringToBytes (Name m))" by (auto simp: wf_message_def)
  have "Payload m = (StringToBytes (Name m) @ bar # rest) @ [newline]" by (subst m) (simp add: mk_message_def)
  then show ?thesis using n by (intro exI [of _ "StringToBytes (Name m) @ bar # rest"]) simp
qed

lemma map_filter_parse_lines:
  "list_all wf_message ms \<Longrightarrow>
     List.map_filter parse_line (Split (concat (map Payload ms)) newline) = ms"
proof (induction ms)
  case Nil
  then show ?case by (simp add: List.map_filter_def parse_line_def Index_def)
next
  case (Cons m ms)
  obtain l where l: "Payload m = l @ [newline]" "newline \<notin> set l"
    using wf_payload [of m] Cons.prems by auto
  have "Split (concat (map Payload (m # ms))) newline = l # Split (concat (map Payload ms)) newline"
    using l by (simp add: Split_append_sep)
  then show ?case
    using Cons parse_line_wf [of m l] l by (simp add: List.map_filter_simps)
qed

text \<open>
  Parsing a file that is the concatenation of well-formed records gives back exactly these
  records, in order; an input without any record is the error \<open>ErrNoMessages\<close>.
\<close>

theorem ParseMessages_concat:
  assumes "list_all wf_message ms"
  shows "ParseMessages (concat (map Payload ms)) = (if ms = [] then Inl ErrNoMessages else Inr ms)"
  using map_filter_parse_lines [OF assms] by (simp add: ParseMessages_def)

lemma word_of_char_iff: "n < 256 \<Longrightarrow> (word_of_nat (of_char c) :: byte) = word_of_nat n \<longleftrightarrow> c = char_of n"
proof
  assume n: "n < 256" and "(word_of_nat (of_char c) :: byte) = word_of_nat n"
  then have "unat (word_of_nat (of_char c) :: byte) = unat (word_of_nat n :: byte)" by simp
  then have "of_char c = n" using n of_char_mod_256 [of c, where 'a = nat] by (simp add: unat_of_nat)
  then show "c = char_of n" by (metis char_of_char)
qed (simp add: of_char_of)

lemma in_StringToBytes: "n < 256 \<Longrightarrow> (word_of_nat n :: byte) \<in> set (StringToBytes s) \<longleftrightarrow> char_of n \<in> set s"
  using word_of_char_iff [of n] by (induction s) (auto simp: StringToBytes_def eq_commute)

lemma newline_in_StringToBytes: "newline \<in> set (StringToBytes s) \<longleftrightarrow> CHR 0x0A \<in> set s"
  using in_StringToBytes [of 10 s] by (simp add: char_of_def bit_0)

lemma bar_in_StringToBytes: "bar \<in> set (StringToBytes s) \<longleftrightarrow> CHR ''|'' \<in> set s"
  using in_StringToBytes [of 124 s] by (simp add: char_of_def bit_0)

lemma ToTGLogMessage_struct_wf:
  assumes "tglogStructValue obj = (n, Some (f # fs))" and "n \<noteq> []"
    and "CHR ''|'' \<notin> set n" "CHR 0x0A \<notin> set n"
    and "\<forall>g \<in> set (f # fs). CHR 0x0A \<notin> set (toString ext g)"
  shows "wf_message (ToTGLogMessage ext obj)"
proof -
  let ?rest = "StringToBytes (toString ext f) @ concat (map (\<lambda>f. bar # StringToBytes (toString ext f)) fs)"
  have "newline \<notin> set ?rest" using assms(5) by (auto simp: newline_in_StringToBytes)
  moreover have "ToTGLogMessage ext obj = mk_message n (StringToBytes n @ bar # ?rest @ [newline])"
    using assms(1) by (simp add: ToTGLogMessage_def)
  ultimately show ?thesis
    using assms(2-4) by (auto simp: wf_message_def mk_message_def newline_in_StringToBytes bar_in_StringToBytes)
qed

text \<open>
  An object with a named struct type and at least one field, none of whose printed fields contains
  a newline, turns into a record that parses back to itself: the same name and the same payload, which
  is the text \<^verbatim>\<open>ToTGLogString\<close> gives, and \<^verbatim>\<open>GetTGLogName\<close> of that text is the name.
\<close>

theorem ToTGLogMessage_parses_back:
  assumes "tglogStructValue obj = (n, Some (f # fs))" and "n \<noteq> []"
    and "CHR ''|'' \<notin> set n" and "CHR 0x0A \<notin> set n"
    and "\<forall>g \<in> set (f # fs). CHR 0x0A \<notin> set (toString ext g)"
  shows "ParseMessages (Payload (ToTGLogMessage ext obj)) = Inr [ToTGLogMessage ext obj]
    \<and> Payload (ToTGLogMessage ext obj) = StringToBytes (ToTGLogString ext obj)
    \<and> GetTGLogName (ToTGLogString ext obj) = Inr n"
proof (intro conjI)
  have "wf_message (ToTGLogMessage ext obj)" using assms by (rule ToTGLogMessage_struct_wf)
  then show "ParseMessages (Payload (ToTGLogMessage ext obj)) = Inr [ToTGLogMessage ext obj]"
    using map_filter_parse_lines [of "[ToTGLogMessage ext obj]"] by (simp add: ParseMessages_def)
  show "Payload (ToTGLogMessage ext obj) = StringToBytes (ToTGLogString ext obj)"
    using assms(1) by (simp add: ToTGLogMessage_def ToTGLogString_def mk_message_def StringToBytes_def
        map_concat o_def)
  have "Index (n @ CHR ''|'' # x) CHR ''|'' = int (length n)" for x
    using assms(3) by (rule Index_append)
  then show "GetTGLogName (ToTGLogString ext obj) = Inr n"
    using assms(1, 2) by (simp add: GetTGLogName_def ToTGLogString_def Let_def)
qed

text \<open>An example: a login record.\<close>

definition login_obj :: "unit goobj" where
  "login_obj = OPtr (OStruct ''login'' [VString ''u1'', VInt (- 5), VBool True])"

theorem ParseMessages_concat_witness:
  "ParseMessages (concat (map Payload [mk_message ''a'' [97, 124, 98, 10]])) = Inr [mk_message ''a'' [97, 124, 98, 10]]"
proof -
  have "list_all wf_message [mk_message ''a'' [97, 124, 98, 10]]"
    by (auto simp: wf_message_def mk_message_def StringToBytes_def intro!: exI [of _ "[98]"])
  from ParseMessages_concat [OF this] show ?thesis by simp
qed

theorem ToTGLogMessage_parses_back_witness:
  "ParseMessages (Payload (ToTGLogMessage (\<lambda>_. []) login_obj)) = Inr [ToTGLogMessage (\<lambda>_. []) login_obj]"
proof -
  have "\<forall>g \<in> set [VString ''u1'', VInt (- 5), VBool True]. CHR 0x0A \<notin> set (toString (\<lambda>_::unit. []) g)"
    by (auto simp: Itoa_def show_nat.simps digit_def char_of_def)
  then show ?thesis
    by (intro conjunct1 [OF ToTGLogMessage_parses_back [of login_obj "''login''" "VString ''u1''"
            "[VInt (- 5), VBool True]" "\<lambda>_. []"]])
      (simp_all add: login_obj_def)
qed

text \<open>
  Separators inside a field are not escaped: a string field that contains a newline makes the
  record parse back as something else, and one that contains a bar is indistinguishable from two
  fields.
\<close>

theorem separators_not_escaped:
  "ParseMessages (Payload (ToTGLogMessage ext (OStruct ''e'' [VString (''x'' @ [CHR 0x0A] @ ''y'')]))) \<noteq>
     Inr [ToTGLogMessage ext (OStruct ''e'' [VString (''x'' @ [CHR 0x0A] @ ''y'')])] \<and>
   ToTGLogString ext (OStruct ''e'' [VString ''x|y'']) = ToTGLogString ext (OStruct ''e'' [VString ''x'', VString ''y''])"
  by (simp add: ToTGLogMessage_def ToTGLogString_def ParseMessages_def parse_line_def mk_message_def
      StringToBytes_def Index_def List.map_filter_def Let_def)

end
