(* ===== verification/Go_Binary.thy ===== *)
theory Go_Binary
  imports Go_Prelude
begin

text \<open>
  Go's \<^verbatim>\<open>encoding/binary\<close>: the two byte orders. \<open>PutUint bo n v\<close> is the \<open>n\<close>-byte image of
  \<open>v\<close>, as \<^verbatim>\<open>PutUint16\<close>, \<^verbatim>\<open>PutUint32\<close> and \<^verbatim>\<open>PutUint64\<close> write it, and \<open>GetUint bo\<close> the value
  \<^verbatim>\<open>Uint16\<close>, \<^verbatim>\<open>Uint32\<close> and \<^verbatim>\<open>Uint64\<close> read. The locale \<open>byte_order\<close> states what the framer and
  the codec rely on; both orders are interpretations of it.
\<close>

datatype ByteOrder = BigEndian | LittleEndian

fun be_put :: "nat \<Rightarrow> nat \<Rightarrow> bytes" where
  "be_put 0 v = []"
| "be_put (Suc n) v = be_put n (v div 256) @ [word_of_nat v]"

definition be_get :: "bytes \<Rightarrow> nat" where
  "be_get bs = foldl (\<lambda>acc b. acc * 256 + unat b) 0 bs"

definition le_put :: "nat \<Rightarrow> nat \<Rightarrow> bytes" where
  "le_put n v = rev (be_put n v)"

definition le_get :: "bytes \<Rightarrow> nat" where
  "le_get bs = be_get (rev bs)"

locale byte_order =
  fixes put :: "nat \<Rightarrow> nat \<Rightarrow> bytes" and get :: "bytes \<Rightarrow> nat"
  assumes put_length: "length (put n v) = n"
    and get_put_mod: "get (put n v) = v mod 256 ^ n"
    and get_bound: "get bs < 256 ^ length bs"
begin

lemma get_put: "v < 256 ^ n \<Longrightarrow> get (put n v) = v"
  by (simp add: get_put_mod)

lemma put_inj: "v < 256 ^ n \<Longrightarrow> v' < 256 ^ n \<Longrightarrow> put n v = put n v' \<Longrightarrow> v = v'"
  by (metis get_put)

end

lemma be_get_snoc: "be_get (bs @ [b]) = be_get bs * 256 + unat b"
  by (simp add: be_get_def)

lemma be_put_length: "length (be_put n v) = n"
  by (induction n v rule: be_put.induct) auto

lemma be_get_put: "be_get (be_put n v) = v mod 256 ^ n"
proof (induction n v rule: be_put.induct)
  case (1 v)
  then show ?case by (simp add: be_get_def)
next
  case (2 n v)
  have "v mod (256 * 256 ^ n) = v div 256 mod 256 ^ n * 256 + v mod 256"
    using mod_mult2_eq [of v 256 "256 ^ n"] by simp
  with 2 show ?case by (simp add: be_get_snoc unat_of_nat)
qed

lemma be_get_bound: "be_get bs < 256 ^ length bs"
proof (induction bs rule: rev_induct)
  case Nil
  then show ?case by (simp add: be_get_def)
next
  case (snoc b bs)
  have "unat b < 2 ^ LENGTH(8)" by (rule unsigned_less)
  with snoc show ?case by (simp add: be_get_snoc)
qed

interpretation be: byte_order be_put be_get
  by unfold_locales (simp_all add: be_put_length be_get_put be_get_bound)

interpretation le: byte_order le_put le_get
proof unfold_locales
  fix bs
  show "le_get bs < 256 ^ length bs"
    using be_get_bound [of "rev bs"] by (simp add: le_get_def)
qed (simp_all add: le_put_def le_get_def be_put_length be_get_put)

definition PutUint :: "ByteOrder \<Rightarrow> nat \<Rightarrow> nat \<Rightarrow> bytes" where
  "PutUint bo n v = (case bo of BigEndian \<Rightarrow> be_put n v | LittleEndian \<Rightarrow> le_put n v)"

definition GetUint :: "ByteOrder \<Rightarrow> bytes \<Rightarrow> nat" where
  "GetUint bo bs = (case bo of BigEndian \<Rightarrow> be_get bs | LittleEndian \<Rightarrow> le_get bs)"

interpretation bo: byte_order "PutUint order" "GetUint order" for order
  by unfold_locales
    (simp_all add: PutUint_def GetUint_def be.put_length be.get_put_mod be.get_bound
      le.put_length le.get_put_mod le.get_bound split: ByteOrder.splits)

lemma PutUint_length [simp]: "length (PutUint bo n v) = n"
  by (rule bo.put_length)

end
