(* ===== verification/Codec.thy ===== *)
theory Codec
  imports Crypto Message Go_Binary
begin

text \<open>
  \<^verbatim>\<open>tglog/codec.go\<close>: the V1 text encoding, building, encoding and signing V3 requests and decoding V3
  responses. The generated protobuf code, snappy and MD5 are outside the repository: they
  are the fields of the record \<open>v3_ext\<close>, together with the constants of the protocol package, and
  what the codec relies on is stated as \<open>ext_ok\<close>. A slice expression that is out of range and a
  cipher called with half a block are the error \<open>CodecPanic\<close>, as Go panics there.
\<close>

section \<open>Data\<close>

record Timestamp =
  Seconds :: int
  Nanos :: int

record ReqHeader =
  hAppID :: string
  hAppName :: string
  hAppVer :: string
  SdkLang :: string
  SdkVer :: string
  SdkOS :: string
  hNetwork :: string
  ProtoVer :: string
  HostIP :: string
  Ts :: Timestamp
  hToken :: string
  hTokenType :: string
  Sig :: string

record Log =
  logName :: string
  Content :: string
  Seq :: "64 word"

datatype req_body =
    Req_HeartbeatReq Timestamp
  | Req_LogReq "(string \<times> string) list" "(string \<times> string) list" "Log list"

record Req =
  ReqID :: string
  AppMetaData :: bytes
  ReqBody :: req_body

record RspHeader =
  rspReqID :: string
  Code :: int
  Msg :: string

datatype rsp_body = Rsp_HeartbeatRsp | Rsp_LogRsp "64 word list" | Rsp_Other

record Rsp =
  rspHeader :: "RspHeader option"
  rspBody :: rsp_body

record v3_ext =
  Len_MAGIC :: nat
  Len_PACKAGE :: nat
  Len_FLAGS :: nat
  Len_HEADER :: nat
  Len_RESERVE :: nat
  Magic_VAL :: nat
  FLAG_COMPRESSED :: byte
  FLAG_ENCRYPTED :: byte
  FLAG_COMPRESSED_HEADER :: byte
  FLAG_ENCRYPTED_HEADER :: byte
  marshalReq :: "Req \<Rightarrow> string + bytes"
  marshalHeader :: "ReqHeader \<Rightarrow> string + bytes"
  unmarshalRsp :: "bytes \<Rightarrow> string + Rsp"
  snappyEncode :: "bytes \<Rightarrow> bytes"
  snappyDecodedLen :: "bytes \<Rightarrow> nat option"
  snappyDecode :: "bytes \<Rightarrow> bytes option"
  md5Sum :: "bytes \<Rightarrow> bytes"
  aesCipher :: block_cipher

text \<open>The package variables of \<^verbatim>\<open>codec.go\<close> and the clock.\<close>

record codec_env =
  language :: string
  platform :: string
  sdkVersion :: string
  protoVer :: string
  localIP :: string
  tsNow :: Timestamp

datatype codec_err =
    ErrEmptyMessages
  | ErrNilReq
  | ErrMarshal string
  | ErrCrypto crypto_err
  | ErrEmptyFrame
  | ErrInvalidMagic
  | ErrUnmarshal string
  | ErrDecrypt
  | ErrDecompress
  | CodecPanic

section \<open>V1\<close>

fun EncodeV1 :: "Message list \<Rightarrow> bytes \<Rightarrow> codec_err + bytes" where
  "EncodeV1 [] bb = Inr bb"
| "EncodeV1 (m # ms) bb =
     (if Payload m = [] then Inl CodecPanic
      else EncodeV1 ms (bb @ Payload m @ (if last (Payload m) \<noteq> newline then [newline] else [])))"

section \<open>Building V3 requests\<close>

definition nextSeq :: "64 word \<Rightarrow> 64 word \<times> 64 word" where
  "nextSeq sequence = (sequence, sequence + 1)"

fun buildLogs :: "Message list \<Rightarrow> 64 word \<Rightarrow> Log list \<times> 64 word" where
  "buildLogs [] sq = ([], sq)"
| "buildLogs (m # ms) sq =
     (case nextSeq sq of (n, sq') \<Rightarrow>
        case buildLogs ms sq' of (ls, sq'') \<Rightarrow>
          (\<lparr>logName = Name m, Content = BytesToString (Payload m), Seq = n\<rparr> # ls, sq''))"

definition buildHeader :: "codec_env \<Rightarrow> string \<Rightarrow> string \<Rightarrow> string \<Rightarrow> string \<Rightarrow> string \<Rightarrow> string \<Rightarrow> ReqHeader" where
  "buildHeader env appID appName appVer network token tokenType =
     \<lparr>hAppID = appID, hAppName = appName, hAppVer = appVer, SdkLang = language env,
      SdkVer = sdkVersion env, SdkOS = platform env, hNetwork = network, ProtoVer = protoVer env,
      HostIP = localIP env, Ts = tsNow env, hToken = token, hTokenType = tokenType, Sig = []\<rparr>"

definition BuildV3HeartbeatReq :: "codec_env \<Rightarrow> string \<Rightarrow> string \<Rightarrow> string \<Rightarrow> string \<Rightarrow> string \<Rightarrow> string \<Rightarrow>
    string \<Rightarrow> bytes \<Rightarrow> bool \<Rightarrow> ReqHeader option \<times> Req" where
  "BuildV3HeartbeatReq env appID appName appVer network reqID token tokenType appMetaData withHeader =
     ((if withHeader then Some (buildHeader env appID appName appVer network token tokenType) else None),
      \<lparr>ReqID = reqID, AppMetaData = appMetaData, ReqBody = Req_HeartbeatReq (tsNow env)\<rparr>)"

definition BuildV3LogReq :: "codec_env \<Rightarrow> 64 word \<Rightarrow> string \<Rightarrow> string \<Rightarrow> string \<Rightarrow> string \<Rightarrow> string \<Rightarrow> string \<Rightarrow>
    string \<Rightarrow> Message list \<Rightarrow> (string \<times> string) list \<Rightarrow> (string \<times> string) list \<Rightarrow> bytes \<Rightarrow>
    codec_err + (ReqHeader \<times> Req \<times> 64 word)" where
  "BuildV3LogReq env sq appID appName appVer network reqID token tokenType messages labels annotations appMetaData =
     (if messages = [] then Inl ErrEmptyMessages
      else case buildLogs messages sq of (pbLogs, sq') \<Rightarrow>
        Inr (buildHeader env appID appName appVer network token tokenType,
             \<lparr>ReqID = reqID, AppMetaData = appMetaData, ReqBody = Req_LogReq labels annotations pbLogs\<rparr>, sq'))"

section \<open>Signing\<close>

definition signData :: "v3_ext \<Rightarrow> string \<Rightarrow> string \<Rightarrow> string \<Rightarrow> int \<Rightarrow> bytes list \<Rightarrow> string" where
  "signData ext uri method token ts dataList =
     ToLower (hexEncode (md5Sum ext
       (StringToBytes uri @ StringToBytes method @ StringToBytes token @
        PutUint LittleEndian 8 (nat (ts mod 2 ^ 64)) @ concat dataList)))"

definition Sign :: "v3_ext \<Rightarrow> string \<Rightarrow> string \<Rightarrow> string \<Rightarrow> int \<Rightarrow> bytes \<Rightarrow> string" where
  "Sign ext uri method token ts data = signData ext uri method token ts [md5Sum ext data]"

section \<open>Encoding V3 requests\<close>

definition compressIf :: "v3_ext \<Rightarrow> bool \<Rightarrow> byte \<Rightarrow> byte \<times> bytes \<Rightarrow> byte \<times> bytes" where
  "compressIf ext compress flag fb =
     (case fb of (flags, buf) \<Rightarrow>
        if compress \<and> length buf > 512 then (Bit_Operations.or flags flag, snappyEncode ext buf) else (flags, buf))"

definition encryptIf :: "v3_ext \<Rightarrow> bool \<Rightarrow> byte \<Rightarrow> string \<Rightarrow> byte \<times> bytes \<Rightarrow> codec_err + (byte \<times> bytes)" where
  "encryptIf ext encrypt flag encryptKey fb =
     (case fb of (flags, buf) \<Rightarrow>
        if encrypt
        then case AesEncrypt (aesCipher ext) buf (StringToBytes encryptKey) of
               Inl e \<Rightarrow> Inl (ErrCrypto e) | Inr enc \<Rightarrow> Inr (Bit_Operations.or flags flag, enc)
        else Inr (flags, buf))"

text \<open>The header part: signed over the finished body, then compressed, then always encrypted.\<close>

definition encodeHeader :: "v3_ext \<Rightarrow> ReqHeader option \<Rightarrow> bool \<Rightarrow> bool \<Rightarrow> bool \<Rightarrow> string \<Rightarrow> bytes \<Rightarrow> byte \<Rightarrow>
    codec_err + (byte \<times> bytes)" where
  "encodeHeader ext header compress auth sign encryptKey bodyBuf flags =
     (case header of
        None \<Rightarrow> Inr (flags, [])
      | Some h \<Rightarrow>
          if \<not> (auth \<or> sign) then Inr (flags, [])
          else let h' = (if sign then h\<lparr>Sig := Sign ext (hNetwork h) (HostIP h) (hToken h) (Seconds (Ts h)) bodyBuf\<rparr>
                         else h)
               in case marshalHeader ext h' of
                    Inl e \<Rightarrow> Inl (ErrMarshal e)
                  | Inr hb \<Rightarrow> encryptIf ext True (FLAG_ENCRYPTED_HEADER ext) encryptKey
                                (compressIf ext compress (FLAG_COMPRESSED_HEADER ext) (flags, hb)))"

definition frameHeaderLen :: "v3_ext \<Rightarrow> nat" where
  "frameHeaderLen ext = Len_MAGIC ext + Len_PACKAGE ext + Len_FLAGS ext + Len_HEADER ext + Len_RESERVE ext"

definition writeFrame :: "v3_ext \<Rightarrow> bool \<Rightarrow> byte \<Rightarrow> bytes \<Rightarrow> bytes \<Rightarrow> bytes \<Rightarrow> bytes" where
  "writeFrame ext littleEndian flags headerBuf bodyBuf bb =
     (let order = (if littleEndian then LittleEndian else BigEndian)
      in bb @ PutUint BigEndian 2 (Magic_VAL ext) @
         PutUint order 4 (frameHeaderLen ext + length headerBuf + length bodyBuf) @
         [flags] @ PutUint order 2 (length headerBuf) @ [0] @ headerBuf @ bodyBuf)"

definition EncodeV3Req :: "v3_ext \<Rightarrow> ReqHeader option \<Rightarrow> Req option \<Rightarrow> bool \<Rightarrow> bool \<Rightarrow> bool \<Rightarrow> bool \<Rightarrow> bool \<Rightarrow>
    string \<Rightarrow> bytes \<Rightarrow> bool \<Rightarrow> codec_err + bytes" where
  "EncodeV3Req ext header body noFrameHeader compress encrypt auth sign encryptKey bb littleEndian =
     (case body of
        None \<Rightarrow> Inl ErrNilReq
      | Some b \<Rightarrow>
          (case marshalReq ext b of
             Inl e \<Rightarrow> Inl (ErrMarshal e)
           | Inr bodyBytes \<Rightarrow>
               if noFrameHeader \<and> \<not> compress \<and> \<not> encrypt \<and> \<not> auth \<and> \<not> sign then Inr (bb @ bodyBytes)
               else case encryptIf ext encrypt (FLAG_ENCRYPTED ext) encryptKey
                           (compressIf ext compress (FLAG_COMPRESSED ext) (0, bodyBytes)) of
                      Inl e \<Rightarrow> Inl e
                    | Inr (flags, bodyBuf) \<Rightarrow>
                        (case encodeHeader ext header compress auth sign encryptKey bodyBuf flags of
                           Inl e \<Rightarrow> Inl e
                         | Inr (flags', headerBuf) \<Rightarrow>
                             Inr (writeFrame ext littleEndian flags' headerBuf bodyBuf bb))))"

section \<open>Decoding V3 responses\<close>

text \<open>The payload of a frame and the two flags, or the panic or error on the way there.\<close>

definition splitFrame :: "v3_ext \<Rightarrow> bytes \<Rightarrow> bool \<Rightarrow> bool \<Rightarrow> nat \<Rightarrow> codec_err + (bool \<times> bool \<times> bytes)" where
  "splitFrame ext frame noFrameHeader verifyMagic bytesToStrip =
     (if noFrameHeader then Inr (False, False, frame)
      else if verifyMagic \<and> goslice frame 0 (int (Len_MAGIC ext)) = None then Inl CodecPanic
      else if verifyMagic \<and> GetUint BigEndian (take 2 frame) \<noteq> Magic_VAL ext mod 2 ^ 16 then Inl ErrInvalidMagic
      else case goslice frame (int (Len_MAGIC ext + Len_PACKAGE ext))
                  (int (Len_MAGIC ext + Len_PACKAGE ext + Len_FLAGS ext)) of
             Some (flags # _) \<Rightarrow>
               (case goslice frame (int bytesToStrip) (int (length frame)) of
                  None \<Rightarrow> Inl CodecPanic
                | Some payload \<Rightarrow>
                    Inr (Bit_Operations.and flags (FLAG_COMPRESSED ext) > 0,
                         Bit_Operations.and flags (FLAG_ENCRYPTED ext) > 0, payload))
           | _ \<Rightarrow> Inl CodecPanic)"

definition decodePayload :: "v3_ext \<Rightarrow> bool \<Rightarrow> bool \<Rightarrow> string \<Rightarrow> bytes \<Rightarrow> codec_err + bytes" where
  "decodePayload ext compressed encrypted encryptKey payload =
     (case (if encrypted then AesDecrypt (aesCipher ext) payload (StringToBytes encryptKey) else Inr payload) of
        Inl CryptoPanic \<Rightarrow> Inl CodecPanic
      | Inl e \<Rightarrow> Inl ErrDecrypt
      | Inr buf \<Rightarrow>
          if \<not> compressed then Inr buf
          else if snappyDecodedLen ext buf = None then Inl ErrDecompress
          else case snappyDecode ext buf of None \<Rightarrow> Inl ErrDecompress | Some out \<Rightarrow> Inr out)"

definition DecodeV3Rsp :: "v3_ext \<Rightarrow> bytes \<Rightarrow> bool \<Rightarrow> bool \<Rightarrow> nat \<Rightarrow> string \<Rightarrow> codec_err + Rsp" where
  "DecodeV3Rsp ext frame noFrameHeader verifyMagic bytesToStrip encryptKey =
     (if frame = [] then Inl ErrEmptyFrame
      else case splitFrame ext frame noFrameHeader verifyMagic bytesToStrip of
        Inl e \<Rightarrow> Inl e
      | Inr (compressed, encrypted, payload) \<Rightarrow>
          (case decodePayload ext compressed encrypted encryptKey payload of
             Inl e \<Rightarrow> Inl e
           | Inr buf \<Rightarrow>
               (case unmarshalRsp ext buf of Inl e \<Rightarrow> Inl (ErrUnmarshal e) | Inr rsp \<Rightarrow> Inr rsp)))"

section \<open>The V1 stream\<close>

lemma EncodeV1_spec:
  "\<forall>m \<in> set ms. Payload m \<noteq> [] \<Longrightarrow>
   EncodeV1 ms bb = Inr (bb @ concat (map (\<lambda>m. Payload m @ (if last (Payload m) \<noteq> newline then [newline] else [])) ms))"
  by (induction ms bb rule: EncodeV1.induct) auto

text \<open>
  C36. The V1 encoding of well-formed records is the concatenation of their payloads, and reading it
  back as a file of records gives the same records in the same order: nothing is merged, split or
  dropped on the wire. It fails (the index of the last byte is out of range) exactly when some
  payload is empty.
\<close>

theorem EncodeV1_stream:
  "(list_all wf_message ms \<longrightarrow>
      EncodeV1 ms [] = Inr (concat (map Payload ms)) \<and>
      (ms \<noteq> [] \<longrightarrow> ParseMessages (concat (map Payload ms)) = Inr ms)) \<and>
   (EncodeV1 ms bb = Inl CodecPanic \<longleftrightarrow> (\<exists>m \<in> set ms. Payload m = []))"
proof (intro conjI impI)
  assume wf: "list_all wf_message ms"
  have p: "Payload m \<noteq> [] \<and> last (Payload m) = newline" if "m \<in> set ms" for m
    using wf_payload [of m] wf that by (auto simp: list_all_iff)
  then have "map (\<lambda>m. Payload m @ (if last (Payload m) \<noteq> newline then [newline] else [])) ms = map Payload ms"
    by simp
  then show "EncodeV1 ms [] = Inr (concat (map Payload ms))"
    using EncodeV1_spec [of ms "[]"] p by (metis append_Nil)
  assume "ms \<noteq> []"
  then show "ParseMessages (concat (map Payload ms)) = Inr ms"
    using map_filter_parse_lines [OF wf] by (simp add: ParseMessages_def)
next
  show "EncodeV1 ms bb = Inl CodecPanic \<longleftrightarrow> (\<exists>m \<in> set ms. Payload m = [])"
    by (induction ms bb rule: EncodeV1.induct) auto
qed

theorem EncodeV1_stream_witness:
  "EncodeV1 [mk_message ''a'' [97, 124, 98, 10]] [] = Inr [97, 124, 98, 10]"
proof -
  have "list_all wf_message [mk_message ''a'' [97, 124, 98, 10]]"
    by (auto simp: wf_message_def mk_message_def StringToBytes_def intro!: exI [of _ "[98]"])
  then show ?thesis
    using EncodeV1_stream [of "[mk_message ''a'' [97, 124, 98, 10]]" "[]"] by (simp add: mk_message_def)
qed

section \<open>Sequence numbers\<close>

text \<open>
  The logs of a V3 request carry the names and contents of the messages in order and consecutive
  sequence numbers from the global counter, which moves on by the number of messages (modulo
  \<open>2\<^sup>64\<close>), so that two requests never share a number until the counter wraps around.
\<close>

theorem BuildV3LogReq_numbers:
  assumes "BuildV3LogReq env sq appID appName appVer network reqID token tokenType ms ls as md = Inr (h, b, sq')"
  shows "\<exists>logs. ReqBody b = Req_LogReq ls as logs \<and> ReqID b = reqID \<and>
    logs = map (\<lambda>i. \<lparr>logName = Name (ms ! i), Content = BytesToString (Payload (ms ! i)),
                     Seq = sq + word_of_nat i\<rparr>) [0..<length ms] \<and>
    sq' = sq + word_of_nat (length ms) \<and> Sig h = []"
proof -
  have "buildLogs ms sq = (map (\<lambda>i. \<lparr>logName = Name (ms ! i), Content = BytesToString (Payload (ms ! i)),
      Seq = sq + word_of_nat i\<rparr>) [0..<length ms], sq + word_of_nat (length ms))"
  proof (induction ms arbitrary: sq)
    case (Cons m ms)
    have "[0..<length (m # ms)] = 0 # map Suc [0..<length ms]"
      by (simp add: upt_conv_Cons map_Suc_upt del: upt_Suc)
    with Cons [of "sq + 1"] show ?case by (simp add: nextSeq_def add.assoc o_def)
  qed simp
  with assms show ?thesis
    by (auto simp: BuildV3LogReq_def buildHeader_def split: if_splits)
qed

theorem BuildV3LogReq_numbers_witness:
  "\<exists>h b sq'. BuildV3LogReq \<lparr>language = [], platform = [], sdkVersion = [], protoVer = [], localIP = [],
       tsNow = \<lparr>Seconds = 0, Nanos = 0\<rparr>\<rparr> 7 [] [] [] [] ''0:x'' [] [] [mk_message ''a'' [1], mk_message ''b'' [2]] [] [] []
     = Inr (h, b, sq') \<and> sq' = 9"
proof -
  let ?e = "\<lparr>language = [], platform = [], sdkVersion = [], protoVer = [], localIP = [], tsNow = \<lparr>Seconds = 0, Nanos = 0\<rparr>\<rparr>"
  obtain h b sq' where 1: "BuildV3LogReq ?e 7 [] [] [] [] ''0:x'' [] [] [mk_message ''a'' [1], mk_message ''b'' [2]] [] [] []
      = Inr (h, b, sq')"
    by (simp add: BuildV3LogReq_def nextSeq_def)
  from BuildV3LogReq_numbers [OF this] 1 show ?thesis by auto
qed

section \<open>Decoding undoes encoding\<close>

text \<open>What the codec relies on: the field widths and flag bits of the protocol package, and that
  snappy and the cipher undo themselves.\<close>

definition ext_ok :: "v3_ext \<Rightarrow> string \<Rightarrow> bool" where
  "ext_ok ext key \<longleftrightarrow>
     Len_MAGIC ext = 2 \<and> Len_PACKAGE ext = 4 \<and> Len_FLAGS ext = 1 \<and> Len_HEADER ext = 2 \<and> Len_RESERVE ext = 1 \<and>
     FLAG_COMPRESSED ext \<noteq> 0 \<and> FLAG_ENCRYPTED ext \<noteq> 0 \<and>
     Bit_Operations.and (FLAG_COMPRESSED ext) (FLAG_ENCRYPTED ext) = 0 \<and>
     (\<forall>b. snappyDecode ext (snappyEncode ext b) = Some b \<and> snappyDecodedLen ext (snappyEncode ext b) \<noteq> None) \<and>
     cipher_ok (aesCipher ext) (StringToBytes key)"

lemma length_writeFrame [simp]:
  "length (writeFrame ext le fl hb body bb) = length bb + 10 + length hb + length body"
  by (simp add: writeFrame_def Let_def)

lemma writeFrame_flags:
  "writeFrame ext le fl hb body [] =
     PutUint BigEndian 2 (Magic_VAL ext) @
     PutUint (if le then LittleEndian else BigEndian) 4 (frameHeaderLen ext + length hb + length body) @
     fl # PutUint (if le then LittleEndian else BigEndian) 2 (length hb) @ 0 # hb @ body"
  by (simp add: writeFrame_def Let_def)

lemma splitFrame_writeFrame:
  assumes "ext_ok ext key"
  shows "splitFrame ext (writeFrame ext le fl [] body []) False verify 10 =
    Inr (Bit_Operations.and fl (FLAG_COMPRESSED ext) > 0, Bit_Operations.and fl (FLAG_ENCRYPTED ext) > 0, body)"
proof -
  let ?f = "writeFrame ext le fl [] body []"
  have 6: "drop 6 ?f = fl # PutUint (if le then LittleEndian else BigEndian) 2 0 @ 0 # body"
    and 10: "drop 10 ?f = body" and 2: "take 2 ?f = PutUint BigEndian 2 (Magic_VAL ext)"
    by (simp_all add: writeFrame_flags)
  have "GetUint BigEndian (take 2 ?f) = Magic_VAL ext mod 2 ^ 16"
    unfolding 2 by (simp add: bo.get_put_mod)
  moreover have "goslice ?f 6 7 = Some [fl]" by (simp add: goslice_def 6)
  moreover have "goslice ?f 10 (int (length ?f)) = Some body" by (simp add: goslice_def 10)
  moreover have "goslice ?f 0 2 \<noteq> None" by (simp add: goslice_def)
  ultimately show ?thesis using assms by (simp add: splitFrame_def ext_ok_def)
qed


lemma flag_bits:
  fixes c e :: byte
  assumes "Bit_Operations.and c e = 0" "c \<noteq> 0" "e \<noteq> 0"
  shows "Bit_Operations.and (Bit_Operations.or (if a then c else 0) (if b then e else 0)) c > 0 \<longleftrightarrow> a"
    "Bit_Operations.and (Bit_Operations.or (if a then c else 0) (if b then e else 0)) e > 0 \<longleftrightarrow> b"
  using assms by (auto simp: word_gt_0 bit.conj_disj_distrib2 and.commute)

text \<open>
  C21. Decoding a frame gives back exactly the body bytes that were encoded: whatever combination of
  compression and encryption is switched on, in either byte order, with or without the frame
  header (which must be present if either is on), the decoder finds the two flags, decrypts
  before it decompresses, and hands the original marshalled bytes to the protobuf decoder.
\<close>

theorem v3_frame_roundtrip:
  assumes "ext_ok ext key" and "marshalReq ext b = Inr bytes" and "bytes \<noteq> []"
    and "EncodeV3Req ext None (Some b) nofh compress encrypt False False key [] le = Inr frame"
    and "nofh \<Longrightarrow> \<not> compress \<and> \<not> encrypt"
  shows "DecodeV3Rsp ext frame nofh verify 10 key =
    (case unmarshalRsp ext bytes of Inl e \<Rightarrow> Inl (ErrUnmarshal e) | Inr rsp \<Rightarrow> Inr rsp)"
proof (cases nofh)
  case True
  then have "frame = bytes" using assms(2, 4, 5) by (simp add: EncodeV3Req_def)
  then show ?thesis using True assms(3)
    by (simp add: DecodeV3Rsp_def splitFrame_def decodePayload_def)
next
  case False
  let ?c = "compress \<and> length bytes > 512"
  let ?z = "if ?c then snappyEncode ext bytes else bytes"
  let ?fc = "FLAG_COMPRESSED ext" and ?fe = "FLAG_ENCRYPTED ext"
  obtain fl body where e: "encryptIf ext encrypt ?fe key (compressIf ext compress ?fc (0, bytes)) = Inr (fl, body)"
    and frame: "frame = writeFrame ext le fl [] body []"
    using assms(2, 4) False
    by (auto simp: EncodeV3Req_def encodeHeader_def split: sum.splits prod.splits)
  have fl: "fl = Bit_Operations.or (if ?c then ?fc else 0) (if encrypt then ?fe else 0)"
    using e by (auto simp: encryptIf_def compressIf_def split: sum.splits if_splits)
  have body: "(if encrypt then AesDecrypt (aesCipher ext) body (StringToBytes key) else Inr body) = Inr ?z"
  proof (cases encrypt)
    case True
    then have enc: "AesEncrypt (aesCipher ext) ?z (StringToBytes key) = Inr body"
      using e by (auto simp: encryptIf_def compressIf_def split: sum.splits if_splits)
    then show ?thesis
      using True aes_decrypts [of "aesCipher ext" "StringToBytes key" ?z body] assms(1) by (simp add: ext_ok_def)
  next
    case False
    then show ?thesis using e by (auto simp: encryptIf_def compressIf_def split: if_splits)
  qed
  have bits: "Bit_Operations.and fl ?fc > 0 \<longleftrightarrow> ?c" "Bit_Operations.and fl ?fe > 0 \<longleftrightarrow> encrypt"
    using assms(1) unfolding fl ext_ok_def by (metis flag_bits)+
  have "splitFrame ext frame nofh verify 10 = Inr (?c, encrypt, body)"
    using splitFrame_writeFrame [OF assms(1)] False frame bits by simp
  moreover have "decodePayload ext ?c encrypt key body = Inr bytes"
    using body assms(1) by (auto simp: decodePayload_def ext_ok_def)
  moreover have "frame \<noteq> []" using frame by (simp add: writeFrame_flags)
  ultimately show ?thesis by (simp add: DecodeV3Rsp_def)
qed

text \<open>Concrete stand-ins for the outside code: one byte in front instead of compression, the exclusive-or
  cipher, and requests marshalled to their identifier.\<close>

definition sample_ext :: v3_ext where
  "sample_ext = \<lparr>Len_MAGIC = 2, Len_PACKAGE = 4, Len_FLAGS = 1, Len_HEADER = 2, Len_RESERVE = 1, Magic_VAL = 4660,
     FLAG_COMPRESSED = 1, FLAG_ENCRYPTED = 2, FLAG_COMPRESSED_HEADER = 4, FLAG_ENCRYPTED_HEADER = 8,
     marshalReq = (\<lambda>b. Inr (StringToBytes (ReqID b))), marshalHeader = (\<lambda>h. Inr (StringToBytes (hAppID h))),
     unmarshalRsp = (\<lambda>bs. Inr \<lparr>rspHeader = Some \<lparr>rspReqID = BytesToString bs, Code = 0, Msg = []\<rparr>, rspBody = Rsp_LogRsp []\<rparr>),
     snappyEncode = (\<lambda>b. 1 # b), snappyDecodedLen = (\<lambda>b. Some (length b)), snappyDecode = (\<lambda>b. Some (tl b)),
     md5Sum = (\<lambda>b. b), aesCipher = xor_cipher\<rparr>"

definition sample_key :: string where "sample_key = ''0123456789ABCDEF''"

lemma sample_ext_ok: "ext_ok sample_ext sample_key"
  using xor_cipher_ok [of "StringToBytes sample_key"]
  by (simp add: ext_ok_def sample_ext_def sample_key_def valid_key_len_def)

theorem v3_frame_roundtrip_witness:
  "\<exists>frame. EncodeV3Req sample_ext None
       (Some \<lparr>ReqID = ''3:u'', AppMetaData = [], ReqBody = Req_LogReq [] [] []\<rparr>) False True True False False sample_key [] True
     = Inr frame \<and>
   DecodeV3Rsp sample_ext frame False True 10 sample_key =
     Inr \<lparr>rspHeader = Some \<lparr>rspReqID = ''3:u'', Code = 0, Msg = []\<rparr>, rspBody = Rsp_LogRsp []\<rparr>"
proof -
  let ?b = "\<lparr>ReqID = ''3:u'', AppMetaData = [], ReqBody = Req_LogReq [] [] []\<rparr>"
  have m: "marshalReq sample_ext ?b = Inr (StringToBytes ''3:u'')" by (simp add: sample_ext_def)
  obtain frame where f: "EncodeV3Req sample_ext None (Some ?b) False True True False False sample_key [] True = Inr frame"
    using m by (simp add: EncodeV3Req_def encodeHeader_def encryptIf_def compressIf_def AesEncrypt_def
        sample_key_def valid_key_len_def)
  have "DecodeV3Rsp sample_ext frame False True 10 sample_key =
      (case unmarshalRsp sample_ext (StringToBytes ''3:u'') of Inl e \<Rightarrow> Inl (ErrUnmarshal e) | Inr rsp \<Rightarrow> Inr rsp)"
    by (rule v3_frame_roundtrip [OF sample_ext_ok m _ f]) (simp_all add: StringToBytes_def)
  then show ?thesis using f by (simp add: sample_ext_def)
qed

section \<open>Malformed responses\<close>

lemma goslice_None: "int (length xs) < lo \<Longrightarrow> goslice xs lo hi = None"
  by (simp add: goslice_def)

lemma short_frame_panics:
  assumes "ext_ok ext key" "frame \<noteq> []" "length frame < 10"
  shows "DecodeV3Rsp ext frame False False 10 key' = Inl CodecPanic"
  using assms goslice_None [of frame 10 "int (length frame)"]
  by (auto simp: DecodeV3Rsp_def splitFrame_def split: option.splits list.splits)

end
