(* ===== verification/Options.thy ===== *)
theory Options
  imports Crypto
begin

text \<open>
  The client's configuration: the record of \<^verbatim>\<open>tglog/options.go\<close> with its validation, and the option
  functions of \<^verbatim>\<open>tglog/options_basic.go\<close> and \<^verbatim>\<open>tglog/options_v3.go\<close>. The buffer pools, the logger
  and the metrics registry are opaque handles, \<open>None\<close> when nil. Go mutates the options in place and
  returns an error; a caller that gets the error drops the options, so the model returns either. The field
  \<^verbatim>\<open>Sign\<close> is called \<open>SignReq\<close>.
\<close>

section \<open>The record\<close>

record Options =
  Network :: string
  Host :: string
  Port :: int
  UpdateInterval :: duration
  WorkerNum :: int
  BatchingMaxPublishDelay :: duration
  BatchingMaxMessages :: int
  BatchingMaxSize :: int
  MaxPendingMessages :: int
  BlockIfQueueIsFull :: bool
  ConnTimeout :: duration
  WriteBufferSize :: int
  ReadBufferSize :: int
  SocketSendBufferSize :: int
  SocketRecvBufferSize :: int
  BufferPoolSize :: int
  BytePoolSize :: int
  BytePoolWidth :: int
  BufferPool :: "nat option"
  BytePool :: "nat option"
  Logger :: "nat option"
  MetricsName :: string
  MetricsRegistry :: "nat option"
  SendTimeout :: duration
  MaxRetries :: int
  MaxConnLifetime :: duration
  isV1 :: bool
  isV3 :: bool
  isUDP :: bool
  isTCP :: bool
  AppID :: string
  AppName :: string
  AppVer :: string
  Compress :: bool
  Encrypt :: bool
  EncryptKey :: string
  NoFrameHeader :: bool
  LittleEndian :: bool
  MaxFrameLen :: int
  LenFieldOffset :: int
  LenFieldLength :: int
  LenAdjustment :: int
  FrameBytesToStrip :: int
  PayloadBytesToTrip :: int
  Token :: string
  TokenType :: string
  Auth :: bool
  SignReq :: bool

definition maxUDPReqSizeV1 :: int where "maxUDPReqSizeV1 = 65507"
definition maxTCPReqSizeV1 :: int where "maxTCPReqSizeV1 = 512 * 1024"
definition maxUDPReqSizeV3 :: int where "maxUDPReqSizeV3 = 64512"

lemmas req_sizes = maxUDPReqSizeV1_def maxTCPReqSizeV1_def maxUDPReqSizeV3_def

text \<open>The zero value of the struct.\<close>

definition zeroOptions :: Options where
  "zeroOptions = \<lparr>Network = [], Host = [], Port = 0, UpdateInterval = 0, WorkerNum = 0, BatchingMaxPublishDelay = 0, BatchingMaxMessages = 0, BatchingMaxSize = 0, MaxPendingMessages = 0, BlockIfQueueIsFull = False, ConnTimeout = 0, WriteBufferSize = 0, ReadBufferSize = 0, SocketSendBufferSize = 0, SocketRecvBufferSize = 0, BufferPoolSize = 0, BytePoolSize = 0, BytePoolWidth = 0, BufferPool = None, BytePool = None, Logger = None, MetricsName = [], MetricsRegistry = None, SendTimeout = 0, MaxRetries = 0, MaxConnLifetime = 0, isV1 = False, isV3 = False, isUDP = False, isTCP = False, AppID = [], AppName = [], AppVer = [], Compress = False, Encrypt = False, EncryptKey = [], NoFrameHeader = False, LittleEndian = False, MaxFrameLen = 0, LenFieldOffset = 0, LenFieldLength = 0, LenAdjustment = 0, FrameBytesToStrip = 0, PayloadBytesToTrip = 0, Token = [], TokenType = [], Auth = False, SignReq = False\<rparr>"

datatype opt_err =
    ErrInvalidHost
  | ErrInvalidPort
  | ErrInvalidNetwork
  | ErrInvalidProtoVer
  | ErrV3TCPNoFrameHeader
  | ErrV3NoFrameHeader
  | ErrInvalidEncryptKey
  | ErrKey crypto_err

definition is_udp :: "string \<Rightarrow> bool" where
  "is_udp network \<longleftrightarrow> network = ''udp'' \<or> network = ''udp4'' \<or> network = ''udp6''"

definition is_tcp :: "string \<Rightarrow> bool" where
  "is_tcp network \<longleftrightarrow> network = ''tcp'' \<or> network = ''tcp4'' \<or> network = ''tcp6''"

section \<open>Option functions\<close>

definition WithNetwork :: "string \<Rightarrow> Options \<Rightarrow> Options" where
  "WithNetwork x o' =
     (let n = ToLower x
      in if n \<noteq> ''udp'' \<and> n \<noteq> ''tcp'' \<and> n \<noteq> ''udp4'' \<and> n \<noteq> ''tcp4'' \<and> n \<noteq> ''udp6'' \<and> n \<noteq> ''tcp6'' then o'
         else o'\<lparr>Network := n\<rparr>)"

definition WithHost :: "string \<Rightarrow> Options \<Rightarrow> Options" where
  "WithHost x o' = o'\<lparr>Host := x\<rparr>"

definition WithPort :: "int \<Rightarrow> Options \<Rightarrow> Options" where
  "WithPort x o' = (if x < 0 \<or> x > 65535 then o' else o'\<lparr>Port := x\<rparr>)"

definition WithUpdateInterval :: "duration \<Rightarrow> Options \<Rightarrow> Options" where
  "WithUpdateInterval x o' = o'\<lparr>UpdateInterval := x\<rparr>"

definition WithWorkerNum :: "int \<Rightarrow> Options \<Rightarrow> Options" where
  "WithWorkerNum x o' = (if x \<le> 0 then o' else o'\<lparr>WorkerNum := x\<rparr>)"

definition WithBatchingMaxPublishDelay :: "duration \<Rightarrow> Options \<Rightarrow> Options" where
  "WithBatchingMaxPublishDelay x o' = (if x \<le> 0 then o' else o'\<lparr>BatchingMaxPublishDelay := x\<rparr>)"

definition WithBatchingMaxMessages :: "int \<Rightarrow> Options \<Rightarrow> Options" where
  "WithBatchingMaxMessages x o' = (if x \<le> 0 then o' else o'\<lparr>BatchingMaxMessages := x\<rparr>)"

definition WithBatchingMaxSize :: "int \<Rightarrow> Options \<Rightarrow> Options" where
  "WithBatchingMaxSize x o' = (if x \<le> 0 then o' else o'\<lparr>BatchingMaxSize := x\<rparr>)"

definition WithMaxPendingMessages :: "int \<Rightarrow> Options \<Rightarrow> Options" where
  "WithMaxPendingMessages x o' = (if x \<le> 0 then o' else o'\<lparr>MaxPendingMessages := x\<rparr>)"

definition WithBlockIfQueueIsFull :: "bool \<Rightarrow> Options \<Rightarrow> Options" where
  "WithBlockIfQueueIsFull x o' = o'\<lparr>BlockIfQueueIsFull := x\<rparr>"

definition WithConnTimeout :: "duration \<Rightarrow> Options \<Rightarrow> Options" where
  "WithConnTimeout x o' = (if x \<le> 0 then o' else o'\<lparr>ConnTimeout := x\<rparr>)"

definition WithWriteBufferSize :: "int \<Rightarrow> Options \<Rightarrow> Options" where
  "WithWriteBufferSize x o' = (if x \<le> 0 then o' else o'\<lparr>WriteBufferSize := x\<rparr>)"

definition WithReadBufferSize :: "int \<Rightarrow> Options \<Rightarrow> Options" where
  "WithReadBufferSize x o' = (if x \<le> 0 then o' else o'\<lparr>ReadBufferSize := x\<rparr>)"

definition WithSocketSendBufferSize :: "int \<Rightarrow> Options \<Rightarrow> Options" where
  "WithSocketSendBufferSize x o' = (if x \<le> 0 then o' else o'\<lparr>SocketSendBufferSize := x\<rparr>)"

definition WithSocketRecvBufferSize :: "int \<Rightarrow> Options \<Rightarrow> Options" where
  "WithSocketRecvBufferSize x o' = (if x \<le> 0 then o' else o'\<lparr>SocketRecvBufferSize := x\<rparr>)"

definition WithBufferPool :: "nat option \<Rightarrow> Options \<Rightarrow> Options" where
  "WithBufferPool x o' = o'\<lparr>BufferPool := x\<rparr>"

definition WithBytePool :: "nat option \<Rightarrow> Options \<Rightarrow> Options" where
  "WithBytePool x o' = o'\<lparr>BytePool := x\<rparr>"

definition WithBufferPoolSize :: "int \<Rightarrow> Options \<Rightarrow> Options" where
  "WithBufferPoolSize x o' = (if x \<le> 0 then o' else o'\<lparr>BufferPoolSize := x\<rparr>)"

definition WithBytePoolSize :: "int \<Rightarrow> Options \<Rightarrow> Options" where
  "WithBytePoolSize x o' = (if x \<le> 0 then o' else o'\<lparr>BytePoolSize := x\<rparr>)"

definition WithBytePoolWidth :: "int \<Rightarrow> Options \<Rightarrow> Options" where
  "WithBytePoolWidth x o' = (if x \<le> 0 then o' else o'\<lparr>BytePoolWidth := x\<rparr>)"

definition WithLogger :: "nat option \<Rightarrow> Options \<Rightarrow> Options" where
  "WithLogger x o' = (if x = None then o' else o'\<lparr>Logger := x\<rparr>)"

definition WithMetricsName :: "string \<Rightarrow> Options \<Rightarrow> Options" where
  "WithMetricsName x o' = (if x = [] then o' else o'\<lparr>MetricsName := x\<rparr>)"

definition WithMetricsRegistry :: "nat option \<Rightarrow> Options \<Rightarrow> Options" where
  "WithMetricsRegistry x o' = (if x = None then o' else o'\<lparr>MetricsRegistry := x\<rparr>)"

definition WithMaxConnLifetime :: "duration \<Rightarrow> Options \<Rightarrow> Options" where
  "WithMaxConnLifetime x o' = o'\<lparr>MaxConnLifetime := x\<rparr>"

definition WithAppID :: "string \<Rightarrow> Options \<Rightarrow> Options" where
  "WithAppID x o' = (if x = [] then o' else o'\<lparr>AppID := x\<rparr>)"

definition WithAppName :: "string \<Rightarrow> Options \<Rightarrow> Options" where
  "WithAppName x o' = (if x = [] then o' else o'\<lparr>AppName := x\<rparr>)"

definition WithAppVer :: "string \<Rightarrow> Options \<Rightarrow> Options" where
  "WithAppVer x o' = (if x = [] then o' else o'\<lparr>AppVer := x\<rparr>)"

definition WithSendTimeout :: "duration \<Rightarrow> Options \<Rightarrow> Options" where
  "WithSendTimeout x o' = (if x \<le> 0 then o' else o'\<lparr>SendTimeout := x\<rparr>)"

definition WithMaxRetries :: "int \<Rightarrow> Options \<Rightarrow> Options" where
  "WithMaxRetries x o' = (if x < 0 then o' else o'\<lparr>MaxRetries := x\<rparr>)"

definition WithCompress :: "bool \<Rightarrow> Options \<Rightarrow> Options" where
  "WithCompress x o' = o'\<lparr>Compress := x\<rparr>"

definition WithEncrypt :: "bool \<Rightarrow> Options \<Rightarrow> Options" where
  "WithEncrypt x o' = o'\<lparr>Encrypt := x\<rparr>"

definition WithEncryptKey :: "string \<Rightarrow> Options \<Rightarrow> Options" where
  "WithEncryptKey x o' = (if x = [] then o' else o'\<lparr>EncryptKey := x\<rparr>)"

definition WithNoFrameHeader :: "bool \<Rightarrow> Options \<Rightarrow> Options" where
  "WithNoFrameHeader x o' = o'\<lparr>NoFrameHeader := x\<rparr>"

definition WithLittleEndian :: "bool \<Rightarrow> Options \<Rightarrow> Options" where
  "WithLittleEndian x o' = o'\<lparr>LittleEndian := x\<rparr>"

definition WithMaxFrameLen :: "int \<Rightarrow> Options \<Rightarrow> Options" where
  "WithMaxFrameLen x o' = (if x \<le> 0 then o' else o'\<lparr>MaxFrameLen := x\<rparr>)"

definition WithLenFieldOffset :: "int \<Rightarrow> Options \<Rightarrow> Options" where
  "WithLenFieldOffset x o' = (if x < 0 then o' else o'\<lparr>LenFieldOffset := x\<rparr>)"

definition WithLenFieldLength :: "int \<Rightarrow> Options \<Rightarrow> Options" where
  "WithLenFieldLength x o' = (if x < 0 then o' else o'\<lparr>LenFieldLength := x\<rparr>)"

definition WithLenAdjustment :: "int \<Rightarrow> Options \<Rightarrow> Options" where
  "WithLenAdjustment x o' = (if x < 0 then o' else o'\<lparr>LenAdjustment := x\<rparr>)"

definition WithFrameBytesToStrip :: "int \<Rightarrow> Options \<Rightarrow> Options" where
  "WithFrameBytesToStrip x o' = (if x < 0 then o' else o'\<lparr>FrameBytesToStrip := x\<rparr>)"

definition WithPayloadBytesToTrip :: "int \<Rightarrow> Options \<Rightarrow> Options" where
  "WithPayloadBytesToTrip x o' = (if x < 0 then o' else o'\<lparr>PayloadBytesToTrip := x\<rparr>)"

definition WithToken :: "string \<Rightarrow> Options \<Rightarrow> Options" where
  "WithToken x o' = (if x = [] then o' else o'\<lparr>Token := x\<rparr>)"

definition WithTokenType :: "string \<Rightarrow> Options \<Rightarrow> Options" where
  "WithTokenType x o' = (if x = [] then o' else o'\<lparr>TokenType := x\<rparr>)"

definition WithSign :: "bool \<Rightarrow> Options \<Rightarrow> Options" where
  "WithSign x o' = o'\<lparr>SignReq := x\<rparr>"

definition WithAuth :: "bool \<Rightarrow> Options \<Rightarrow> Options" where
  "WithAuth x o' = o'\<lparr>Auth := x\<rparr>"

section \<open>Validation\<close>

definition dflt :: "int \<Rightarrow> int \<Rightarrow> int" where
  "dflt d x = (if x \<le> 0 then d else x)"

definition dflt0 :: "int \<Rightarrow> int \<Rightarrow> int" where
  "dflt0 d x = (if x = 0 then d else x)"

definition dflt_handle :: "nat \<Rightarrow> nat option \<Rightarrow> nat option" where
  "dflt_handle d x = (if x = None then Some d else x)"

text \<open>The handles made for a nil pool, logger or registry are new objects; which ones is of no
  consequence to the model.\<close>

definition setDefaults :: "Options \<Rightarrow> Options" where
  "setDefaults o' =
     (let o1 = o'\<lparr>BatchingMaxPublishDelay := dflt0 (10 * millisecond) (BatchingMaxPublishDelay o'),
                  BatchingMaxMessages := dflt 50 (BatchingMaxMessages o'),
                  BatchingMaxSize := dflt (40 * 1024) (BatchingMaxSize o')\<rparr>;
          o2 = o1\<lparr>BatchingMaxSize :=
                     (if BatchingMaxSize o1 > maxUDPReqSizeV1 \<and> isUDP o1 then maxUDPReqSizeV1
                      else BatchingMaxSize o1)\<rparr>;
          o3 = o2\<lparr>BatchingMaxSize :=
                     (if BatchingMaxSize o2 > maxTCPReqSizeV1 \<and> isTCP o2 then maxTCPReqSizeV1
                      else BatchingMaxSize o2)\<rparr>
      in o3\<lparr>MaxPendingMessages := dflt 204800 (MaxPendingMessages o3),
            ConnTimeout := dflt (3 * second) (ConnTimeout o3),
            WriteBufferSize := dflt (8 * 1024 * 1024) (WriteBufferSize o3),
            ReadBufferSize := dflt (1024 * 1024) (ReadBufferSize o3),
            SocketSendBufferSize := dflt (8 * 1024 * 1024) (SocketSendBufferSize o3),
            SocketRecvBufferSize := dflt (1024 * 1024) (SocketRecvBufferSize o3),
            BufferPoolSize := dflt 409600 (BufferPoolSize o3),
            BytePoolSize := dflt 409600 (BytePoolSize o3),
            BytePoolWidth := dflt (max 4096 (BatchingMaxSize o3)) (BytePoolWidth o3),
            BufferPool := dflt_handle 0 (BufferPool o3),
            BytePool := dflt_handle 1 (BytePool o3),
            Logger := dflt_handle 2 (Logger o3),
            MetricsName := (if MetricsName o3 = [] then ''tglog-go'' else MetricsName o3),
            MetricsRegistry := dflt_handle 3 (MetricsRegistry o3),
            SendTimeout := dflt0 (30 * second) (SendTimeout o3),
            MaxRetries := dflt 3 (MaxRetries o3),
            MaxConnLifetime := dflt0 (5 * minute) (MaxConnLifetime o3)\<rparr>)"

definition ValidateAndSetDefault :: "Options \<Rightarrow> opt_err + Options" where
  "ValidateAndSetDefault o' =
     (let o1 = o'\<lparr>Network := (if Network o' = [] then ''udp'' else Network o')\<rparr>
      in if Host o1 = [] then Inl ErrInvalidHost
         else if Port o1 \<le> 0 \<or> Port o1 > 65535 then Inl ErrInvalidPort
         else let o2 = o1\<lparr>UpdateInterval := dflt0 minute (UpdateInterval o1),
                          WorkerNum := dflt 8 (WorkerNum o1),
                          isUDP := is_udp (Network o1), isTCP := is_tcp (Network o1)\<rparr>
              in if isUDP o2 = isTCP o2 then Inl ErrInvalidNetwork
                 else if isV1 o2 = isV3 o2 then Inl ErrInvalidProtoVer
                 else let o3 = setDefaults o2
                      in if NoFrameHeader o3 \<and> isV3 o3 \<and> isTCP o3 then Inl ErrV3TCPNoFrameHeader
                         else if NoFrameHeader o3 \<and> isV3 o3 \<and> (Encrypt o3 \<or> Compress o3) then Inl ErrV3NoFrameHeader
                         else if isV3 o3 \<and> (Encrypt o3 \<or> Auth o3 \<or> SignReq o3) \<and> EncryptKey o3 = []
                              then Inl ErrInvalidEncryptKey
                         else if isV3 o3 \<and> EncryptKey o3 \<noteq> []
                              then (case ParseKey (EncryptKey o3) of
                                      Inl e \<Rightarrow> Inl (ErrKey e)
                                    | Inr key \<Rightarrow>
                                        Inr (o3\<lparr>EncryptKey := BytesToString key,
                                                MaxFrameLen := dflt (64 * 1024) (MaxFrameLen o3)\<rparr>))
                         else Inr (o3\<lparr>MaxFrameLen := dflt (64 * 1024) (MaxFrameLen o3)\<rparr>))"

definition v1Defaults :: Options where
  "v1Defaults = zeroOptions\<lparr>Network := ''udp'', isV1 := True, isUDP := True\<rparr>"

definition v3Defaults :: Options where
  "v3Defaults = zeroOptions\<lparr>Network := ''udp'', isV3 := True, isUDP := True, MaxRetries := 2,
     Compress := True, MaxFrameLen := 64 * 1024, LenFieldOffset := 2, LenFieldLength := 4,
     LenAdjustment := -6, FrameBytesToStrip := 0, PayloadBytesToTrip := 10\<rparr>"

definition buildOptions :: "Options \<Rightarrow> (Options \<Rightarrow> Options) list \<Rightarrow> opt_err + Options" where
  "buildOptions base opts = ValidateAndSetDefault (fold (\<lambda>f o'. f o') opts base)"

section \<open>What a validated configuration satisfies\<close>

definition options_ok :: "Options \<Rightarrow> bool" where
  "options_ok o' \<longleftrightarrow>
     Host o' \<noteq> [] \<and> 0 < Port o' \<and> Port o' \<le> 65535 \<and> 0 < WorkerNum o' \<and>
     isUDP o' = is_udp (Network o') \<and> isTCP o' = is_tcp (Network o') \<and>
     isUDP o' \<noteq> isTCP o' \<and> isV1 o' \<noteq> isV3 o' \<and>
     0 < BatchingMaxMessages o' \<and> 0 < BatchingMaxSize o' \<and>
     (isUDP o' \<longrightarrow> BatchingMaxSize o' \<le> maxUDPReqSizeV1) \<and>
     (isTCP o' \<longrightarrow> BatchingMaxSize o' \<le> maxTCPReqSizeV1) \<and>
     0 < MaxPendingMessages o' \<and> 0 < ConnTimeout o' \<and> 0 < MaxRetries o' \<and> 0 < MaxFrameLen o' \<and>
     0 < BytePoolWidth o' \<and> BufferPool o' \<noteq> None \<and> BytePool o' \<noteq> None \<and> Logger o' \<noteq> None \<and>
     MetricsRegistry o' \<noteq> None \<and> UpdateInterval o' \<noteq> 0 \<and> SendTimeout o' \<noteq> 0 \<and>
     BatchingMaxPublishDelay o' \<noteq> 0 \<and>
     (NoFrameHeader o' \<and> isV3 o' \<longrightarrow> isUDP o' \<and> \<not> Encrypt o' \<and> \<not> Compress o')"

lemma dflt_pos: "0 < d \<Longrightarrow> 0 < dflt d x"
  by (simp add: dflt_def)

lemma dflt0_nz: "d \<noteq> 0 \<Longrightarrow> dflt0 d x \<noteq> 0"
  by (simp add: dflt0_def)

lemma dflt_handle_given [simp]: "dflt_handle d x \<noteq> None"
  by (simp add: dflt_handle_def)

lemma setDefaults_frame [simp]:
  "Host (setDefaults o') = Host o'" "Port (setDefaults o') = Port o'" "Network (setDefaults o') = Network o'"
  "WorkerNum (setDefaults o') = WorkerNum o'" "UpdateInterval (setDefaults o') = UpdateInterval o'"
  "isUDP (setDefaults o') = isUDP o'" "isTCP (setDefaults o') = isTCP o'"
  "isV1 (setDefaults o') = isV1 o'" "isV3 (setDefaults o') = isV3 o'"
  "NoFrameHeader (setDefaults o') = NoFrameHeader o'" "Encrypt (setDefaults o') = Encrypt o'"
  "Compress (setDefaults o') = Compress o'" "EncryptKey (setDefaults o') = EncryptKey o'"
  "Auth (setDefaults o') = Auth o'" "SignReq (setDefaults o') = SignReq o'"
  "MaxFrameLen (setDefaults o') = MaxFrameLen o'"
  by (simp_all add: setDefaults_def Let_def)

lemma setDefaults_sets:
  "0 < BatchingMaxMessages (setDefaults o')" "0 < BatchingMaxSize (setDefaults o')"
  "isUDP o' \<Longrightarrow> BatchingMaxSize (setDefaults o') \<le> maxUDPReqSizeV1"
  "isTCP o' \<Longrightarrow> BatchingMaxSize (setDefaults o') \<le> maxTCPReqSizeV1"
  "0 < MaxPendingMessages (setDefaults o')" "0 < ConnTimeout (setDefaults o')"
  "0 < MaxRetries (setDefaults o')" "0 < BytePoolWidth (setDefaults o')"
  "BufferPool (setDefaults o') \<noteq> None" "BytePool (setDefaults o') \<noteq> None"
  "Logger (setDefaults o') \<noteq> None" "MetricsRegistry (setDefaults o') \<noteq> None"
  "SendTimeout (setDefaults o') \<noteq> 0" "BatchingMaxPublishDelay (setDefaults o') \<noteq> 0"
  by (simp_all add: setDefaults_def Let_def dflt_pos dflt0_nz req_sizes)

text \<open>What the options look like before the checks of the second half, and what is returned.\<close>

definition prepared :: "Options \<Rightarrow> Options" where
  "prepared o' =
     (let o1 = o'\<lparr>Network := (if Network o' = [] then ''udp'' else Network o')\<rparr>
      in o1\<lparr>UpdateInterval := dflt0 minute (UpdateInterval o1), WorkerNum := dflt 8 (WorkerNum o1),
            isUDP := is_udp (Network o1), isTCP := is_tcp (Network o1)\<rparr>)"

lemma validated_form:
  assumes "ValidateAndSetDefault o' = Inr o''"
  shows "\<exists>k. o'' = (setDefaults (prepared o'))\<lparr>EncryptKey := k,
    MaxFrameLen := dflt (64 * 1024) (MaxFrameLen (setDefaults (prepared o')))\<rparr>"
proof (cases "isV3 (setDefaults (prepared o')) \<and> EncryptKey (setDefaults (prepared o')) \<noteq> []")
  case True
  then show ?thesis using assms unfolding ValidateAndSetDefault_def prepared_def Let_def
    by (auto split: if_splits sum.splits)
next
  case False
  then have "o'' = (setDefaults (prepared o'))\<lparr>MaxFrameLen := dflt (64 * 1024) (MaxFrameLen (setDefaults (prepared o')))\<rparr>"
    using assms unfolding ValidateAndSetDefault_def prepared_def Let_def by (auto split: if_splits)
  then show ?thesis by (intro exI [of _ "EncryptKey (setDefaults (prepared o'))"]) simp
qed

lemma validated_checks:
  assumes "ValidateAndSetDefault o' = Inr o''"
  shows "Host o' \<noteq> []" "0 < Port o'" "Port o' \<le> 65535"
    "isUDP (prepared o') \<noteq> isTCP (prepared o')" "isV1 o' \<noteq> isV3 o'"
    "\<not> (NoFrameHeader o' \<and> isV3 o' \<and> isTCP (prepared o'))"
    "\<not> (NoFrameHeader o' \<and> isV3 o' \<and> (Encrypt o' \<or> Compress o'))"
  using assms unfolding ValidateAndSetDefault_def prepared_def Let_def by (auto split: if_splits)

lemma prepared_fields [simp]:
  "Host (prepared o') = Host o'" "Port (prepared o') = Port o'" "isV1 (prepared o') = isV1 o'"
  "isV3 (prepared o') = isV3 o'" "NoFrameHeader (prepared o') = NoFrameHeader o'"
  "Encrypt (prepared o') = Encrypt o'" "Compress (prepared o') = Compress o'"
  "WorkerNum (prepared o') = dflt 8 (WorkerNum o')" "UpdateInterval (prepared o') = dflt0 minute (UpdateInterval o')"
  "isUDP (prepared o') = is_udp (Network (prepared o'))" "isTCP (prepared o') = is_tcp (Network (prepared o'))"
  "MaxRetries (prepared o') = MaxRetries o'"
  by (simp_all add: prepared_def Let_def)

lemma validate_ok:
  assumes "ValidateAndSetDefault o' = Inr o''"
  shows "options_ok o''"
proof -
  obtain k where k: "o'' = (setDefaults (prepared o'))\<lparr>EncryptKey := k,
      MaxFrameLen := dflt (64 * 1024) (MaxFrameLen (setDefaults (prepared o')))\<rparr>"
    using validated_form [OF assms] by blast
  show ?thesis
    unfolding k options_ok_def using validated_checks [OF assms] setDefaults_sets [of "prepared o'"]
    by (simp add: dflt_pos dflt0_nz)
qed

text \<open>
  A configuration that \<^verbatim>\<open>ValidateAndSetDefault\<close> accepts can be used: the network is exactly one
  of UDP and TCP, the protocol exactly one of V1 and V3, the port is a port, there is at least one
  worker, every size, count and timeout the code divides by or allocates with is positive, the
  batch size fits the transport, the pools, the logger and the registry exist, and a V3 configuration
  without a frame header is UDP without compression and encryption.
\<close>

theorem validated_options_ok:
  assumes "ValidateAndSetDefault o' = Inr o''"
  shows "options_ok o''"
  using assms by (rule validate_ok)

definition sample_opts :: "(Options \<Rightarrow> Options) list" where
  "sample_opts = [WithHost ''tglog.example'', WithPort 20001, WithNetwork ''TCP'']"

lemma sample_build:
  "\<exists>o''. buildOptions v3Defaults sample_opts = Inr o'' \<and> isTCP o'' \<and> MaxRetries o'' = 2"
  by (simp add: buildOptions_def sample_opts_def v3Defaults_def zeroOptions_def WithHost_def WithPort_def
      WithNetwork_def ToLower_def lower_char_def char_of_def bit_0 ValidateAndSetDefault_def is_udp_def is_tcp_def
      setDefaults_def dflt_def Let_def)

theorem validated_options_ok_witness:
  "\<exists>o''. buildOptions v3Defaults sample_opts = Inr o'' \<and> options_ok o'' \<and> isTCP o''"
  using sample_build validated_options_ok unfolding buildOptions_def by blast

text \<open>
  The number of retries cannot be set to zero: \<^verbatim>\<open>WithMaxRetries(0)\<close> is accepted by the option
  function and then replaced by three when the options are validated, whatever else is configured, and
  a configuration that validates never has zero retries.
\<close>

theorem max_retries_zero_becomes_three:
  assumes "ValidateAndSetDefault (WithMaxRetries 0 o') = Inr o''"
  shows "MaxRetries (WithMaxRetries 0 o') = 0 \<and> MaxRetries o'' = 3"
proof -
  have "MaxRetries (setDefaults o1) = dflt 3 (MaxRetries o1)" for o1
    by (simp add: setDefaults_def Let_def)
  then show ?thesis
    using validated_form [OF assms] by (auto simp: WithMaxRetries_def dflt_def)
qed

theorem max_retries_zero_becomes_three_witness:
  "\<exists>o''. ValidateAndSetDefault (WithMaxRetries 0 (WithHost ''h'' (WithPort 80 v1Defaults))) = Inr o'' \<and> MaxRetries o'' = 3"
proof -
  have "\<exists>o''. ValidateAndSetDefault (WithMaxRetries 0 (WithHost ''h'' (WithPort 80 v1Defaults))) = Inr o''"
    by (simp add: ValidateAndSetDefault_def WithMaxRetries_def WithHost_def WithPort_def v1Defaults_def
        zeroOptions_def is_udp_def is_tcp_def setDefaults_def dflt_def Let_def)
  then show ?thesis using max_retries_zero_becomes_three by blast
qed

text \<open>
  Validation does not check the length of a key it decodes: an encrypting configuration whose key
  text is the base64 form of three bytes is accepted, and encryption with the accepted key fails for
  every message.
\<close>

theorem decoded_key_length_unchecked:
  "\<exists>o''. buildOptions v3Defaults [WithHost ''h'', WithPort 80, WithEncrypt True, WithEncryptKey ''QUJD''] = Inr o'' \<and>
     Encrypt o'' \<and> (\<forall>bc data. AesEncrypt bc data (StringToBytes (EncryptKey o'')) = Inl KeySizeError)"
proof -
  have "b64_encode (StringToBytes ''ABC'') = ''QUJD''"
    by (simp add: StringToBytes_def b64_char_def b64_alphabet_def Let_def)
  then have "ParseKey ''QUJD'' = Inr (StringToBytes ''ABC'')"
    using b64_roundtrip [of "StringToBytes ''ABC''"] by (simp add: ParseKey_def valid_key_len_def)
  then show ?thesis
    by (simp add: buildOptions_def v3Defaults_def zeroOptions_def WithHost_def WithPort_def WithEncrypt_def
        WithEncryptKey_def ValidateAndSetDefault_def is_udp_def is_tcp_def setDefaults_def dflt_def
        AesEncrypt_def valid_key_len_def Let_def)
qed

end
