(* ===== verification/Request.thy ===== *)
theory Request
  imports Codec Options
begin

text \<open>
  \<^verbatim>\<open>tglog/request.go\<close> and the error values at the head of \<^verbatim>\<open>tglog/worker.go\<close>: a request with its
  one-time completion, a batch of requests with its idempotent completion and its cached
  encoding, and the batch identifier that routes a response back to its worker. What a completion does
  to the outside (callbacks, the semaphore, metrics, the pools) is the list of actions it returns,
  in order. The field \<open>rid\<close> names a request in the proofs; a nil callback, semaphore, metrics or
  pool pointer is a false flag.
\<close>

section \<open>Errors\<close>

datatype errNo =
    errOK | errSendTimeout | errSendFailed | errProducerClosed | errSendQueueIsFull | errContextExpired
  | errNewConnFailed | errConnWriteFailed | errConnReadFailed | errLogToLong | errBadLog | errServerError
  | errServerPanic | workerBusy | errNoMatchReq4Rsp | errConnClosedByPeer | errUnknown

fun code :: "errNo \<Rightarrow> int" where
  "code errOK = 0"
| "code errSendTimeout = 10001"
| "code errSendFailed = 10002"
| "code errProducerClosed = 10003"
| "code errSendQueueIsFull = 10004"
| "code errContextExpired = 10005"
| "code errNewConnFailed = 10006"
| "code errConnWriteFailed = 10007"
| "code errConnReadFailed = 10008"
| "code errLogToLong = 10009"
| "code errBadLog = 10010"
| "code errServerError = 10011"
| "code errServerPanic = 10012"
| "code workerBusy = 10013"
| "code errNoMatchReq4Rsp = 10014"
| "code errConnClosedByPeer = 10015"
| "code errUnknown = 20001"

definition strCode :: "errNo \<Rightarrow> string" where
  "strCode e = Itoa (code e)"

text \<open>An error value: one of the numbered ones, an error of the codec, or one from outside.\<close>

datatype goerror = ENo errNo | ECodec codec_err | EOther string

definition getErrorCode :: "goerror option \<Rightarrow> string" where
  "getErrorCode err =
     (case err of None \<Rightarrow> strCode errOK | Some (ENo e) \<Rightarrow> strCode e | Some _ \<Rightarrow> strCode errUnknown)"

section \<open>Requests\<close>

record sendDataReq =
  rid :: nat
  msg :: Message
  flushImmediately :: bool
  publishTime :: gotime
  rcallback :: bool
  rsemaphore :: bool
  rmetrics :: bool
  rpool :: bool

datatype act =
    Callback nat "goerror option"
  | SemRelease
  | DecPending
  | IncPending
  | IncMessage string
  | IncError string
  | IncRetry
  | IncTimeout
  | IncUpdateConn string
  | ObserveTime string int
  | ObserveSize string int
  | ReqPoolPut nat
  | BatchCallback
  | BufferPoolPut
  | BatchPoolPut
  | AsyncWrite nat bytes                 \<comment> \<open>connection, data\<close>
  | PutConn nat "goerror option"

definition req_done :: "goerror option \<Rightarrow> string \<Rightarrow> sendDataReq \<Rightarrow> sendDataReq \<times> act list" where
  "req_done err errCode r =
     (r\<lparr>rsemaphore := False, rcallback := False, rmetrics := False, rpool := False\<rparr>,
      (if rsemaphore r then SemRelease # (if rmetrics r then [DecPending] else []) else []) @
      (if rcallback r then [Callback (rid r) err] else []) @
      (if rmetrics r then [IncMessage (if errCode = [] then getErrorCode err else errCode)] else []) @
      (if rpool r then [ReqPoolPut (rid r)] else []))"

section \<open>Batches\<close>

record batchReq =
  bpool :: bool
  finished :: bool
  batchID :: string
  dataReqs :: "sendDataReq list"
  dataSize :: int
  batchTime :: gotime
  lastSendTime :: gotime
  lastSendServerAddr :: string
  retries :: int
  buffer :: "bytes option"
  bcallback :: bool
  bmetrics :: bool

definition batch_append :: "sendDataReq \<Rightarrow> batchReq \<Rightarrow> batchReq" where
  "batch_append r b = b\<lparr>dataReqs := dataReqs b @ [r], dataSize := dataSize b + int (length (Payload (msg r)))\<rparr>"

definition batch_done :: "goerror option \<Rightarrow> gotime \<Rightarrow> batchReq \<Rightarrow> batchReq \<times> act list" where
  "batch_done err now b =
     (if finished b then (b, [])
      else let errorCode = getErrorCode err
           in (b\<lparr>finished := True, dataReqs := [], bcallback := False, buffer := None, bmetrics := False, bpool := False\<rparr>,
               concat (map (\<lambda>r. snd (req_done err errorCode r)) (dataReqs b)) @
               (if bcallback b then [BatchCallback] else []) @
               (if buffer b \<noteq> None then [BufferPoolPut] else []) @
               (if bmetrics b
                then (if errorCode \<noteq> strCode errOK then [IncError errorCode] else []) @
                     [ObserveTime errorCode ((now - batchTime b) div millisecond), ObserveSize errorCode (dataSize b)]
                else []) @
               (if bpool b then [BatchPoolPut] else [])))"

text \<open>Encoding a batch: the bytes, the batch with its buffer, and the advanced global sequence number. The
  buffer taken from the pool is empty.\<close>

definition keepBuffer :: "batchReq \<Rightarrow> codec_err + bytes \<Rightarrow> 64 word \<Rightarrow> (codec_err + bytes) \<times> batchReq \<times> 64 word" where
  "keepBuffer b r sq =
     (case r of Inl e \<Rightarrow> (Inl e, b\<lparr>buffer := Some []\<rparr>, sq) | Inr bs \<Rightarrow> (Inr bs, b\<lparr>buffer := Some bs\<rparr>, sq))"

definition encode_batch :: "v3_ext \<Rightarrow> codec_env \<Rightarrow> Options \<Rightarrow> 64 word \<Rightarrow> batchReq \<Rightarrow>
    (codec_err + bytes) \<times> batchReq \<times> 64 word" where
  "encode_batch ext env o' sq b =
     (case buffer b of
        Some bs \<Rightarrow> (Inr bs, b, sq)
      | None \<Rightarrow>
          let messages = map msg (dataReqs b)
          in if isV1 o' then keepBuffer b (EncodeV1 messages []) sq
             else if isV3 o'
             then case BuildV3LogReq env sq (AppID o') (AppName o') (AppVer o') (Network o') (batchID b)
                         (Token o') (TokenType o') messages [] [] [] of
                    Inl e \<Rightarrow> keepBuffer b (Inl e) sq
                  | Inr (header, body, sq') \<Rightarrow>
                      keepBuffer b (EncodeV3Req ext (Some header) (Some body) (NoFrameHeader o') (Compress o') (Encrypt o')
                              (Auth o') (SignReq o') (EncryptKey o') [] (LittleEndian o')) sq'
             else keepBuffer b (Inr []) sq)"

section \<open>Batch identifiers\<close>

definition buildBatchID :: "string \<Rightarrow> string \<Rightarrow> string" where
  "buildBatchID index uniq = index @ '':'' @ uniq"

definition getWorkerIndex :: "string \<Rightarrow> int" where
  "getWorkerIndex bid =
     (let i = Index bid (CHR '':'')
      in if i > 0 then (case Atoi (take (nat i) bid) of None \<Rightarrow> - 1 | Some index \<Rightarrow> index) else - 1)"

text \<open>
  The index of a worker can be read back from every batch identifier that worker makes, whatever
  unique part follows, so a response is routed to the worker that sent the batch.
\<close>

theorem worker_index_roundtrip:
  assumes "0 \<le> i" and "i < 2 ^ 63"
  shows "getWorkerIndex (buildBatchID (Itoa i) uniq) = i"
proof -
  have "Index (Itoa i @ CHR '':'' # uniq) CHR '':'' = int (length (Itoa i))"
    by (rule Index_append [OF Itoa_no_colon])
  moreover have "Atoi (Itoa i) = Some i" using assms by (intro Atoi_Itoa) simp_all
  ultimately show ?thesis by (simp add: getWorkerIndex_def buildBatchID_def Let_def)
qed

theorem worker_index_roundtrip_witness: "getWorkerIndex (buildBatchID (Itoa 12) ''a-b:c'') = 12"
  by (rule worker_index_roundtrip) simp_all

section \<open>Completion\<close>

text \<open>
  Completing a batch calls the callback of each of its requests once, in order, with the batch's
  error, and releases one permit per request; completing it again does nothing at all, so a response
  that arrives after a timeout cannot call back, release or recycle twice.
\<close>

theorem batch_done_once:
  assumes "\<not> finished b" and "\<forall>r \<in> set (dataReqs b). rcallback r \<and> rsemaphore r"
  shows "(case batch_done err now b of (b', as) \<Rightarrow>
      filter (\<lambda>a. \<exists>i e. a = Callback i e) as = map (\<lambda>r. Callback (rid r) err) (dataReqs b) \<and>
      count_list as SemRelease = length (dataReqs b) \<and> finished b' \<and> batch_done err' now' b' = (b', []))"
proof -
  let ?f = "\<lambda>r. snd (req_done err (getErrorCode err) r)"
  have "filter (\<lambda>a. \<exists>i e. a = Callback i e) (concat (map ?f rs)) = map (\<lambda>r. Callback (rid r) err) rs
      \<and> count_list (concat (map ?f rs)) SemRelease = length rs"
    if "\<forall>r \<in> set rs. rcallback r \<and> rsemaphore r" for rs
    using that by (induction rs) (simp_all add: req_done_def)
  from this [OF assms(2)] show ?thesis
    using assms(1) by (simp add: batch_done_def Let_def)
qed

definition sample_req :: "nat \<Rightarrow> sendDataReq" where
  "sample_req i = \<lparr>rid = i, msg = mk_message ''a'' [97, 124, 10], flushImmediately = False, publishTime = 0,
     rcallback = True, rsemaphore = True, rmetrics = True, rpool = True\<rparr>"

definition sample_batch :: batchReq where
  "sample_batch = \<lparr>bpool = True, finished = False, batchID = ''0:x'', dataReqs = [sample_req 1, sample_req 2],
     dataSize = 6, batchTime = 0, lastSendTime = 0, lastSendServerAddr = [], retries = 0, buffer = None,
     bcallback = False, bmetrics = True\<rparr>"

theorem batch_done_once_witness:
  "filter (\<lambda>a. \<exists>i e. a = Callback i e) (snd (batch_done None 5 sample_batch)) = [Callback 1 None, Callback 2 None]"
  using batch_done_once [of sample_batch None None 6 5] by (simp add: sample_batch_def sample_req_def case_prod_beta)

lemma encode_keeps:
  "buffer b = None \<Longrightarrow> \<exists>r sq'. encode_batch ext env o' sq b = keepBuffer b r sq'"
  by (cases "isV1 o'"; cases "isV3 o'")
    (auto simp: encode_batch_def Let_def split: sum.split prod.split)

lemma encode_batch_frame:
  assumes "encode_batch ext env o' sq b = (r, b', sq')"
  shows "\<exists>x. b' = b\<lparr>buffer := x\<rparr> \<and> (\<forall>bs. r = Inr bs \<longrightarrow> x = Some bs)"
proof (cases "buffer b")
  case None
  from encode_keeps [OF this, of ext env o' sq] assms obtain r' sq1
    where "keepBuffer b r' sq1 = (r, b', sq')" by auto
  then show ?thesis by (cases r') (auto simp: keepBuffer_def)
next
  case (Some bs)
  with assms have "b' = b" "r = Inr bs" by (simp_all add: encode_batch_def)
  with Some show ?thesis by (intro exI [of _ "Some bs"]) simp
qed

text \<open>
  C35. A batch is encoded once: after a successful encoding every further one, in a retry, returns the
  same bytes, leaves the batch as it is and takes no new sequence numbers, so the server can
  recognise the repetition.
\<close>

theorem encode_is_cached:
  assumes "encode_batch ext env o' sq b = (Inr bs, b', sq')"
  shows "encode_batch ext env2 o2 sq2 b' = (Inr bs, b', sq2) \<and> batchID b' = batchID b \<and> dataReqs b' = dataReqs b"
  using encode_batch_frame [OF assms] by (auto simp: encode_batch_def)

definition sample_codec_env :: codec_env where
  "sample_codec_env = \<lparr>language = ''go1'', platform = ''linux'', sdkVersion = ''v0.1.0'', protoVer = ''3.0.0'',
     localIP = ''127.0.0.1'', tsNow = \<lparr>Seconds = 0, Nanos = 0\<rparr>\<rparr>"

theorem encode_is_cached_witness:
  "\<exists>b'. encode_batch sample_ext sample_codec_env (zeroOptions\<lparr>isV1 := True\<rparr>) 7 sample_batch = (Inr [97, 124, 10, 97, 124, 10], b', 7) \<and>
     encode_batch sample_ext sample_codec_env zeroOptions 9 b' = (Inr [97, 124, 10, 97, 124, 10], b', 9)"
proof -
  have "encode_batch sample_ext sample_codec_env (zeroOptions\<lparr>isV1 := True\<rparr>) 7 sample_batch =
      (Inr [97, 124, 10, 97, 124, 10], sample_batch\<lparr>buffer := Some [97, 124, 10, 97, 124, 10]\<rparr>, 7)"
    by (simp add: encode_batch_def keepBuffer_def sample_batch_def sample_req_def mk_message_def zeroOptions_def Let_def)
  from encode_is_cached [OF this] this show ?thesis by blast
qed

end
