(* ===== verification/Worker.thy ===== *)
theory Worker
  imports Request
begin

text \<open>
  \<^verbatim>\<open>tglog/worker.go\<close>: the state a worker's event loop owns, every handler of the loop, and the
  functions that other goroutines run (callers of \<^verbatim>\<open>doSendAsync\<close>, gnet's write callbacks, the
  retry timers, arriving responses). Batches are objects on a heap that are recycled through a
  pool, as in the source: maps, queues and callbacks hold pointers, and an old callback may find its
  object already used for another batch. A channel is the list of what it holds; \<open>chansClosed\<close> counts
  how often the closing function ran. What comes from outside (the clock, the result of
  \<^verbatim>\<open>AsyncWrite\<close> and of \<^verbatim>\<open>getConn\<close>, the object the pool hands out, the order of ranging over a map) is
  the argument \<open>worker_env\<close>; calls are numbered so that each has its own result. The unique parts of the
  batch identifiers are the field \<open>uuid\<close>.
\<close>

section \<open>Data\<close>

type_synonym conn = nat
type_synonym ptr = nat

datatype workerState = stateInit | stateReady | stateClosing | stateClosed

text \<open>The states are the integers 0 to 3 in the source; a worker only moves up in their order.\<close>

fun iota :: "workerState \<Rightarrow> nat" where
  "iota stateInit = 0"
| "iota stateReady = 1"
| "iota stateClosing = 2"
| "iota stateClosed = 3"

lemma iota_inj: "iota x = iota y \<Longrightarrow> x = y"
  by (cases x; cases y) simp_all

instantiation workerState :: linorder
begin

definition less_eq_workerState :: "workerState \<Rightarrow> workerState \<Rightarrow> bool" where
  "less_eq_workerState x y \<longleftrightarrow> iota x \<le> iota y"

definition less_workerState :: "workerState \<Rightarrow> workerState \<Rightarrow> bool" where
  "less_workerState x y \<longleftrightarrow> iota x < iota y"

instance
  by standard (auto simp: less_eq_workerState_def less_workerState_def intro: iota_inj)

end

lemma workerState_top [simp]: "x \<le> stateClosed"
  by (cases x) (simp_all add: less_eq_workerState_def)

record batchRsp =
  rspBatchID :: string
  rspCode :: int
  rspMsg :: string
  rspSeqs :: "64 word list"

record worker_env =
  wnow :: gotime
  wext :: v3_ext
  wcenv :: codec_env
  writeRes :: "nat \<Rightarrow> string option"
  connRes :: "nat \<Rightarrow> string + conn"
  poolPick :: "nat \<Rightarrow> nat option"
  remoteAddr :: "conn \<Rightarrow> string"
  wOrd :: "string list \<Rightarrow> string list"

record worker =
  windex :: int
  wopts :: Options
  uuid :: "nat \<Rightarrow> string"
  wstate :: workerState
  wconn :: conn
  dataChan :: "sendDataReq list"
  wpermits :: int
  pendingBatches :: "(string, ptr) gomap"
  unackedBatches :: "(string, ptr) gomap"
  retryingBatches :: "(string, ptr) gomap"
  doneBatches :: "(string \<times> ptr \<times> goerror option) list"
  sendFailedBatches :: "(string \<times> ptr \<times> bool) list"
  updateConnChan :: "goerror option list"
  retryBatches :: "(string \<times> ptr) list"
  responseBatches :: "batchRsp list"
  unackedBatchCount :: int
  chansClosed :: nat
  closeLeft :: int
  heap :: "ptr \<Rightarrow> batchReq"
  freeBatches :: "ptr list"
  nextPtr :: ptr
  inflight :: "(string \<times> ptr \<times> bool) list"
  timers :: "(string \<times> ptr \<times> int) list"
  sequence :: "64 word"
  nwrite :: nat
  nconn :: nat
  nuuid :: nat
  log :: "act list"

definition defaultMapCleanThreshold :: int where
  "defaultMapCleanThreshold = 500000"

definition indexStr :: "worker \<Rightarrow> string" where
  "indexStr w = Itoa (windex w)"

abbreviation emit :: "act list \<Rightarrow> worker \<Rightarrow> worker" where
  "emit as w \<equiv> w\<lparr>log := log w @ as\<rparr>"

abbreviation setb :: "ptr \<Rightarrow> (batchReq \<Rightarrow> batchReq) \<Rightarrow> worker \<Rightarrow> worker" where
  "setb p f w \<equiv> w\<lparr>heap := (heap w)(p := f (heap w p))\<rparr>"

section \<open>Connections\<close>

definition casConn :: "conn \<Rightarrow> conn \<Rightarrow> worker \<Rightarrow> worker \<times> bool" where
  "casConn oldConn newConn w = (if wconn w = oldConn then (w\<lparr>wconn := newConn\<rparr>, True) else (w, False))"

definition updateConn :: "worker_env \<Rightarrow> conn option \<Rightarrow> goerror option \<Rightarrow> worker \<Rightarrow> worker" where
  "updateConn e old err w =
     (let w0 = w\<lparr>nconn := nconn w + 1\<rparr>
      in case connRes e (nconn w) of
           Inl m \<Rightarrow> emit [IncError (strCode errNewConnFailed)] w0
         | Inr newConn \<Rightarrow>
             let oldConn = (case old of None \<Rightarrow> wconn w0 | Some c \<Rightarrow> c)
             in case casConn oldConn newConn w0 of
                  (w1, True) \<Rightarrow> emit ((if err = None then [PutConn oldConn err] else []) @
                                      [IncUpdateConn (getErrorCode err)]) w1
                | (w1, False) \<Rightarrow> emit [PutConn newConn None] w1)"

definition updateConnAsync :: "goerror option \<Rightarrow> worker \<Rightarrow> worker" where
  "updateConnAsync err w =
     (if wstate w = stateClosed then w
      else if length (updateConnChan w) < 64 then w\<lparr>updateConnChan := updateConnChan w @ [err]\<rparr> else w)"

definition onConnClosed :: "conn \<Rightarrow> goerror option \<Rightarrow> worker \<Rightarrow> worker" where
  "onConnClosed c err w = (if wconn w = c then updateConnAsync err w else w)"

section \<open>Completing a batch\<close>

text \<open>What \<^verbatim>\<open>closeAll\<close>, the function that \<^verbatim>\<open>handleClose\<close> registers, does.\<close>

definition closeAll :: "worker \<Rightarrow> worker" where
  "closeAll w = emit [PutConn (wconn w) None] (w\<lparr>wstate := stateClosed, chansClosed := chansClosed w + 1\<rparr>)"

definition batchCallback :: "worker \<Rightarrow> worker" where
  "batchCallback w =
     (let w' = w\<lparr>closeLeft := closeLeft w - 1\<rparr> in if closeLeft w' \<le> 0 then closeAll w' else w')"

definition finishBatch :: "worker_env \<Rightarrow> ptr \<Rightarrow> goerror option \<Rightarrow> worker \<Rightarrow> worker" where
  "finishBatch e p err w =
     (case batch_done err (wnow e) (heap w p) of (b, as) \<Rightarrow>
        let w1 = w\<lparr>heap := (heap w)(p := b), wpermits := wpermits w - int (count_list as SemRelease),
                   freeBatches := (if BatchPoolPut \<in> set as then p # freeBatches w else freeBatches w)\<rparr>
        in if BatchCallback \<in> set as
           then emit (dropWhile (\<lambda>a. a \<noteq> BatchCallback) as)
                  (batchCallback (emit (takeWhile (\<lambda>a. a \<noteq> BatchCallback) as) w1))
           else emit as w1)"

definition cancelTimer :: "string \<Rightarrow> ptr \<Rightarrow> worker \<Rightarrow> worker" where
  "cancelTimer bid p w = w\<lparr>timers := filter (\<lambda>(b, q, n). (b, q) \<noteq> (bid, p)) (timers w)\<rparr>"

definition doneBatch :: "worker_env \<Rightarrow> string \<Rightarrow> ptr \<Rightarrow> goerror option \<Rightarrow> worker \<Rightarrow> worker" where
  "doneBatch e bid p err w =
     (if batchID (heap w p) \<noteq> bid then w
      else case map_of (unackedBatches w) bid of
        Some u \<Rightarrow>
          if u \<noteq> p then w
          else let w1 = w\<lparr>unackedBatches := mdel bid (unackedBatches w)\<rparr>
               in (case map_of (retryingBatches w1) bid of
                     Some q \<Rightarrow>
                       if q \<noteq> p then w1
                       else finishBatch e p err
                              ((cancelTimer bid p w1)\<lparr>retryingBatches := mdel bid (retryingBatches w1)\<rparr>)
                   | None \<Rightarrow> finishBatch e p err w1)
      | None \<Rightarrow>
          (case map_of (retryingBatches w) bid of
             Some q \<Rightarrow>
               if q \<noteq> p then w
               else finishBatch e p err
                      ((cancelTimer bid p w)\<lparr>retryingBatches := mdel bid (retryingBatches w)\<rparr>)
           | None \<Rightarrow> finishBatch e p err w))"

text \<open>\<^verbatim>\<open>safeSend\<close> on a closed channel drops the value.\<close>

definition doneBatchAsync :: "string \<Rightarrow> ptr \<Rightarrow> goerror option \<Rightarrow> worker \<Rightarrow> worker" where
  "doneBatchAsync bid p err w =
     (if chansClosed w = 0 then w\<lparr>doneBatches := doneBatches w @ [(bid, p, err)]\<rparr> else w)"

section \<open>Sending\<close>

definition backoffRetry :: "worker_env \<Rightarrow> ptr \<Rightarrow> worker \<Rightarrow> worker" where
  "backoffRetry e p w =
     (let bid = batchID (heap w p)
      in if mhas (retryingBatches w) bid then w
         else if retries (heap w p) \<ge> MaxRetries (wopts w) then doneBatch e bid p (Some (ENo errSendTimeout)) w
         else if wstate w \<noteq> stateReady then doneBatch e bid p (Some (ENo errSendTimeout)) w
         else let w1 = setb p (\<lambda>b. b\<lparr>retries := retries b + 1\<rparr>) w
              in w1\<lparr>retryingBatches := mput bid p (retryingBatches w1),
                    timers := timers w1 @ [(bid, p, retries (heap w1 p))]\<rparr>)"

text \<open>\<^verbatim>\<open>onErr\<close> when \<^verbatim>\<open>AsyncWrite\<close> itself fails, and when gnet reports the failure in the callback.\<close>

definition onErrSync :: "worker_env \<Rightarrow> string \<Rightarrow> ptr \<Rightarrow> conn \<Rightarrow> bool \<Rightarrow> worker \<Rightarrow> worker" where
  "onErrSync e bid p c retryOnFail w0 =
     (let w = emit [IncError (strCode errConnWriteFailed)] w0
      in if wstate w \<noteq> stateReady then doneBatch e bid p (Some (ENo errConnWriteFailed)) w
         else let w1 = updateConn e (Some c) (Some (ENo errConnWriteFailed)) w
              in if retryOnFail \<and> wstate w1 = stateReady then backoffRetry e p w1
                 else doneBatch e bid p (Some (ENo errConnWriteFailed)) w1)"

definition onErrCallback :: "string \<Rightarrow> ptr \<Rightarrow> bool \<Rightarrow> worker \<Rightarrow> worker" where
  "onErrCallback bid p retryOnFail w0 =
     (let w = emit [IncError (strCode errConnWriteFailed)] w0
      in if wstate w \<noteq> stateReady then doneBatchAsync bid p (Some (ENo errConnWriteFailed)) w
         else let w1 = updateConnAsync (Some (ENo errConnWriteFailed)) w
              in if chansClosed w1 = 0
                 then w1\<lparr>sendFailedBatches := sendFailedBatches w1 @ [(bid, p, retryOnFail)]\<rparr>
                 else doneBatchAsync bid p (Some (ENo errConnWriteFailed)) w1)"

definition onOK :: "worker_env \<Rightarrow> string \<Rightarrow> ptr \<Rightarrow> worker \<Rightarrow> worker" where
  "onOK e bid p w = (if isV1 (wopts w) then doneBatch e bid p None w else w)"

text \<open>The end of \<^verbatim>\<open>sendBatch\<close>, when \<^verbatim>\<open>AsyncWrite\<close> returned no error: on UDP the batch is sent, on TCP
  gnet will run the callback; with V3 the batch waits for its response.\<close>

definition afterWrite :: "worker_env \<Rightarrow> string \<Rightarrow> ptr \<Rightarrow> bool \<Rightarrow> worker \<Rightarrow> worker" where
  "afterWrite e bid p retryOnFail w =
     (let w' = (if isUDP (wopts w) then onOK e bid p w
                else w\<lparr>inflight := inflight w @ [(bid, p, retryOnFail)]\<rparr>)
      in if isV3 (wopts w')
         then w'\<lparr>unackedBatchCount := unackedBatchCount w' + 1, unackedBatches := mput bid p (unackedBatches w')\<rparr>
         else w')"

definition sendBatch :: "worker_env \<Rightarrow> ptr \<Rightarrow> bool \<Rightarrow> worker \<Rightarrow> worker" where
  "sendBatch e p retryOnFail w =
     (let bid = batchID (heap w p)
      in if retries (heap w p) > MaxRetries (wopts w) then doneBatch e bid p (Some (ENo errSendTimeout)) w
         else let w1 = setb p (\<lambda>b. b\<lparr>lastSendTime := wnow e\<rparr>) w
              in case encode_batch (wext e) (wcenv e) (wopts w1) (sequence w1) (heap w1 p) of
                   (Inl er, b, sq) \<Rightarrow>
                     doneBatch e bid p (Some (ECodec er)) (w1\<lparr>heap := (heap w1)(p := b), sequence := sq\<rparr>)
                 | (Inr bs, b, sq) \<Rightarrow>
                     let c = wconn w1;
                         w2 = emit [AsyncWrite c bs]
                                (w1\<lparr>heap := (heap w1)(p := b\<lparr>lastSendServerAddr := remoteAddr e c\<rparr>),
                                    sequence := sq, nwrite := nwrite w1 + 1\<rparr>)
                     in (case writeRes e (nwrite w1) of
                           Some m \<Rightarrow> onErrSync e bid p c retryOnFail w2
                         | None \<Rightarrow> afterWrite e bid p retryOnFail w2))"

text \<open>The callback gnet runs when the write of a stream connection is over.\<close>

definition writeCallback :: "worker_env \<Rightarrow> nat \<Rightarrow> string option \<Rightarrow> worker \<Rightarrow> worker" where
  "writeCallback e i er w =
     (case inflight w ! i of (bid, p, retryOnFail) \<Rightarrow>
        let w1 = w\<lparr>inflight := take i (inflight w) @ drop (Suc i) (inflight w)\<rparr>
        in if er \<noteq> None then onErrCallback bid p retryOnFail w1 else onOK e bid p w1)"

text \<open>The goroutine of \<^verbatim>\<open>backoffRetry\<close> when its timer fires.\<close>

definition retryTimer :: "nat \<Rightarrow> worker \<Rightarrow> worker" where
  "retryTimer i w =
     (case timers w ! i of (bid, p, n) \<Rightarrow>
        let w1 = w\<lparr>timers := take i (timers w) @ drop (Suc i) (timers w)\<rparr>
        in if wstate w1 \<noteq> stateReady then doneBatchAsync bid p (Some (ENo errSendTimeout)) w1
           else if chansClosed w1 = 0 then w1\<lparr>retryBatches := retryBatches w1 @ [(bid, p)]\<rparr>
           else doneBatchAsync bid p (Some (ENo errSendTimeout)) w1)"

section \<open>Accepting messages\<close>

definition reject :: "sendDataReq \<Rightarrow> errNo \<Rightarrow> worker \<Rightarrow> worker" where
  "reject r er w = emit (snd (req_done (Some (ENo er)) [] r)) w"

definition available :: "worker \<Rightarrow> bool" where
  "available w \<longleftrightarrow> MaxPendingMessages (wopts w) - wpermits w > 0"

text \<open>A blocking \<^verbatim>\<open>Acquire\<close> that is not given a permit is modelled when its context expires: \<open>acquired\<close>
  says which.\<close>

definition doSendAsync :: "gotime \<Rightarrow> bool \<Rightarrow> nat \<Rightarrow> Message \<Rightarrow> bool \<Rightarrow> bool \<Rightarrow> worker \<Rightarrow> worker" where
  "doSendAsync now acquired i m callback flush w =
     (let req = \<lparr>rid = i, msg = m, flushImmediately = flush, publishTime = now, rcallback = callback,
                 rsemaphore = False, rmetrics = True, rpool = True\<rparr>;
          len = int (length (Payload m))
      in if len = 0 then reject req errBadLog w
         else if wstate w \<noteq> stateReady then reject req errProducerClosed w
         else if len > maxUDPReqSizeV1 \<and> isUDP (wopts w) then reject req errLogToLong w
         else if len > maxTCPReqSizeV1 \<and> isTCP (wopts w) then reject req errLogToLong w
         else if \<not> available w \<or> (BlockIfQueueIsFull (wopts w) \<and> \<not> acquired)
              then reject req (if BlockIfQueueIsFull (wopts w) then errContextExpired else errSendQueueIsFull) w
         else emit [IncPending]
                (w\<lparr>wpermits := wpermits w + 1, dataChan := dataChan w @ [req\<lparr>rsemaphore := True\<rparr>]\<rparr>))"

section \<open>Handlers\<close>

definition poolGet :: "worker_env \<Rightarrow> worker \<Rightarrow> ptr \<times> worker" where
  "poolGet e w =
     (case poolPick e (nuuid w) of
        Some i \<Rightarrow>
          if i < length (freeBatches w)
          then (freeBatches w ! i, w\<lparr>freeBatches := take i (freeBatches w) @ drop (Suc i) (freeBatches w)\<rparr>)
          else (nextPtr w, w\<lparr>nextPtr := Suc (nextPtr w)\<rparr>)
      | None \<Rightarrow> (nextPtr w, w\<lparr>nextPtr := Suc (nextPtr w)\<rparr>))"

definition newBatch :: "worker_env \<Rightarrow> ptr \<Rightarrow> worker \<Rightarrow> batchReq" where
  "newBatch e p w =
     \<lparr>bpool = True, finished = False, batchID = buildBatchID (indexStr w) (uuid w (nuuid w)), dataReqs = dataReqs (heap w p),
      dataSize = 0, batchTime = wnow e, lastSendTime = 0, lastSendServerAddr = [], retries = 0, buffer = None,
      bcallback = False, bmetrics = True\<rparr>"

definition pendingKey :: string where "pendingKey = ''only-you''"

text \<open>The batch a message goes to: the pending one, unless there is none or, on UDP, the message would
  make it too big for a datagram; then the pending one is sent and a new one is started.\<close>

definition startBatch :: "worker_env \<Rightarrow> worker \<Rightarrow> ptr \<times> worker" where
  "startBatch e w =
     (case poolGet e w of (p, w1) \<Rightarrow>
        (p, w1\<lparr>heap := (heap w1)(p := newBatch e p w1), nuuid := nuuid w1 + 1,
               pendingBatches := mput pendingKey p (pendingBatches w1)\<rparr>))"

definition pickBatch :: "worker_env \<Rightarrow> sendDataReq \<Rightarrow> worker \<Rightarrow> ptr \<times> worker" where
  "pickBatch e req w =
     (case map_of (pendingBatches w) pendingKey of
        None \<Rightarrow> startBatch e w
      | Some p \<Rightarrow>
          let totalLen = int (length (Payload (msg req))) + dataSize (heap w p)
          in if isUDP (wopts w) \<and> ((isV1 (wopts w) \<and> totalLen > maxUDPReqSizeV1) \<or>
                                   (isV3 (wopts w) \<and> totalLen > maxUDPReqSizeV3))
             then let w1 = sendBatch e p True w
                  in startBatch e (w1\<lparr>pendingBatches := mdel pendingKey (pendingBatches w1)\<rparr>)
             else (p, w))"

definition handleSendData :: "worker_env \<Rightarrow> sendDataReq \<Rightarrow> worker \<Rightarrow> worker" where
  "handleSendData e req w =
     (case pickBatch e req w of (p, w1) \<Rightarrow>
        let w2 = setb p (batch_append req) w1
        in if \<not> flushImmediately req \<and> int (length (dataReqs (heap w2 p))) < BatchingMaxMessages (wopts w2) \<and>
              dataSize (heap w2 p) < BatchingMaxSize (wopts w2)
           then w2
           else let w3 = sendBatch e p True w2
                in w3\<lparr>pendingBatches := mdel pendingKey (pendingBatches w3)\<rparr>)"

definition handleSendFailed :: "worker_env \<Rightarrow> string \<times> ptr \<times> bool \<Rightarrow> worker \<Rightarrow> worker" where
  "handleSendFailed e rq w =
     (case rq of (bid, p, retry) \<Rightarrow>
        if batchID (heap w p) \<noteq> bid then w
        else if isV3 (wopts w) \<and> map_of (unackedBatches w) bid \<noteq> Some p then w
        else let w1 = (if isV3 (wopts w) then w\<lparr>unackedBatches := mdel bid (unackedBatches w)\<rparr> else w)
             in if retry \<and> wstate w1 = stateReady then backoffRetry e p w1
                else doneBatch e bid p (Some (ENo errConnWriteFailed)) w1)"

definition handleRetry :: "worker_env \<Rightarrow> string \<times> ptr \<Rightarrow> bool \<Rightarrow> worker \<Rightarrow> worker" where
  "handleRetry e rq retryOnFail w =
     (case rq of (bid, p) \<Rightarrow>
        if map_of (retryingBatches w) bid \<noteq> Some p then w
        else sendBatch e p retryOnFail
               (emit [IncRetry] ((cancelTimer bid p w)\<lparr>retryingBatches := mdel bid (retryingBatches w)\<rparr>)))"

definition batchTimeout_one :: "worker_env \<Rightarrow> string \<Rightarrow> worker \<Rightarrow> worker" where
  "batchTimeout_one e key w =
     (case map_of (pendingBatches w) key of
        None \<Rightarrow> w
      | Some p \<Rightarrow>
          if wnow e - batchTime (heap w p) > BatchingMaxPublishDelay (wopts w)
          then let w1 = sendBatch e p True w
               in w1\<lparr>pendingBatches := mdel key (pendingBatches w1)\<rparr>
          else w)"

definition handleBatchTimeout :: "worker_env \<Rightarrow> worker \<Rightarrow> worker" where
  "handleBatchTimeout e w = fold (batchTimeout_one e) (wOrd e (mkeys (pendingBatches w))) w"

definition sendTimeout_one :: "worker_env \<Rightarrow> string \<Rightarrow> worker \<Rightarrow> worker" where
  "sendTimeout_one e bid w =
     (case map_of (unackedBatches w) bid of
        None \<Rightarrow> w
      | Some p \<Rightarrow>
          if wnow e - lastSendTime (heap w p) > SendTimeout (wopts w)
          then emit [IncTimeout] (backoffRetry e p (w\<lparr>unackedBatches := mdel bid (unackedBatches w)\<rparr>))
          else w)"

definition handleSendTimeout :: "worker_env \<Rightarrow> worker \<Rightarrow> worker" where
  "handleSendTimeout e w = fold (sendTimeout_one e) (wOrd e (mkeys (unackedBatches w))) w"

text \<open>Copying the maps leaves their contents; only the counter starts again.\<close>

definition handleCleanMap :: "worker \<Rightarrow> worker" where
  "handleCleanMap w =
     (if unackedBatchCount w < defaultMapCleanThreshold then w else w\<lparr>unackedBatchCount := 0\<rparr>)"

definition onRsp :: "batchRsp \<Rightarrow> worker \<Rightarrow> worker" where
  "onRsp rsp w =
     (if wstate w = stateClosed then w
      else if chansClosed w = 0 then w\<lparr>responseBatches := responseBatches w @ [rsp]\<rparr> else w)"

definition handleRsp :: "worker_env \<Rightarrow> batchRsp \<Rightarrow> worker \<Rightarrow> worker" where
  "handleRsp e rsp w =
     (let bid = rspBatchID rsp; err = (if rspCode rsp = 0 then None else Some (ENo errServerError))
      in case map_of (unackedBatches w) bid of
           Some p \<Rightarrow> doneBatch e bid p err w
         | None \<Rightarrow>
             (case map_of (retryingBatches w) bid of
                Some p \<Rightarrow> doneBatch e bid p err w
              | None \<Rightarrow> emit [IncError (strCode errNoMatchReq4Rsp)] w))"

section \<open>Closing\<close>

text \<open>\<^verbatim>\<open>for i := 0; i < len(ch); i++\<close> with a receive in the body: \<open>i\<close> counts up while the length goes
  down.\<close>

function drainDone :: "worker_env \<Rightarrow> nat \<Rightarrow> (string \<times> ptr \<times> goerror option) list \<Rightarrow> worker \<Rightarrow> worker" where
  "drainDone e i ch w =
     (if i < length ch
      then (case hd ch of (bid, p, err) \<Rightarrow> drainDone e (Suc i) (tl ch) (doneBatch e bid p err w))
      else w\<lparr>doneBatches := ch\<rparr>)"
  by pat_completeness auto
termination by (relation "measure (\<lambda>(e, i, ch, w). length ch)") auto

function drainRetry :: "worker_env \<Rightarrow> nat \<Rightarrow> (string \<times> ptr) list \<Rightarrow> worker \<Rightarrow> worker" where
  "drainRetry e i ch w =
     (if i < length ch then drainRetry e (Suc i) (tl ch) (handleRetry e (hd ch) False w)
      else w\<lparr>retryBatches := ch\<rparr>)"
  by pat_completeness auto
termination by (relation "measure (\<lambda>(e, i, ch, w). length ch)") auto

declare drainDone.simps [simp del] drainRetry.simps [simp del]

fun drainData :: "worker_env \<Rightarrow> sendDataReq list \<Rightarrow> worker \<Rightarrow> worker" where
  "drainData e [] w = w"
| "drainData e (r # rs) w = drainData e rs (handleSendData e r (w\<lparr>dataChan := rs\<rparr>))"

definition flushPending_one :: "worker_env \<Rightarrow> string \<Rightarrow> worker \<Rightarrow> worker" where
  "flushPending_one e key w =
     (case map_of (pendingBatches w) key of
        None \<Rightarrow> w
      | Some p \<Rightarrow> sendBatch e p False (w\<lparr>pendingBatches := mdel key (pendingBatches w)\<rparr>))"

definition flushRetrying_one :: "worker_env \<Rightarrow> string \<Rightarrow> worker \<Rightarrow> worker" where
  "flushRetrying_one e bid w =
     (case map_of (retryingBatches w) bid of
        None \<Rightarrow> w
      | Some p \<Rightarrow> sendBatch e p False
                   ((cancelTimer bid p w)\<lparr>retryingBatches := mdel bid (retryingBatches w)\<rparr>))"

text \<open>The loops of \<^verbatim>\<open>handleClose\<close>: the messages still in the channel, the pending batch, the queued
  completions and retries, and the batches whose retry timer runs.\<close>

definition closeFlush :: "worker_env \<Rightarrow> worker \<Rightarrow> worker" where
  "closeFlush e w =
     (let w1 = drainData e (dataChan w) w;
          w2 = fold (flushPending_one e) (wOrd e (mkeys (pendingBatches w1))) w1;
          w3 = drainDone e 0 (doneBatches w2) w2;
          w4 = drainRetry e 0 (retryBatches w3) w3
      in fold (flushRetrying_one e) (wOrd e (mkeys (retryingBatches w4))) w4)"

definition registerCallbacks :: "string list \<Rightarrow> worker \<Rightarrow> worker" where
  "registerCallbacks =
     fold (\<lambda>bid w. case map_of (unackedBatches w) bid of
                      None \<Rightarrow> w | Some p \<Rightarrow> setb p (\<lambda>b. b\<lparr>bcallback := True\<rparr>) w)"

definition handleClose :: "worker_env \<Rightarrow> worker \<Rightarrow> worker" where
  "handleClose e w =
     (if wstate w \<noteq> stateReady then w
      else let w1 = closeFlush e (w\<lparr>wstate := stateClosing\<rparr>);
               w2 = w1\<lparr>closeLeft := int (length (unackedBatches w1))\<rparr>
           in if closeLeft w2 \<le> 0 then closeAll w2 else registerCallbacks (wOrd e (mkeys (unackedBatches w2))) w2)"

section \<open>Construction\<close>

definition newWorker :: "int \<Rightarrow> Options \<Rightarrow> (nat \<Rightarrow> string) \<Rightarrow> 64 word \<Rightarrow> string + conn \<Rightarrow> string + worker" where
  "newWorker index o' uuids sq firstConn =
     (case firstConn of
        Inl er \<Rightarrow> Inl er
      | Inr c \<Rightarrow> Inr \<lparr>windex = index, wopts = o', uuid = uuids, wstate = stateReady, wconn = c, dataChan = [],
          wpermits = 0, pendingBatches = [], unackedBatches = [], retryingBatches = [], doneBatches = [],
          sendFailedBatches = [], updateConnChan = [], retryBatches = [], responseBatches = [],
          unackedBatchCount = 0, chansClosed = 0, closeLeft = 0,
          heap = (\<lambda>_. \<lparr>bpool = False, finished = True, batchID = [], dataReqs = [], dataSize = 0, batchTime = 0,
                       lastSendTime = 0, lastSendServerAddr = [], retries = 0, buffer = None, bcallback = False,
                       bmetrics = False\<rparr>),
          freeBatches = [], nextPtr = 0, inflight = [], timers = [], sequence = sq, nwrite = 0, nconn = 0,
          nuuid = 0, log = []\<rparr>)"

end
