(* ===== verification/Worker_Inv.thy ===== *)
theory Worker_Inv
  imports Worker "HOL-Library.Multiset"
begin

text \<open>
  The invariant of the worker: which batch objects are live, where they are recorded, and where each
  request is. It is stated relative to what the running handler holds in its hands, a list \<open>X\<close> of
  batches and a multiset \<open>R\<close> of requests, so that it can be followed through a handler: a batch is
  taken out of a map into the hand, and sending it puts it into a map again or completes it.
\<close>

section \<open>Maps\<close>

lemma mset_mdel:
  "distinct (mkeys m) \<Longrightarrow> map_of m k = Some p \<Longrightarrow> mset (map snd m) = add_mset p (mset (map snd (mdel k m)))"
proof (induction m)
  case (Cons x m)
  show ?case
  proof (cases "fst x = k")
    case True
    then have "mdel k m = m" using Cons.prems by (auto simp: delete_id)
    with True Cons.prems show ?thesis by (cases x) simp
  next
    case False
    with Cons show ?thesis by (cases x) auto
  qed
qed simp

lemma mput_new: "\<not> mhas m k \<Longrightarrow> mput k p m = m @ [(k, p)]"
  by (induction m) (auto simp: mhas_def)

lemma mdel_subset: "set (mdel k m) \<subseteq> set m"
  by (auto simp: AList.delete_eq)

section \<open>The invariant\<close>

text \<open>The heap: a finished batch is empty, and a live one was allocated and is not in the pool.\<close>

definition heap_ok :: "(ptr \<Rightarrow> batchReq) \<Rightarrow> ptr \<Rightarrow> ptr list \<Rightarrow> bool" where
  "heap_ok h n free \<longleftrightarrow> distinct free \<and>
     (\<forall>p. finished (h p) \<longrightarrow> dataReqs (h p) = []) \<and> (\<forall>p. \<not> finished (h p) \<longrightarrow> p < n \<and> p \<notin> set free) \<and>
     (\<forall>p \<in> set free. p < n)"

text \<open>Identifiers are issued, and unique among live batches.\<close>

definition ids_ok :: "(ptr \<Rightarrow> batchReq) \<Rightarrow> string set \<Rightarrow> bool" where
  "ids_ok h I \<longleftrightarrow> (\<forall>p. \<not> finished (h p) \<longrightarrow> batchID (h p) \<in> I) \<and>
     (\<forall>p q. \<not> finished (h p) \<longrightarrow> \<not> finished (h q) \<longrightarrow> batchID (h p) = batchID (h q) \<longrightarrow> p = q)"

definition keyed :: "(ptr \<Rightarrow> batchReq) \<Rightarrow> (string, ptr) gomap \<Rightarrow> bool" where
  "keyed h m \<longleftrightarrow> distinct (mkeys m) \<and> (\<forall>kp \<in> set m. batchID (h (snd kp)) = fst kp)"

text \<open>A tracked batch is live and in one place only. With V1, which has no responses, a batch handed to
  gnet is tracked by the write callback that will report on it; with V3 the callback is only a
  second reference. Every live batch is tracked, except that with V1 the report of a failed write is lost
  once the channels are closed.\<close>

definition flights :: "worker \<Rightarrow> (string \<times> ptr \<times> bool) list" where
  "flights w = (if isV1 (wopts w) then inflight w @ sendFailedBatches w else [])"

definition flight_ok :: "(ptr \<Rightarrow> batchReq) \<Rightarrow> (string \<times> ptr \<times> bool) list \<Rightarrow> bool" where
  "flight_ok h F \<longleftrightarrow> (\<forall>f \<in> set F. batchID (h (fst (snd f))) = fst f)"

definition tracked :: "worker \<Rightarrow> ptr list" where
  "tracked w = map snd (pendingBatches w) @ map snd (unackedBatches w) @ map snd (retryingBatches w) @
     map (\<lambda>f. fst (snd f)) (flights w)"

definition whole :: "worker \<Rightarrow> bool" where
  "whole w \<longleftrightarrow> isV3 (wopts w) \<or> chansClosed w = 0"

definition v1_done :: "worker \<Rightarrow> bool" where
  "v1_done w \<longleftrightarrow> isV1 (wopts w) \<and> doneBatches w \<noteq> []"

definition trk_ok :: "(ptr \<Rightarrow> batchReq) \<Rightarrow> bool \<Rightarrow> ptr multiset \<Rightarrow> bool" where
  "trk_ok h c M \<longleftrightarrow> (\<forall>p. count M p \<le> 1) \<and> (\<forall>p \<in># M. \<not> finished (h p)) \<and>
     (c \<longrightarrow> (\<forall>p. \<not> finished (h p) \<longrightarrow> p \<in># M))"

text \<open>An event in a queue, a timer or a callback carries an identifier that was issued, and never that
  of the batch still pending.\<close>

definition issued :: "worker \<Rightarrow> string set" where
  "issued w = (\<lambda>j. buildBatchID (indexStr w) (uuid w j)) ` {..<nuuid w}"

definition evids :: "worker \<Rightarrow> string set" where
  "evids w = set (map fst (inflight w) @ map fst (timers w) @ map fst (sendFailedBatches w) @
     map fst (doneBatches w) @ map fst (retryBatches w))"

definition ev_ok :: "(ptr \<Rightarrow> batchReq) \<Rightarrow> (string, ptr) gomap \<Rightarrow> string set \<Rightarrow> string set \<Rightarrow> bool" where
  "ev_ok h P E I \<longleftrightarrow> E \<subseteq> I \<and> (\<forall>p \<in> snd ` set P. batchID (h p) \<notin> E)"

text \<open>The ledger: every request that holds a permit is in the channel or in a live batch, and a callback
  that was called and one still to be called make up the fixed number \<open>T\<close>.\<close>

definition held :: "worker \<Rightarrow> sendDataReq multiset" where
  "held w = mset (dataChan w) + (\<Sum>p < nextPtr w. mset (dataReqs (heap w p)))"

definition calls :: "nat \<Rightarrow> act list \<Rightarrow> nat" where
  "calls i as = length (filter (\<lambda>a. case a of Callback j er \<Rightarrow> j = i | _ \<Rightarrow> False) as)"

definition owed :: "nat \<Rightarrow> sendDataReq multiset \<Rightarrow> nat" where
  "owed i M = size (filter_mset (\<lambda>r. rid r = i \<and> rcallback r) M)"

definition ledger :: "(nat \<Rightarrow> nat) \<Rightarrow> sendDataReq multiset \<Rightarrow> int \<Rightarrow> (nat \<Rightarrow> nat) \<Rightarrow> bool" where
  "ledger T M permits called \<longleftrightarrow> (\<forall>r \<in># M. rsemaphore r) \<and> permits = int (size M) \<and>
     (\<forall>i. called i + owed i M = T i)"

definition one_version :: "Options \<Rightarrow> bool" where
  "one_version o' \<longleftrightarrow> isV3 o' = (\<not> isV1 o')"

definition base :: "(nat \<Rightarrow> nat) \<Rightarrow> sendDataReq multiset \<Rightarrow> worker \<Rightarrow> ptr list \<Rightarrow> bool" where
  "base T R w X \<longleftrightarrow> one_version (wopts w) \<and> inj (uuid w) \<and>
     heap_ok (heap w) (nextPtr w) (freeBatches w) \<and> ids_ok (heap w) (issued w) \<and>
     distinct (mkeys (pendingBatches w)) \<and> keyed (heap w) (unackedBatches w) \<and> keyed (heap w) (retryingBatches w) \<and>
     trk_ok (heap w) (whole w) (mset (tracked w) + mset X) \<and>
     ev_ok (heap w) (pendingBatches w) (evids w) (issued w) \<and>
     ledger T (held w + R) (wpermits w) (\<lambda>i. calls i (log w)) \<and> flight_ok (heap w) (flights w) \<and> \<not> v1_done w \<and>
     (isV1 (wopts w) \<longrightarrow> unackedBatches w = [])"

lemma baseD:
  assumes "base T R w X"
  shows "one_version (wopts w)" "inj (uuid w)" "heap_ok (heap w) (nextPtr w) (freeBatches w)"
    "ids_ok (heap w) (issued w)" "distinct (mkeys (pendingBatches w))" "keyed (heap w) (unackedBatches w)"
    "keyed (heap w) (retryingBatches w)" "trk_ok (heap w) (whole w) (mset (tracked w) + mset X)"
    "ev_ok (heap w) (pendingBatches w) (evids w) (issued w)"
    "ledger T (held w + R) (wpermits w) (\<lambda>i. calls i (log w))" "flight_ok (heap w) (flights w)" "\<not> v1_done w"
    "isV1 (wopts w) \<longrightarrow> unackedBatches w = []"
  using assms by (simp_all add: base_def)

lemma calls_append [simp]: "calls i (as @ bs) = calls i as + calls i bs"
  by (simp add: calls_def)

lemma calls_Nil [simp]: "calls i [] = 0"
  by (simp add: calls_def)

lemma wowed_simps [simp]:
  "owed i {#} = 0" "owed i (add_mset r M) = of_bool (rid r = i \<and> rcallback r) + owed i M"
  "owed i (M + N) = owed i M + owed i N"
  by (simp_all add: owed_def)

section \<open>What the invariant does not see\<close>

lemmas derived_defs = flights_def whole_def v1_done_def issued_def indexStr_def evids_def held_def

lemma derived_flights [simp]:
  "flights (w\<lparr>unackedBatches := x1\<rparr>) = flights w" "flights (w\<lparr>retryingBatches := x2\<rparr>) = flights w"
  "flights (w\<lparr>pendingBatches := x3\<rparr>) = flights w" "flights (w\<lparr>wpermits := x4\<rparr>) = flights w"
  "flights (w\<lparr>freeBatches := x5\<rparr>) = flights w" "flights (w\<lparr>log := x6\<rparr>) = flights w"
  "flights (w\<lparr>nconn := x7\<rparr>) = flights w" "flights (w\<lparr>wconn := x8\<rparr>) = flights w"
  "flights (w\<lparr>sequence := x9\<rparr>) = flights w" "flights (w\<lparr>nwrite := x10\<rparr>) = flights w"
  "flights (w\<lparr>unackedBatchCount := x11\<rparr>) = flights w" "flights (w\<lparr>updateConnChan := x12\<rparr>) = flights w"
  "flights (w\<lparr>responseBatches := x13\<rparr>) = flights w" "flights (w\<lparr>wstate := x14\<rparr>) = flights w"
  "flights (w\<lparr>closeLeft := x15\<rparr>) = flights w" "flights (w\<lparr>heap := x16\<rparr>) = flights w"
  "flights (w\<lparr>nextPtr := x17\<rparr>) = flights w" "flights (w\<lparr>dataChan := x18\<rparr>) = flights w"
  "flights (w\<lparr>timers := x19\<rparr>) = flights w" "flights (w\<lparr>retryBatches := x20\<rparr>) = flights w"
  "flights (w\<lparr>doneBatches := x21\<rparr>) = flights w" "flights (w\<lparr>chansClosed := x22\<rparr>) = flights w"
  "flights (w\<lparr>nuuid := x23\<rparr>) = flights w"
  by (simp_all add: derived_defs)

lemma derived_whole [simp]:
  "whole (w\<lparr>unackedBatches := x1\<rparr>) = whole w" "whole (w\<lparr>retryingBatches := x2\<rparr>) = whole w"
  "whole (w\<lparr>pendingBatches := x3\<rparr>) = whole w" "whole (w\<lparr>wpermits := x4\<rparr>) = whole w"
  "whole (w\<lparr>freeBatches := x5\<rparr>) = whole w" "whole (w\<lparr>log := x6\<rparr>) = whole w" "whole (w\<lparr>nconn := x7\<rparr>) = whole w"
  "whole (w\<lparr>wconn := x8\<rparr>) = whole w" "whole (w\<lparr>sequence := x9\<rparr>) = whole w" "whole (w\<lparr>nwrite := x10\<rparr>) = whole w"
  "whole (w\<lparr>unackedBatchCount := x11\<rparr>) = whole w" "whole (w\<lparr>updateConnChan := x12\<rparr>) = whole w"
  "whole (w\<lparr>responseBatches := x13\<rparr>) = whole w" "whole (w\<lparr>wstate := x14\<rparr>) = whole w"
  "whole (w\<lparr>closeLeft := x15\<rparr>) = whole w" "whole (w\<lparr>heap := x16\<rparr>) = whole w"
  "whole (w\<lparr>nextPtr := x17\<rparr>) = whole w" "whole (w\<lparr>dataChan := x18\<rparr>) = whole w"
  "whole (w\<lparr>timers := x19\<rparr>) = whole w" "whole (w\<lparr>retryBatches := x20\<rparr>) = whole w"
  "whole (w\<lparr>inflight := x21\<rparr>) = whole w" "whole (w\<lparr>sendFailedBatches := x22\<rparr>) = whole w"
  "whole (w\<lparr>doneBatches := x23\<rparr>) = whole w" "whole (w\<lparr>nuuid := x24\<rparr>) = whole w"
  by (simp_all add: derived_defs)

lemma derived_v1_done [simp]:
  "v1_done (w\<lparr>unackedBatches := x1\<rparr>) = v1_done w" "v1_done (w\<lparr>retryingBatches := x2\<rparr>) = v1_done w"
  "v1_done (w\<lparr>pendingBatches := x3\<rparr>) = v1_done w" "v1_done (w\<lparr>wpermits := x4\<rparr>) = v1_done w"
  "v1_done (w\<lparr>freeBatches := x5\<rparr>) = v1_done w" "v1_done (w\<lparr>log := x6\<rparr>) = v1_done w"
  "v1_done (w\<lparr>nconn := x7\<rparr>) = v1_done w" "v1_done (w\<lparr>wconn := x8\<rparr>) = v1_done w"
  "v1_done (w\<lparr>sequence := x9\<rparr>) = v1_done w" "v1_done (w\<lparr>nwrite := x10\<rparr>) = v1_done w"
  "v1_done (w\<lparr>unackedBatchCount := x11\<rparr>) = v1_done w" "v1_done (w\<lparr>updateConnChan := x12\<rparr>) = v1_done w"
  "v1_done (w\<lparr>responseBatches := x13\<rparr>) = v1_done w" "v1_done (w\<lparr>wstate := x14\<rparr>) = v1_done w"
  "v1_done (w\<lparr>closeLeft := x15\<rparr>) = v1_done w" "v1_done (w\<lparr>heap := x16\<rparr>) = v1_done w"
  "v1_done (w\<lparr>nextPtr := x17\<rparr>) = v1_done w" "v1_done (w\<lparr>dataChan := x18\<rparr>) = v1_done w"
  "v1_done (w\<lparr>timers := x19\<rparr>) = v1_done w" "v1_done (w\<lparr>retryBatches := x20\<rparr>) = v1_done w"
  "v1_done (w\<lparr>inflight := x21\<rparr>) = v1_done w" "v1_done (w\<lparr>sendFailedBatches := x22\<rparr>) = v1_done w"
  "v1_done (w\<lparr>chansClosed := x23\<rparr>) = v1_done w" "v1_done (w\<lparr>nuuid := x24\<rparr>) = v1_done w"
  by (simp_all add: derived_defs)

lemma derived_issued [simp]:
  "issued (w\<lparr>unackedBatches := x1\<rparr>) = issued w" "issued (w\<lparr>retryingBatches := x2\<rparr>) = issued w"
  "issued (w\<lparr>pendingBatches := x3\<rparr>) = issued w" "issued (w\<lparr>wpermits := x4\<rparr>) = issued w"
  "issued (w\<lparr>freeBatches := x5\<rparr>) = issued w" "issued (w\<lparr>log := x6\<rparr>) = issued w"
  "issued (w\<lparr>nconn := x7\<rparr>) = issued w" "issued (w\<lparr>wconn := x8\<rparr>) = issued w"
  "issued (w\<lparr>sequence := x9\<rparr>) = issued w" "issued (w\<lparr>nwrite := x10\<rparr>) = issued w"
  "issued (w\<lparr>unackedBatchCount := x11\<rparr>) = issued w" "issued (w\<lparr>updateConnChan := x12\<rparr>) = issued w"
  "issued (w\<lparr>responseBatches := x13\<rparr>) = issued w" "issued (w\<lparr>wstate := x14\<rparr>) = issued w"
  "issued (w\<lparr>closeLeft := x15\<rparr>) = issued w" "issued (w\<lparr>heap := x16\<rparr>) = issued w"
  "issued (w\<lparr>nextPtr := x17\<rparr>) = issued w" "issued (w\<lparr>dataChan := x18\<rparr>) = issued w"
  "issued (w\<lparr>timers := x19\<rparr>) = issued w" "issued (w\<lparr>retryBatches := x20\<rparr>) = issued w"
  "issued (w\<lparr>inflight := x21\<rparr>) = issued w" "issued (w\<lparr>sendFailedBatches := x22\<rparr>) = issued w"
  "issued (w\<lparr>doneBatches := x23\<rparr>) = issued w" "issued (w\<lparr>chansClosed := x24\<rparr>) = issued w"
  by (simp_all add: derived_defs)

lemma derived_held [simp]:
  "held (w\<lparr>unackedBatches := x1\<rparr>) = held w" "held (w\<lparr>retryingBatches := x2\<rparr>) = held w"
  "held (w\<lparr>pendingBatches := x3\<rparr>) = held w" "held (w\<lparr>wpermits := x4\<rparr>) = held w"
  "held (w\<lparr>freeBatches := x5\<rparr>) = held w" "held (w\<lparr>log := x6\<rparr>) = held w" "held (w\<lparr>nconn := x7\<rparr>) = held w"
  "held (w\<lparr>wconn := x8\<rparr>) = held w" "held (w\<lparr>sequence := x9\<rparr>) = held w" "held (w\<lparr>nwrite := x10\<rparr>) = held w"
  "held (w\<lparr>unackedBatchCount := x11\<rparr>) = held w" "held (w\<lparr>updateConnChan := x12\<rparr>) = held w"
  "held (w\<lparr>responseBatches := x13\<rparr>) = held w" "held (w\<lparr>wstate := x14\<rparr>) = held w"
  "held (w\<lparr>closeLeft := x15\<rparr>) = held w" "held (w\<lparr>timers := x16\<rparr>) = held w"
  "held (w\<lparr>retryBatches := x17\<rparr>) = held w" "held (w\<lparr>inflight := x18\<rparr>) = held w"
  "held (w\<lparr>sendFailedBatches := x19\<rparr>) = held w" "held (w\<lparr>doneBatches := x20\<rparr>) = held w"
  "held (w\<lparr>chansClosed := x21\<rparr>) = held w" "held (w\<lparr>nuuid := x22\<rparr>) = held w"
  by (simp_all add: derived_defs)

lemma derived_evids [simp]:
  "evids (w\<lparr>unackedBatches := x1\<rparr>) = evids w" "evids (w\<lparr>retryingBatches := x2\<rparr>) = evids w"
  "evids (w\<lparr>pendingBatches := x3\<rparr>) = evids w" "evids (w\<lparr>wpermits := x4\<rparr>) = evids w"
  "evids (w\<lparr>freeBatches := x5\<rparr>) = evids w" "evids (w\<lparr>log := x6\<rparr>) = evids w" "evids (w\<lparr>nconn := x7\<rparr>) = evids w"
  "evids (w\<lparr>wconn := x8\<rparr>) = evids w" "evids (w\<lparr>sequence := x9\<rparr>) = evids w" "evids (w\<lparr>nwrite := x10\<rparr>) = evids w"
  "evids (w\<lparr>unackedBatchCount := x11\<rparr>) = evids w" "evids (w\<lparr>updateConnChan := x12\<rparr>) = evids w"
  "evids (w\<lparr>responseBatches := x13\<rparr>) = evids w" "evids (w\<lparr>wstate := x14\<rparr>) = evids w"
  "evids (w\<lparr>closeLeft := x15\<rparr>) = evids w" "evids (w\<lparr>heap := x16\<rparr>) = evids w"
  "evids (w\<lparr>nextPtr := x17\<rparr>) = evids w" "evids (w\<lparr>dataChan := x18\<rparr>) = evids w"
  "evids (w\<lparr>chansClosed := x19\<rparr>) = evids w" "evids (w\<lparr>nuuid := x20\<rparr>) = evids w"
  by (simp_all add: derived_defs)

definition core :: "batchReq \<Rightarrow> bool \<times> string \<times> sendDataReq list" where
  "core b = (finished b, batchID b, dataReqs b)"

definition view where
  "view w = (wopts w, uuid w, nuuid w, windex w, nextPtr w, freeBatches w, pendingBatches w, unackedBatches w,
     retryingBatches w, dataChan w, wpermits w, (\<lambda>i. calls i (log w)), (\<lambda>p. core (heap w p)),
     flights w, whole w, v1_done w)"

lemma coreD: "(\<lambda>p. core (h' p)) = (\<lambda>p. core (h p)) \<Longrightarrow>
    finished (h' p) = finished (h p) \<and> batchID (h' p) = batchID (h p) \<and> dataReqs (h' p) = dataReqs (h p)"
  by (drule fun_cong [of _ _ p]) (simp add: core_def)

lemma base_view_ev:
  assumes v: "view w' = view w" and e: "ev_ok (heap w) (pendingBatches w) (evids w') (issued w)" and b: "base T R w X"
  shows "base T R w' X"
proof -
  have c: "finished (heap w' p) = finished (heap w p)" "batchID (heap w' p) = batchID (heap w p)"
    "dataReqs (heap w' p) = dataReqs (heap w p)" for p
    using v coreD [of "heap w'" "heap w" p] by (simp_all add: view_def)
  have i: "issued w' = issued w" using v by (simp add: view_def issued_def indexStr_def)
  have k: "keyed (heap w') m = keyed (heap w) m" for m by (simp add: keyed_def c)
  have h: "heap_ok (heap w') n f = heap_ok (heap w) n f" for n f by (simp add: heap_ok_def c)
  have d: "ids_ok (heap w') I = ids_ok (heap w) I" for I by (simp add: ids_ok_def c)
  have t: "trk_ok (heap w') x M = trk_ok (heap w) x M" for x M by (simp add: trk_ok_def c)
  have f: "flight_ok (heap w') F = flight_ok (heap w) F" for F by (simp add: flight_ok_def c)
  have l: "held w' = held w" using v by (simp add: view_def held_def c)
  have "ev_ok (heap w') (pendingBatches w) (evids w') (issued w)"
    using e by (simp add: ev_ok_def c)
  moreover have "tracked w' = tracked w" using v by (simp add: view_def tracked_def)
  moreover have "(\<lambda>i. calls i (log w')) = (\<lambda>i. calls i (log w))" using v by (simp add: view_def)
  ultimately show ?thesis using b v by (simp add: base_def i k h d t l f view_def)
qed

lemma base_view:
  assumes "view w' = view w" and "evids w' \<subseteq> evids w" and b: "base T R w X"
  shows "base T R w' X"
  using assms(2) baseD(9) [OF b] by (intro base_view_ev [OF assms(1) _ b]) (auto simp: ev_ok_def)

section \<open>Taking a batch into the hand and recording it again\<close>

lemma trk_ok_cong: "N = M \<Longrightarrow> trk_ok h v M \<Longrightarrow> trk_ok h v N"
  by simp

lemma keyed_mdel: "keyed h m \<Longrightarrow> keyed h (mdel k m)"
  using mdel_subset [of k m] by (auto simp: keyed_def)

lemma keyed_lookup: "keyed h m \<Longrightarrow> map_of m k = Some p \<Longrightarrow> batchID (h p) = k"
  by (auto simp: keyed_def dest: map_of_SomeD)

lemma base_take_unacked:
  assumes b: "base T R w X" and m: "map_of (unackedBatches w) bid = Some p"
  shows "base T R (w\<lparr>unackedBatches := mdel bid (unackedBatches w)\<rparr>) (p # X)"
proof -
  let ?w = "w\<lparr>unackedBatches := mdel bid (unackedBatches w)\<rparr>"
  have "mset (tracked ?w) + mset (p # X) = mset (tracked w) + mset X"
    using mset_mdel [OF _ m] baseD(6) [OF b] by (simp add: tracked_def flights_def keyed_def)
  from trk_ok_cong [OF this baseD(8) [OF b]] show ?thesis
    using b keyed_mdel [OF baseD(6) [OF b], of bid]
    by (simp add: base_def)
qed

lemma base_take_retrying:
  assumes b: "base T R w X" and m: "map_of (retryingBatches w) bid = Some p"
  shows "base T R (w\<lparr>retryingBatches := mdel bid (retryingBatches w)\<rparr>) (p # X)"
proof -
  let ?w = "w\<lparr>retryingBatches := mdel bid (retryingBatches w)\<rparr>"
  have "mset (tracked ?w) + mset (p # X) = mset (tracked w) + mset X"
    using mset_mdel [OF _ m] baseD(7) [OF b] by (simp add: tracked_def flights_def keyed_def)
  from trk_ok_cong [OF this baseD(8) [OF b]] show ?thesis
    using b keyed_mdel [OF baseD(7) [OF b], of bid]
    by (simp add: base_def)
qed

lemma base_take_pending:
  assumes b: "base T R w X" and m: "map_of (pendingBatches w) k = Some p"
  shows "base T R (w\<lparr>pendingBatches := mdel k (pendingBatches w)\<rparr>) (p # X)"
proof -
  let ?w = "w\<lparr>pendingBatches := mdel k (pendingBatches w)\<rparr>"
  have "mset (tracked ?w) + mset (p # X) = mset (tracked w) + mset X"
    using mset_mdel [OF baseD(5) [OF b] m] by (simp add: tracked_def flights_def)
  from trk_ok_cong [OF this baseD(8) [OF b]]
  have t: "trk_ok (heap w) (whole w) (mset (tracked ?w) + mset (p # X))" .
  have "ev_ok (heap w) (mdel k (pendingBatches w)) (evids w) (issued w)"
    using baseD(9) [OF b] mdel_subset [of k "pendingBatches w"] by (auto simp: ev_ok_def)
  with t show ?thesis using b
    by (simp add: base_def)
qed

lemma in_hand:
  assumes b: "base T R w (p # X)"
  shows "\<not> finished (heap w p)" "p < nextPtr w"
    "map_of (unackedBatches w) (batchID (heap w p)) = None"
    "map_of (retryingBatches w) (batchID (heap w p)) = None"
    "q \<in> snd ` set (pendingBatches w) \<Longrightarrow> batchID (heap w q) \<noteq> batchID (heap w p)"
proof -
  have t: "trk_ok (heap w) (whole w) (mset (tracked w) + mset (p # X))" by (rule baseD(8) [OF b])
  show f: "\<not> finished (heap w p)" using t by (simp add: trk_ok_def)
  show "p < nextPtr w" using f baseD(3) [OF b] by (simp add: heap_ok_def)
  have "count (mset (tracked w) + mset (p # X)) p \<le> 1" using t by (simp only: trk_ok_def)
  then have "count (mset (tracked w)) p = 0" by simp
  then have n: "p \<notin> set (tracked w)" by (simp only: count_eq_zero_iff set_mset_mset not_False_eq_True)
  have other: "batchID (heap w q) \<noteq> batchID (heap w p)" if "q \<in> set (tracked w)" for q
  proof -
    have "\<not> finished (heap w q)" using t that by (simp add: trk_ok_def)
    moreover have "q \<noteq> p" using n that by auto
    ultimately show ?thesis using f baseD(4) [OF b] by (auto simp: ids_ok_def)
  qed
  have out: "map_of m (batchID (heap w p)) = None"
    if "keyed (heap w) m" "snd ` set m \<subseteq> set (tracked w)" for m
  proof (rule ccontr)
    assume "map_of m (batchID (heap w p)) \<noteq> None"
    then obtain q where q: "map_of m (batchID (heap w p)) = Some q" by auto
    then have "q \<in> snd ` set m" by (force dest: map_of_SomeD)
    then show False using other [of q] keyed_lookup [OF that(1) q] that(2) by auto
  qed
  show "map_of (unackedBatches w) (batchID (heap w p)) = None"
    by (rule out [OF baseD(6) [OF b]]) (auto simp: tracked_def)
  show "map_of (retryingBatches w) (batchID (heap w p)) = None"
    by (rule out [OF baseD(7) [OF b]]) (auto simp: tracked_def)
  show "batchID (heap w q) \<noteq> batchID (heap w p)" if "q \<in> snd ` set (pendingBatches w)"
    using other [of q] that by (simp add: tracked_def flights_def)
qed

lemma keyed_mput:
  assumes "keyed h m" "map_of m (batchID (h p)) = None"
  shows "keyed h (mput (batchID (h p)) p m)"
  using assms mput_new [of m "batchID (h p)" p] by (auto simp: keyed_def mhas_def map_of_eq_None_iff)

lemma base_put_unacked:
  assumes b: "base T R w (p # X)" and v: "\<not> isV1 (wopts w)"
  shows "base T R (w\<lparr>unackedBatches := mput (batchID (heap w p)) p (unackedBatches w)\<rparr>) X"
proof -
  let ?w = "w\<lparr>unackedBatches := mput (batchID (heap w p)) p (unackedBatches w)\<rparr>"
  have "mset (tracked ?w) + mset X = mset (tracked w) + mset (p # X)"
    using mput_new [of "unackedBatches w" "batchID (heap w p)" p] in_hand(3) [OF b] by (simp add: tracked_def flights_def mhas_def)
  from trk_ok_cong [OF this baseD(8) [OF b]] show ?thesis
    using b v keyed_mput [OF baseD(6) [OF b] in_hand(3) [OF b]]
    by (simp add: base_def)
qed

lemma base_put_retrying:
  assumes b: "base T R w (p # X)"
  shows "base T R (w\<lparr>retryingBatches := mput (batchID (heap w p)) p (retryingBatches w)\<rparr>) X"
proof -
  let ?w = "w\<lparr>retryingBatches := mput (batchID (heap w p)) p (retryingBatches w)\<rparr>"
  have "mset (tracked ?w) + mset X = mset (tracked w) + mset (p # X)"
    using mput_new [of "retryingBatches w" "batchID (heap w p)" p] in_hand(4) [OF b] by (simp add: tracked_def flights_def mhas_def)
  from trk_ok_cong [OF this baseD(8) [OF b]] show ?thesis
    using b keyed_mput [OF baseD(7) [OF b] in_hand(4) [OF b]]
    by (simp add: base_def)
qed

text \<open>An event for a batch in the hand; with V1 the hand may then let go of it.\<close>

lemma base_new_event:
  assumes b: "base T R w (p # X)" and v: "view w' = view w"
    and e: "evids w' \<subseteq> insert (batchID (heap w p)) (evids w)"
  shows "base T R w' (p # X)"
proof (rule base_view_ev [OF v _ b])
  have "batchID (heap w p) \<in> issued w" using in_hand(1) [OF b] baseD(4) [OF b] by (simp add: ids_ok_def)
  moreover have "batchID (heap w q) \<notin> evids w'" if "q \<in> snd ` set (pendingBatches w)" for q
    using baseD(9) [OF b] e in_hand(5) [OF b that] that by (auto simp: ev_ok_def)
  ultimately show "ev_ok (heap w) (pendingBatches w) (evids w') (issued w)"
    using baseD(9) [OF b] e by (simp add: ev_ok_def) blast
qed

lemma base_let_go:
  assumes b: "base T R w (p # X)" and v: "\<not> whole w"
  shows "base T R w X"
proof -
  have "count (mset (tracked w) + mset X) q \<le> 1" for q
  proof -
    have "count (mset (tracked w) + mset (p # X)) q \<le> 1" using baseD(8) [OF b] by (simp only: trk_ok_def)
    then show ?thesis by (rule order_trans [rotated]) (rule mset_subset_eq_count, simp)
  qed
  then show ?thesis using b v by (simp add: base_def trk_ok_def)
qed

text \<open>With V1, writes under way are taken and recorded like the entries of a map.\<close>

lemma base_flights:
  assumes b: "base T R w X" and v: "isV1 (wopts w)"
    and m: "mset (map (\<lambda>f. fst (snd f)) (a @ c)) + mset X' = mset (map (\<lambda>f. fst (snd f)) (inflight w @ sendFailedBatches w)) + mset X"
    and i: "\<forall>f \<in> set a \<union> set c. f \<in> set (inflight w) \<union> set (sendFailedBatches w) \<or>
      (fst (snd f) \<in> set X \<and> fst f = batchID (heap w (fst (snd f))) \<and>
       (\<forall>q \<in> snd ` set (pendingBatches w). batchID (heap w q) \<noteq> fst f))"
  shows "base T R (w\<lparr>inflight := a, sendFailedBatches := c\<rparr>) X'"
proof -
  let ?w = "w\<lparr>inflight := a, sendFailedBatches := c\<rparr>"
  have "mset (tracked ?w) + mset X' = mset (tracked w) + mset X"
    using m v by (simp add: tracked_def flights_def ac_simps)
  from trk_ok_cong [OF this baseD(8) [OF b]] have t: "trk_ok (heap w) (whole w) (mset (tracked ?w) + mset X')" .
  have f: "flight_ok (heap w) (a @ c)"
    using i baseD(11) [OF b] v by (auto simp: flight_ok_def flights_def)
  have "fst f \<in> issued w \<and> (\<forall>q \<in> snd ` set (pendingBatches w). batchID (heap w q) \<noteq> fst f)"
    if "f \<in> set a \<union> set c" for f
  proof (cases "f \<in> set (inflight w) \<union> set (sendFailedBatches w)")
    case True
    then have "fst f \<in> evids w" by (auto simp: evids_def)
    then show ?thesis using baseD(9) [OF b] by (auto simp: ev_ok_def)
  next
    case False
    then have h: "fst (snd f) \<in> set X" "fst f = batchID (heap w (fst (snd f)))"
      "\<forall>q \<in> snd ` set (pendingBatches w). batchID (heap w q) \<noteq> fst f" using i that by auto
    then have "\<not> finished (heap w (fst (snd f)))" using baseD(8) [OF b] by (auto simp: trk_ok_def)
    then show ?thesis using h baseD(4) [OF b] by (auto simp: ids_ok_def)
  qed
  moreover have "evids ?w \<subseteq> evids w \<union> fst ` (set a \<union> set c)" by (auto simp: evids_def)
  ultimately have "ev_ok (heap w) (pendingBatches w) (evids ?w) (issued w)"
    using baseD(9) [OF b] by (fastforce simp: ev_ok_def)
  moreover have "flights ?w = a @ c" "whole ?w = whole w" "v1_done ?w = v1_done w" "issued ?w = issued w" "held ?w = held w"
    using v by (simp_all add: derived_defs)
  ultimately show ?thesis using b t f by (simp add: base_def)
qed

lemma base_put_flight:
  assumes b: "base T R w (p # X)" and v: "isV1 (wopts w)"
  shows "base T R (w\<lparr>inflight := inflight w @ [(batchID (heap w p), p, r)]\<rparr>) X"
proof -
  have "base T R (w\<lparr>inflight := inflight w @ [(batchID (heap w p), p, r)], sendFailedBatches := sendFailedBatches w\<rparr>) X"
    using in_hand(5) [OF b] by (intro base_flights [OF b v]) auto
  then show ?thesis by simp
qed

section \<open>Completing a batch\<close>


lemma calls_simps [simp]:
  "calls i (PutConn c x # as) = calls i as" "calls i (IncError s # as) = calls i as"
  "calls i (IncUpdateConn s # as) = calls i as" "calls i (AsyncWrite c d # as) = calls i as"
  "calls i (IncRetry # as) = calls i as" "calls i (IncTimeout # as) = calls i as"
  "calls i (IncPending # as) = calls i as" "calls i (BatchCallback # as) = calls i as"
  "calls i (BufferPoolPut # as) = calls i as" "calls i (BatchPoolPut # as) = calls i as"
  "calls i (ObserveTime s n # as) = calls i as" "calls i (ObserveSize s n # as) = calls i as"
  "calls i (SemRelease # as) = calls i as" "calls i (DecPending # as) = calls i as"
  "calls i (IncMessage s # as) = calls i as" "calls i (ReqPoolPut j # as) = calls i as"
  "calls i (Callback j er # as) = of_bool (j = i) + calls i as"
  by (simp_all add: calls_def)

lemma req_done_counts:
  "calls i (snd (req_done err c r)) = of_bool (rid r = i \<and> rcallback r)"
  "count_list (snd (req_done err c r)) SemRelease = of_bool (rsemaphore r)"
  "BatchPoolPut \<notin> set (snd (req_done err c r))" "BatchCallback \<notin> set (snd (req_done err c r))"
  by (auto simp: req_done_def)

lemma batch_done_counts:
  assumes "\<not> finished b" "batch_done err now b = (b', as)"
  shows "calls i as = owed i (mset (dataReqs b))"
    "(\<forall>r \<in> set (dataReqs b). rsemaphore r) \<Longrightarrow> count_list as SemRelease = length (dataReqs b)"
    "BatchPoolPut \<in> set as \<longleftrightarrow> bpool b" "BatchCallback \<in> set as \<longleftrightarrow> bcallback b"
    "finished b'" "dataReqs b' = []" "\<not> bcallback b'" "retries b' = retries b" "batchID b' = batchID b"
proof -
  let ?f = "\<lambda>r. snd (req_done err (getErrorCode err) r)"
  have "calls i (concat (map ?f rs)) = owed i (mset rs)" for rs
    by (induction rs) (simp_all add: req_done_counts)
  moreover have "(\<forall>r \<in> set rs. rsemaphore r) \<Longrightarrow> count_list (concat (map ?f rs)) SemRelease = length rs" for rs
    by (induction rs) (simp_all add: req_done_counts)
  moreover have "BatchPoolPut \<notin> set (concat (map ?f rs))" "BatchCallback \<notin> set (concat (map ?f rs))" for rs
    by (simp_all add: req_done_counts)
  ultimately show "calls i as = owed i (mset (dataReqs b))"
    "(\<forall>r \<in> set (dataReqs b). rsemaphore r) \<Longrightarrow> count_list as SemRelease = length (dataReqs b)"
    "BatchPoolPut \<in> set as \<longleftrightarrow> bpool b" "BatchCallback \<in> set as \<longleftrightarrow> bcallback b"
    "finished b'" "dataReqs b' = []" "\<not> bcallback b'" "retries b' = retries b" "batchID b' = batchID b"
    using assms by (auto simp: batch_done_def Let_def)
qed

lemma batch_done_finished: "finished b \<Longrightarrow> batch_done err now b = (b, [])"
  by (simp add: batch_done_def)

text \<open>What completing a batch changes, apart from the log and the closing of the worker.\<close>

definition closes :: "worker \<Rightarrow> worker \<Rightarrow> worker" where
  "closes w' w = w\<lparr>wstate := wstate w', chansClosed := chansClosed w', closeLeft := closeLeft w', log := log w'\<rparr>"

lemma batchCallback_closes: "batchCallback w = closes (batchCallback w) w"
  by (simp add: batchCallback_def closeAll_def closes_def Let_def)

lemma batchCallback_calls: "calls i (log (batchCallback w)) = calls i (log w)"
  by (simp add: batchCallback_def closeAll_def Let_def)

lemma finishBatch_eq:
  assumes "batch_done err (wnow e) (heap w p) = (b, as)"
  shows "finishBatch e p err w = closes (finishBatch e p err w)
     (w\<lparr>heap := (heap w)(p := b), wpermits := wpermits w - int (count_list as SemRelease),
        freeBatches := (if BatchPoolPut \<in> set as then p # freeBatches w else freeBatches w)\<rparr>)"
    (is "_ = closes _ ?w")
    and "calls i (log (finishBatch e p err w)) = calls i (log w) + calls i as"
proof -
  show "finishBatch e p err w = closes (finishBatch e p err w) ?w"
    by (subst (1) finishBatch_def, subst (1 2) batchCallback_closes) (simp add: assms closes_def finishBatch_def Let_def)
  have "calls i as = calls i (takeWhile (\<lambda>a. a \<noteq> BatchCallback) as) + calls i (dropWhile (\<lambda>a. a \<noteq> BatchCallback) as)"
    by (simp flip: calls_append)
  then show "calls i (log (finishBatch e p err w)) = calls i (log w) + calls i as"
    by (simp add: finishBatch_def assms Let_def batchCallback_calls)
qed

lemma held_upd:
  assumes "p < nextPtr w"
  shows "held (w\<lparr>heap := (heap w)(p := b)\<rparr>) + mset (dataReqs (heap w p)) = held w + mset (dataReqs b)"
proof -
  have s: "(\<Sum>q < nextPtr w. f q) = f p + (\<Sum>q \<in> {..<nextPtr w} - {p}. f q)" for f :: "nat \<Rightarrow> sendDataReq multiset"
    using assms by (intro sum.remove) simp_all
  have r: "(\<Sum>q \<in> {..<nextPtr w} - {p}. mset (dataReqs (((heap w)(p := b)) q))) =
      (\<Sum>q \<in> {..<nextPtr w} - {p}. mset (dataReqs (heap w q)))"
    by (rule sum.cong) simp_all
  show ?thesis by (simp add: held_def s r)
qed

lemma ledger_pay:
  assumes "ledger T (H + R) n c" "H = H' + D" "n' = n - int (size D)" "\<And>i. c' i = c i + owed i D"
  shows "ledger T (H' + R) n' c'"
proof -
  have "c' i + owed i (H' + R) = c i + owed i (H + R)" for i by (simp add: assms(2,4))
  with assms(1-3) show ?thesis by (simp add: ledger_def ball_Un)
qed

lemma finish_chans: "chansClosed w \<le> chansClosed (finishBatch e p err w)"
  by (simp add: finishBatch_def batchCallback_def closeAll_def Let_def split: prod.split)

lemma trk_ok_mono: "trk_ok h c M \<Longrightarrow> (c' \<Longrightarrow> c) \<Longrightarrow> trk_ok h c' M"
  by (auto simp: trk_ok_def)

lemma base_finish:
  assumes b: "base T R w (p # X)"
  shows "base T R (finishBatch e p err w) X"
proof -
  obtain b' as where d: "batch_done err (wnow e) (heap w p) = (b', as)" by (cases "batch_done err (wnow e) (heap w p)")
  note live = in_hand(1) [OF b] note c = batch_done_counts [OF live d]
  let ?h = "(heap w)(p := b')" and ?f = "if BatchPoolPut \<in> set as then p # freeBatches w else freeBatches w"
  let ?w = "w\<lparr>heap := ?h, wpermits := wpermits w - int (count_list as SemRelease), freeBatches := ?f\<rparr>"
  have cs: "\<And>q. finished (?h q) = (q = p \<or> finished (heap w q))" "\<And>q. batchID (?h q) = batchID (heap w q)"
    using c(5,9) by simp_all
  note fun_upd_apply [simp del]
  have h: "heap_ok ?h (nextPtr w) ?f"
    using baseD(3) [OF b] live c(5,6) by (auto simp: heap_ok_def cs fun_upd_apply)
  have i: "ids_ok ?h (issued w)" using baseD(4) [OF b] c(5) by (simp add: ids_ok_def cs)
  have k: "keyed ?h m = keyed (heap w) m" for m by (simp add: keyed_def cs)
  have e: "ev_ok ?h P E I = ev_ok (heap w) P E I" for P E I by (simp add: ev_ok_def cs)
  have f: "flight_ok ?h F = flight_ok (heap w) F" for F by (simp add: flight_ok_def cs)
  have t: "trk_ok ?h (whole w) (mset (tracked w) + mset X)"
  proof -
    let ?M = "mset (tracked w) + mset X"
    have M: "mset (tracked w) + mset (p # X) = add_mset p ?M" by simp
    have cnt: "count (add_mset p ?M) q \<le> 1" for q using baseD(8) [OF b] by (simp only: trk_ok_def M)
    have "count ?M q \<le> 1" for q
      by (rule order_trans [OF _ cnt [of q]]) (rule mset_subset_eq_count, simp)
    moreover have "p \<notin># ?M" using cnt [of p] by (simp add: not_in_iff)
    ultimately show ?thesis using baseD(8) [OF b] by (auto simp: trk_ok_def cs simp del: count_union)
  qed
  have "whole (closes (finishBatch e p err w) ?w) \<Longrightarrow> whole w"
    using finish_chans [of w e p err] by (auto simp: whole_def closes_def)
  from trk_ok_mono [OF t this]
  have t': "trk_ok ?h (whole (closes (finishBatch e p err w) ?w)) (mset (tracked w) + mset X)" .
  have hm: "held w = held ?w + mset (dataReqs (heap w p))"
    using held_upd [OF in_hand(2) [OF b], of b'] c(6) by (simp add: held_def)
  have l: "ledger T (held ?w + R) (wpermits ?w) (\<lambda>i. calls i (log w) + calls i as)"
  proof -
    have "(\<forall>r \<in> set (dataReqs (heap w p)). rsemaphore r)" using baseD(10) [OF b] by (simp add: ledger_def hm)
    from c(2) [OF this] show ?thesis
      by (intro ledger_pay [OF baseD(10) [OF b] hm]) (simp_all add: c(1))
  qed
  have cl: "issued (closes u ?w) = issued w" "evids (closes u ?w) = evids w" "tracked (closes u ?w) = tracked w"
    "flights (closes u ?w) = flights w" "v1_done (closes u ?w) = v1_done w" "held (closes u ?w) = held ?w"
    "heap (closes u ?w) = ?h" "wopts (closes u ?w) = wopts w" "uuid (closes u ?w) = uuid w" "nextPtr (closes u ?w) = nextPtr w"
    "freeBatches (closes u ?w) = ?f" "pendingBatches (closes u ?w) = pendingBatches w" "log (closes u ?w) = log u"
    "unackedBatches (closes u ?w) = unackedBatches w" "retryingBatches (closes u ?w) = retryingBatches w"
    "wpermits (closes u ?w) = wpermits ?w" for u
    by (simp_all add: closes_def derived_defs tracked_def)
  have "base T R (closes (finishBatch e p err w) ?w) X"
    using b h i t' l finishBatch_eq(2) [OF d]
    by (simp add: base_def k e f cl)
  then show ?thesis using finishBatch_eq(1) [OF d] by simp
qed

lemma finish_finished: "finished (heap w p) \<Longrightarrow> finishBatch e p err w = w"
  by (simp add: finishBatch_def batch_done_finished)

lemma evids_cancel: "evids (cancelTimer bid p w) \<subseteq> evids w"
  by (auto simp: evids_def cancelTimer_def)

lemma view_cancel: "view (cancelTimer bid p w) = view w"
  by (simp add: view_def cancelTimer_def)

lemma base_cancel: "base T R w X \<Longrightarrow> base T R (cancelTimer bid p w) X"
  by (rule base_view [OF view_cancel evids_cancel])

lemma cancel_simps [simp]:
  "heap (cancelTimer bid p w) = heap w" "retryingBatches (cancelTimer bid p w) = retryingBatches w"
  "unackedBatches (cancelTimer bid p w) = unackedBatches w" "wopts (cancelTimer bid p w) = wopts w"
  "pendingBatches (cancelTimer bid p w) = pendingBatches w" "wstate (cancelTimer bid p w) = wstate w"
  by (simp_all add: cancelTimer_def)

lemma base_take_retrying_cancel:
  assumes b: "base T R w X" and m: "map_of (retryingBatches w) bid = Some p"
  shows "base T R ((cancelTimer bid p w)\<lparr>retryingBatches := mdel bid (retryingBatches w)\<rparr>) (p # X)"
  using base_take_retrying [OF base_cancel [OF b]] m by simp

lemma base_done_hand:
  assumes b: "base T R w (p # X)" and "bid = batchID (heap w p)"
  shows "base T R (doneBatch e bid p err w) X"
  using base_finish [OF b] in_hand(3,4) [OF b] assms(2) by (simp add: doneBatch_def)

text \<open>A completion that an event or a response asks for: the batch may be waiting for a response or for a
  retry, may (with V1) be recorded nowhere, or may be finished and recycled.\<close>

lemma tracked_live: "base T R w X \<Longrightarrow> p \<in> set (tracked w) \<Longrightarrow> \<not> finished (heap w p)"
  using baseD(8) by (auto simp: trk_ok_def)

lemma lookup_tracked:
  "map_of (unackedBatches w) k = Some p \<Longrightarrow> p \<in> set (tracked w)"
  "map_of (retryingBatches w) k = Some p \<Longrightarrow> p \<in> set (tracked w)"
  "map_of (pendingBatches w) k = Some p \<Longrightarrow> p \<in> set (tracked w)"
  by (force simp: tracked_def dest: map_of_SomeD)+

lemma same_id:
  assumes "base T R w X" "\<not> finished (heap w p)" "\<not> finished (heap w q)" "batchID (heap w p) = batchID (heap w q)"
  shows "p = q"
  using baseD(4) [OF assms(1)] assms(2-) by (simp add: ids_ok_def)

lemma base_done_unacked:
  assumes b: "base T R w X" and m: "map_of (unackedBatches w) bid = Some p"
  shows "base T R (doneBatch e bid p err w) X"
proof -
  note id = keyed_lookup [OF baseD(6) [OF b] m] and b' = base_take_unacked [OF b m]
  have "map_of (retryingBatches w) bid = None" using in_hand(4) [OF b'] id by simp
  then show ?thesis using base_finish [OF b'] m id by (simp add: doneBatch_def)
qed

lemma base_done_retrying:
  assumes b: "base T R w X" and m: "map_of (retryingBatches w) bid = Some p"
  shows "base T R (doneBatch e bid p err w) X"
proof -
  note id = keyed_lookup [OF baseD(7) [OF b] m] and b' = base_take_retrying_cancel [OF b m]
  have "map_of (unackedBatches w) bid = None" using in_hand(3) [OF b'] id by simp
  then show ?thesis using base_finish [OF b'] m id by (simp add: doneBatch_def)
qed

lemma lookup_own:
  assumes b: "base T R w []" and id: "batchID (heap w p) = bid" and live: "\<not> finished (heap w p)"
    and np: "\<forall>q \<in> snd ` set (pendingBatches w). batchID (heap w q) \<noteq> bid" and v: "isV3 (wopts w)"
  obtains "map_of (unackedBatches w) bid = Some p" | "map_of (retryingBatches w) bid = Some p"
proof -
  have "\<not> isV1 (wopts w)" using baseD(1) [OF b] v by (simp add: one_version_def)
  moreover have "p \<in> set (tracked w)" using baseD(8) [OF b] v live by (auto simp: trk_ok_def whole_def)
  moreover have "p \<notin> snd ` set (pendingBatches w)" using np id by auto
  ultimately consider "p \<in> snd ` set (unackedBatches w)" | "p \<in> snd ` set (retryingBatches w)"
    by (auto simp: tracked_def flights_def)
  then show ?thesis
  proof cases
    case 1
    then have "(bid, p) \<in> set (unackedBatches w)" using baseD(6) [OF b] id by (auto simp: keyed_def)
    then show ?thesis using that(1) baseD(6) [OF b] by (simp add: keyed_def)
  next
    case 2
    then have "(bid, p) \<in> set (retryingBatches w)" using baseD(7) [OF b] id by (auto simp: keyed_def)
    then show ?thesis using that(2) baseD(7) [OF b] by (simp add: keyed_def)
  qed
qed

lemma stale_done:
  assumes b: "base T R w X" and f: "finished (heap w p) \<or> batchID (heap w p) \<noteq> bid"
  shows "doneBatch e bid p err w = w"
proof (cases "batchID (heap w p) = bid")
  case True
  with f have f: "finished (heap w p)" by simp
  then have "map_of (unackedBatches w) bid \<noteq> Some p" "map_of (retryingBatches w) bid \<noteq> Some p"
    using tracked_live [OF b, of p] lookup_tracked by blast+
  moreover have "map_of (unackedBatches w) bid = Some u \<Longrightarrow> u \<noteq> p" for u using calculation by auto
  ultimately show ?thesis
    using f by (auto simp: doneBatch_def finish_finished split: option.splits)
qed (simp add: doneBatch_def)

lemma base_done_event:
  assumes b: "base T R w []" and np: "\<forall>q \<in> snd ` set (pendingBatches w). batchID (heap w q) \<noteq> bid"
    and v: "isV3 (wopts w)"
  shows "base T R (doneBatch e bid p err w) []"
proof (cases "finished (heap w p) \<or> batchID (heap w p) \<noteq> bid")
  case True
  from stale_done [OF b this] b show ?thesis by simp
next
  case False
  then have live: "\<not> finished (heap w p)" and id: "batchID (heap w p) = bid" by auto
  from b id live np v show ?thesis
    by (cases rule: lookup_own) (simp_all add: base_done_unacked [OF b] base_done_retrying [OF b])
qed

section \<open>What a handler leaves alone\<close>

text \<open>While no batch has the closing callback, completing and sending leave the phase of the worker as it
  is, and retries are counted within their bound.\<close>

definition no_callback :: "worker \<Rightarrow> bool" where
  "no_callback w \<longleftrightarrow> (\<forall>p. \<not> bcallback (heap w p))"

definition retries_ok :: "worker \<Rightarrow> bool" where
  "retries_ok w \<longleftrightarrow> 0 \<le> MaxRetries (wopts w) \<and> (\<forall>p. 0 \<le> retries (heap w p) \<and> retries (heap w p) \<le> MaxRetries (wopts w))"

definition frame :: "worker \<Rightarrow> worker \<Rightarrow> bool" where
  "frame w w' \<longleftrightarrow> wopts w' = wopts w \<and> windex w' = windex w \<and> uuid w' = uuid w \<and> nuuid w' = nuuid w \<and>
     dataChan w' = dataChan w \<and> pendingBatches w' = pendingBatches w \<and> wpermits w' \<le> wpermits w \<and> (retries_ok w \<longrightarrow> retries_ok w') \<and>
     (no_callback w \<longrightarrow> no_callback w' \<and> wstate w' = wstate w \<and> chansClosed w' = chansClosed w \<and> closeLeft w' = closeLeft w)"

lemma wframe_refl [simp]: "frame w w"
  by (simp add: frame_def)

lemma wframe_trans: "frame w w' \<Longrightarrow> frame w' w'' \<Longrightarrow> frame w w''"
  by (simp add: frame_def)

lemma frame_finish: "frame w (finishBatch e p err w)"
proof (cases "finished (heap w p)")
  case False
  obtain b as where d: "batch_done err (wnow e) (heap w p) = (b, as)" by (cases "batch_done err (wnow e) (heap w p)")
  note c = batch_done_counts [OF False d] and q = finishBatch_eq(1) [OF d]
  show ?thesis
    by (subst q) (auto simp: frame_def closes_def no_callback_def retries_ok_def c finishBatch_def d)
qed (simp add: finish_finished)

lemma frame_upd [simp]:
  "frame w (u\<lparr>unackedBatches := x\<rparr>) = frame w u" "frame w (u\<lparr>retryingBatches := x\<rparr>) = frame w u"
  "frame w (u\<lparr>log := l\<rparr>) = frame w u" "frame w (u\<lparr>timers := t\<rparr>) = frame w u"
  "frame w (u\<lparr>inflight := t'\<rparr>) = frame w u" "frame w (u\<lparr>nconn := n\<rparr>) = frame w u" "frame w (u\<lparr>wconn := c\<rparr>) = frame w u"
  "frame w (u\<lparr>nwrite := n\<rparr>) = frame w u" "frame w (u\<lparr>sequence := s\<rparr>) = frame w u"
  "frame w (u\<lparr>unackedBatchCount := k\<rparr>) = frame w u" "frame w (u\<lparr>updateConnChan := m\<rparr>) = frame w u"
  "frame w (u\<lparr>doneBatches := dd\<rparr>) = frame w u" "frame w (u\<lparr>sendFailedBatches := ff\<rparr>) = frame w u"
  "frame w (u\<lparr>retryBatches := rr\<rparr>) = frame w u" "frame w (u\<lparr>responseBatches := pp\<rparr>) = frame w u"
  "frame w (cancelTimer bid p u) = frame w u"
  by (simp_all add: frame_def no_callback_def retries_ok_def cancelTimer_def)

lemma frame_done: "frame w (doneBatch e bid p err w)"
proof -
  have f: "frame w (finishBatch e p err u)" if "frame w u" for u
    using wframe_trans [OF that frame_finish] .
  show ?thesis by (auto simp: doneBatch_def Let_def intro!: f split: option.split)
qed

lemma frame_setb:
  assumes "bcallback (f (heap w p)) = bcallback (heap w p)" "retries (f (heap w p)) = retries (heap w p)"
  shows "frame w (setb p f w)"
  using assms by (auto simp: frame_def no_callback_def retries_ok_def)

lemma frame_backoff: "frame w (backoffRetry e p w)"
proof -
  have "frame w (setb p (\<lambda>b. b\<lparr>retries := retries b + 1\<rparr>) w)" if "retries (heap w p) < MaxRetries (wopts w)"
    using that by (auto simp: frame_def no_callback_def retries_ok_def)
  then show ?thesis by (simp add: backoffRetry_def Let_def frame_done)
qed

lemma frame_updateConn: "frame w (updateConn e old err w)"
  by (auto simp: updateConn_def casConn_def Let_def split: sum.split)

lemma frame_onErrSync: "frame w (onErrSync e bid p c r w)"
proof -
  let ?w = "emit [IncError (strCode errConnWriteFailed)] w"
  let ?u = "updateConn e (Some c) (Some (ENo errConnWriteFailed)) ?w"
  have w: "frame w ?w" by simp
  have u: "frame w ?u" by (rule wframe_trans [OF w frame_updateConn])
  show ?thesis
    using wframe_trans [OF w frame_done] wframe_trans [OF u frame_done] wframe_trans [OF u frame_backoff]
    by (simp add: onErrSync_def Let_def)
qed

lemma encode_frame:
  assumes "encode_batch ext env o' sq (heap w p) = (r, b', sq')"
  shows "frame w (w\<lparr>heap := (heap w)(p := b')\<rparr>)"
  using encode_batch_frame [OF assms] by (auto simp: frame_def no_callback_def retries_ok_def)

lemma frame_send: "frame w (sendBatch e p r w)"
proof -
  let ?w1 = "setb p (\<lambda>b. b\<lparr>lastSendTime := wnow e\<rparr>) w"
  have w1: "frame w ?w1" by (rule frame_setb) simp_all
  obtain rs b sq where enc: "encode_batch (wext e) (wcenv e) (wopts ?w1) (sequence ?w1) (heap ?w1 p) = (rs, b, sq)"
    by (cases "encode_batch (wext e) (wcenv e) (wopts ?w1) (sequence ?w1) (heap ?w1 p)")
  let ?w2 = "?w1\<lparr>heap := (heap ?w1)(p := b)\<rparr>"
  have w2: "frame w ?w2" by (rule wframe_trans [OF w1 encode_frame [OF enc]])
  have w3: "frame w (?w1\<lparr>heap := (heap ?w1)(p := b\<lparr>lastSendServerAddr := a\<rparr>)\<rparr>)" for a
    using wframe_trans [OF w2 frame_setb [of "\<lambda>b. b\<lparr>lastSendServerAddr := a\<rparr>" ?w2 p]] by simp
  have ok: "frame w (onOK e bid q u)" if "frame w u" for bid q u
    using wframe_trans [OF that frame_done] that by (simp add: onOK_def)
  have aw: "frame w (afterWrite e bid q r u)" if "frame w u" for bid q u
    using ok [OF that] that by (simp add: afterWrite_def Let_def)
  have dn: "frame w (doneBatch e bid q er u)" if "frame w u" for bid q er u
    by (rule wframe_trans [OF that frame_done])
  have er: "frame w (onErrSync e bid q c r u)" if "frame w u" for bid q c u
    by (rule wframe_trans [OF that frame_onErrSync])
  show ?thesis
    unfolding sendBatch_def Let_def enc using w2 w3
    by (auto simp: frame_done intro!: aw dn er split: sum.split option.split)
qed

section \<open>Sending keeps the invariant\<close>

lemma view_setb:
  "core b = core (heap w p) \<Longrightarrow> view (w\<lparr>heap := (heap w)(p := b)\<rparr>) = view w"
  by (auto simp: view_def)

lemma base_upd:
  "base T R w X \<Longrightarrow> core b = core (heap w p) \<Longrightarrow> base T R (w\<lparr>heap := (heap w)(p := b)\<rparr>) X"
  by (rule base_view [OF view_setb]) (simp_all add: evids_def)

lemma base_backoff:
  assumes b: "base T R w (p # X)"
  shows "base T R (backoffRetry e p w) X"
proof -
  let ?b = "batchID (heap w p)" and ?w1 = "setb p (\<lambda>b. b\<lparr>retries := retries b + 1\<rparr>) w"
  have nr: "\<not> mhas (retryingBatches w) ?b" using in_hand(4) [OF b] by (simp add: mhas_def)
  have b1: "base T R ?w1 (p # X)" by (rule base_upd [OF b]) (simp add: core_def)
  have swap: "u\<lparr>retryingBatches := m, timers := t\<rparr> = u\<lparr>timers := t, retryingBatches := m\<rparr>" for u :: worker and m t by simp
  have b3: "base T R (?w1\<lparr>timers := timers ?w1 @ [(?b, p, n)]\<rparr>) (p # X)" for n
    by (rule base_new_event [OF b1]) (auto simp: view_def evids_def)
  show ?thesis
    using base_done_hand [OF b refl] base_put_retrying [OF b3 [of "retries (heap ?w1 p)"]] nr
    by (simp add: backoffRetry_def Let_def swap)
qed

lemma view_updateConn: "view (updateConn e old err w) = view w"
  by (auto simp: view_def updateConn_def casConn_def Let_def split: sum.split)

lemma evids_updateConn: "evids (updateConn e old err w) = evids w"
  by (auto simp: evids_def updateConn_def casConn_def Let_def split: sum.split)

lemma base_updateConn: "base T R w X \<Longrightarrow> base T R (updateConn e old err w) X"
  by (rule base_view [OF view_updateConn]) (simp_all add: evids_updateConn)

lemma updateConn_heap [simp]:
  "heap (updateConn e old err w) = heap w" "retryingBatches (updateConn e old err w) = retryingBatches w"
  "unackedBatches (updateConn e old err w) = unackedBatches w"
  by (auto simp: updateConn_def casConn_def Let_def split: sum.split)

lemma base_emit:
  assumes "base T R w X" "\<And>i. calls i as = 0"
  shows "base T R (emit as w) X"
  by (rule base_view [OF _ _ assms(1)]) (simp_all add: view_def evids_def assms(2))

lemma base_onErrSync:
  assumes b: "base T R w (p # X)" and bid: "bid = batchID (heap w p)"
  shows "base T R (onErrSync e bid p c r w) X"
proof -
  let ?w = "emit [IncError (strCode errConnWriteFailed)] w"
  let ?u = "updateConn e (Some c) (Some (ENo errConnWriteFailed)) ?w"
  have w: "base T R ?w (p # X)" by (rule base_emit [OF b]) simp
  have u: "base T R ?u (p # X)" by (rule base_updateConn [OF w])
  show ?thesis
    using base_done_hand [OF w, of bid] base_done_hand [OF u, of bid] base_backoff [OF u] bid
    by (simp add: onErrSync_def Let_def)
qed

lemma base_sent:
  assumes b: "base T R w (p # X)" and bid: "bid = batchID (heap w p)"
  shows "base T R (afterWrite e bid p r w) X"
proof -
  have uc: "base T R (u\<lparr>unackedBatchCount := n, unackedBatches := m\<rparr>) X" if "base T R (u\<lparr>unackedBatches := m\<rparr>) X" for u m n
    by (rule base_view [OF _ _ that]) (simp_all add: view_def evids_def)
  show ?thesis
  proof (cases "isV1 (wopts w)")
    case True
    then have "\<not> isV3 (wopts w)" using baseD(1) [OF b] by (simp add: one_version_def)
    moreover have "wopts (doneBatch e bid p None w) = wopts w" using frame_done by (simp add: frame_def)
    ultimately show ?thesis
      using True base_done_hand [OF b bid] base_put_flight [OF b True, of r] bid by (simp add: afterWrite_def onOK_def)
  next
    case False
    then have "isV3 (wopts w)" using baseD(1) [OF b] by (simp add: one_version_def)
    have fl: "base T R (w\<lparr>inflight := inflight w @ [(bid, p, r)]\<rparr>) (p # X)"
      by (rule base_new_event [OF b]) (auto simp: view_def evids_def bid flights_def False whole_def v1_done_def)
    from False \<open>isV3 (wopts w)\<close> show ?thesis
      using uc [OF base_put_unacked [OF b False, folded bid]] uc [OF base_put_unacked [OF fl]]
      by (simp add: afterWrite_def onOK_def bid)
  qed
qed

lemma base_send:
  assumes b: "base T R w (p # X)"
  shows "base T R (sendBatch e p r w) X"
proof -
  let ?bid = "batchID (heap w p)" and ?w1 = "setb p (\<lambda>b. b\<lparr>lastSendTime := wnow e\<rparr>) w"
  have b1: "base T R ?w1 (p # X)" by (rule base_upd [OF b]) (simp add: core_def)
  obtain rs b' sq where enc: "encode_batch (wext e) (wcenv e) (wopts ?w1) (sequence ?w1) (heap ?w1 p) = (rs, b', sq)"
    by (cases "encode_batch (wext e) (wcenv e) (wopts ?w1) (sequence ?w1) (heap ?w1 p)")
  have c: "core b' = core (heap ?w1 p)" using encode_batch_frame [OF enc] by (auto simp: core_def)
  have id: "batchID b' = ?bid" using c by (simp add: core_def)
  let ?w2 = "?w1\<lparr>heap := (heap ?w1)(p := b'), sequence := sq\<rparr>"
  have b2: "base T R ?w2 (p # X)"
    by (rule base_view [OF _ _ base_upd [OF b1 c]]) (simp_all add: view_def evids_def)
  let ?w3 = "\<lambda>bs. emit [AsyncWrite (wconn ?w1) bs]
    (?w1\<lparr>heap := (heap ?w1)(p := b'\<lparr>lastSendServerAddr := remoteAddr e (wconn ?w1)\<rparr>), sequence := sq, nwrite := nwrite ?w1 + 1\<rparr>)"
  have b3: "base T R (?w3 bs) (p # X)" for bs
  proof -
    have "core (b'\<lparr>lastSendServerAddr := a\<rparr>) = core (heap ?w1 p)" for a using c by (simp add: core_def)
    from base_upd [OF b1 this] show ?thesis by (rule base_view [rotated 2]) (simp_all add: view_def evids_def)
  qed
  show ?thesis
    unfolding sendBatch_def Let_def enc
    using base_done_hand [OF b refl] base_done_hand [OF b2, of ?bid] base_onErrSync [OF b3, of ?bid]
      base_sent [OF b3, of ?bid] id
    by (simp split: sum.split option.split)
qed

section \<open>The pending batch\<close>

text \<open>Sending neither reads nor writes the pending map, so deleting the batch from it afterwards, as the
  code does, is the same as deleting it before.\<close>

lemma finish_pending: "finishBatch e p err (w\<lparr>pendingBatches := m\<rparr>) = (finishBatch e p err w)\<lparr>pendingBatches := m\<rparr>"
  by (simp add: finishBatch_def batchCallback_def closeAll_def Let_def split: prod.split)

lemma done_pending: "doneBatch e bid p err (w\<lparr>pendingBatches := m\<rparr>) = (doneBatch e bid p err w)\<lparr>pendingBatches := m\<rparr>"
proof -
  have c: "cancelTimer bid p (u\<lparr>pendingBatches := m\<rparr>) = (cancelTimer bid p u)\<lparr>pendingBatches := m\<rparr>" for u
    by (simp add: cancelTimer_def)
  have s: "u\<lparr>pendingBatches := m, unackedBatches := x\<rparr> = u\<lparr>unackedBatches := x, pendingBatches := m\<rparr>"
    "u\<lparr>pendingBatches := m, retryingBatches := x\<rparr> = u\<lparr>retryingBatches := x, pendingBatches := m\<rparr>" for u :: worker and x
    by simp_all
  show ?thesis by (simp add: doneBatch_def Let_def c s finish_pending split: option.split)
qed

lemma backoff_pending: "backoffRetry e p (w\<lparr>pendingBatches := m\<rparr>) = (backoffRetry e p w)\<lparr>pendingBatches := m\<rparr>"
  by (simp add: backoffRetry_def Let_def done_pending)

lemma updateConn_pending:
  "updateConn e old err (w\<lparr>pendingBatches := m\<rparr>) = (updateConn e old err w)\<lparr>pendingBatches := m\<rparr>"
  by (cases old) (simp_all add: updateConn_def casConn_def Let_def split: sum.split)

lemma emit_pending: "w\<lparr>pendingBatches := m, log := l\<rparr> = w\<lparr>log := l, pendingBatches := m\<rparr>"
  for w :: worker by simp

lemma onErrSync_pending:
  "onErrSync e bid p c r (w\<lparr>pendingBatches := m\<rparr>) = (onErrSync e bid p c r w)\<lparr>pendingBatches := m\<rparr>"
  by (simp add: onErrSync_def Let_def emit_pending updateConn_pending done_pending backoff_pending)

lemma afterWrite_pending:
  "afterWrite e bid p r (w\<lparr>pendingBatches := m\<rparr>) = (afterWrite e bid p r w)\<lparr>pendingBatches := m\<rparr>"
  by (simp add: afterWrite_def onOK_def Let_def done_pending)

lemma send_pending: "sendBatch e p r (w\<lparr>pendingBatches := m\<rparr>) = (sendBatch e p r w)\<lparr>pendingBatches := m\<rparr>"
proof -
  have s: "u\<lparr>pendingBatches := m, heap := h\<rparr> = u\<lparr>heap := h, pendingBatches := m\<rparr>"
    "u\<lparr>pendingBatches := m, sequence := x\<rparr> = u\<lparr>sequence := x, pendingBatches := m\<rparr>"
    "u\<lparr>pendingBatches := m, nwrite := n\<rparr> = u\<lparr>nwrite := n, pendingBatches := m\<rparr>" for u :: worker and h x n
    by simp_all
  show ?thesis
    by (simp add: sendBatch_def Let_def done_pending s emit_pending onErrSync_pending afterWrite_pending
        split: sum.split prod.split option.split)
qed

lemma send_then_delete:
  "(sendBatch e p r w)\<lparr>pendingBatches := mdel k (pendingBatches (sendBatch e p r w))\<rparr> =
   sendBatch e p r (w\<lparr>pendingBatches := mdel k (pendingBatches w)\<rparr>)"
  using frame_send [of w e p r] by (simp add: send_pending frame_def)

lemma base_send_pending:
  assumes "base T R w X" "map_of (pendingBatches w) k = Some p"
  shows "base T R ((sendBatch e p r w)\<lparr>pendingBatches := mdel k (pendingBatches (sendBatch e p r w))\<rparr>) X"
  unfolding send_then_delete by (rule base_send [OF base_take_pending [OF assms]])

lemma base_append:
  assumes b: "base T (add_mset req R) w X" and live: "\<not> finished (heap w p)" and s: "rsemaphore req"
  shows "base T R (setb p (batch_append req) w) X"
proof -
  let ?w = "setb p (batch_append req) w"
  have n: "p < nextPtr w" using baseD(3) [OF b] live by (simp add: heap_ok_def)
  have c: "finished (heap ?w q) = finished (heap w q)" "batchID (heap ?w q) = batchID (heap w q)" for q
    by (simp_all add: batch_append_def)
  have "heap_ok (heap ?w) (nextPtr w) (freeBatches w)"
    using baseD(3) [OF b] live by (simp add: heap_ok_def batch_append_def)
  moreover have "ids_ok (heap ?w) I = ids_ok (heap w) I" "keyed (heap ?w) m = keyed (heap w) m"
    "trk_ok (heap ?w) v M = trk_ok (heap w) v M" "ev_ok (heap ?w) P E I = ev_ok (heap w) P E I"
    "flight_ok (heap ?w) F = flight_ok (heap w) F" for I m v M P E F
    unfolding ids_ok_def keyed_def trk_ok_def ev_ok_def flight_ok_def c by simp_all
  moreover have "held ?w = add_mset req (held w)"
    using held_upd [OF n, of "batch_append req (heap w p)"] by (simp add: batch_append_def)
  ultimately show ?thesis
    using b by (simp add: base_def tracked_def)
qed

lemma poolGet_cases:
  assumes "poolGet e w = (p, w1)" and h: "heap_ok (heap w) (nextPtr w) (freeBatches w)"
  shows "\<exists>f n. w1 = w\<lparr>freeBatches := f, nextPtr := n\<rparr> \<and> nextPtr w \<le> n \<and> n \<le> Suc (nextPtr w) \<and> p < n \<and>
    finished (heap w p) \<and> distinct f \<and> p \<notin> set f \<and> set f \<subseteq> set (freeBatches w)"
proof -
  have old: "finished (heap w (freeBatches w ! i))" "freeBatches w ! i < nextPtr w"
    "distinct (take i (freeBatches w) @ drop (Suc i) (freeBatches w))"
    "freeBatches w ! i \<notin> set (take i (freeBatches w) @ drop (Suc i) (freeBatches w))"
    if "i < length (freeBatches w)" for i
  proof -
    show "finished (heap w (freeBatches w ! i))" "freeBatches w ! i < nextPtr w"
      using h that by (auto simp: heap_ok_def)
    have "freeBatches w = take i (freeBatches w) @ freeBatches w ! i # drop (Suc i) (freeBatches w)"
      using that by (rule id_take_nth_drop)
    then have "distinct (take i (freeBatches w) @ freeBatches w ! i # drop (Suc i) (freeBatches w))"
      using h by (simp add: heap_ok_def)
    then show "distinct (take i (freeBatches w) @ drop (Suc i) (freeBatches w))"
      "freeBatches w ! i \<notin> set (take i (freeBatches w) @ drop (Suc i) (freeBatches w))"
      unfolding distinct_append by auto
  qed
  have new: "finished (heap w (nextPtr w))" "nextPtr w \<notin> set (freeBatches w)" "distinct (freeBatches w)"
    using h by (auto simp: heap_ok_def)
  consider i where "i < length (freeBatches w)" "p = freeBatches w ! i"
      "w1 = w\<lparr>freeBatches := take i (freeBatches w) @ drop (Suc i) (freeBatches w)\<rparr>"
    | "p = nextPtr w" "w1 = w\<lparr>nextPtr := Suc (nextPtr w)\<rparr>"
    using assms(1) by (auto simp: poolGet_def split: option.splits if_splits)
  then show ?thesis
  proof cases
    case 1
    with old [OF 1(1)] show ?thesis
      by (intro exI [of _ "take i (freeBatches w) @ drop (Suc i) (freeBatches w)"] exI [of _ "nextPtr w"])
        (auto dest: in_set_takeD in_set_dropD)
  next
    case 2
    with new show ?thesis by (intro exI [of _ "freeBatches w"] exI [of _ "Suc (nextPtr w)"]) simp
  qed
qed

lemma buildBatchID_inj: "buildBatchID i u = buildBatchID i v \<Longrightarrow> u = v"
  by (simp add: buildBatchID_def)

lemma trk_ok_add:
  assumes "trk_ok h v M" "finished (h p)" "\<not> finished nb"
  shows "trk_ok (h(p := nb)) v (add_mset p M)"
proof -
  have "p \<notin># M" using assms(1,2) by (auto simp: trk_ok_def)
  then have "count M p = 0" by (simp add: not_in_iff)
  then show ?thesis using assms by (simp add: trk_ok_def)
qed

lemma base_new_batch:
  assumes b: "base T R w X" and p: "finished (heap w p)" "p < n" "distinct f" "p \<notin> set f"
    and n: "nextPtr w \<le> n" "n \<le> Suc (nextPtr w)" and f: "set f \<subseteq> set (freeBatches w)"
    and k: "map_of (pendingBatches w) k = None"
    and nb: "\<not> finished nb" "batchID nb = buildBatchID (indexStr w) (uuid w (nuuid w))" "dataReqs nb = []"
  shows "base T R (w\<lparr>freeBatches := f, nextPtr := n, heap := (heap w)(p := nb), nuuid := nuuid w + 1,
    pendingBatches := mput k p (pendingBatches w)\<rparr>) X" (is "base T R ?w X")
proof -
  note ok = baseD [OF b]
  let ?id = "batchID nb"
  have iss: "issued ?w = insert ?id (issued w)"
    by (simp add: issued_def indexStr_def nb(2) lessThan_Suc)
  have fresh: "?id \<notin> issued w"
    using ok(2) by (auto simp: issued_def nb(2) dest!: buildBatchID_inj dest: injD)
  have fin: "finished (heap ?w q) = (q \<noteq> p \<and> finished (heap w q))" for q by (simp add: nb(1))
  have m: "mput k p (pendingBatches w) = pendingBatches w @ [(k, p)]" using k by (simp add: mput_new mhas_def)
  have heap: "heap_ok (heap ?w) n f"
  proof -
    have "q < n" if "q \<in> set f" for q using that f n ok(3) by (fastforce simp: heap_ok_def)
    then show ?thesis using ok(3) p n f by (auto simp: heap_ok_def nb(1))
  qed
  have ids: "ids_ok (heap ?w) (issued ?w)"
    unfolding iss ids_ok_def using ok(4) fresh by (simp add: ids_ok_def nb(1)) metis
  have keys: "keyed (heap ?w) m" if "keyed (heap w) m" "snd ` set m \<subseteq> set (tracked w)" for m
    using that p(1) tracked_live [OF b, of p] by (auto simp: keyed_def)
  have ku: "keyed (heap ?w) (unackedBatches w)" by (rule keys [OF ok(6)]) (auto simp: tracked_def)
  have kr: "keyed (heap ?w) (retryingBatches w)" by (rule keys [OF ok(7)]) (auto simp: tracked_def)
  have M: "mset (tracked ?w) + mset X = add_mset p (mset (tracked w) + mset X)" by (simp add: tracked_def flights_def m)
  have trk: "trk_ok (heap ?w) (whole w) (mset (tracked ?w) + mset X)"
    unfolding M using trk_ok_add [OF ok(8) p(1) nb(1)] by simp
  have ev: "ev_ok (heap ?w) (mput k p (pendingBatches w)) (evids w) (issued ?w)"
    unfolding iss unfolding ev_ok_def m using ok(9) fresh p(1) tracked_live [OF b, of p]
    by (auto simp: ev_ok_def tracked_def)
  have hw: "dataReqs (heap ?w q) = dataReqs (heap w q)" for q
    using ok(3) p(1) by (simp add: nb(3) heap_ok_def)
  have held: "held ?w = held w"
  proof (cases "n = nextPtr w")
    case False
    then have "n = Suc (nextPtr w)" "dataReqs (heap w (nextPtr w)) = []" using n ok(3) by (auto simp: heap_ok_def)
    then show ?thesis unfolding held_def hw by simp
  qed (unfold held_def hw, simp)
  have fl: "flight_ok (heap ?w) (flights w)"
    using ok(11) p(1) tracked_live [OF b, of p] by (auto simp: flight_ok_def tracked_def)
  have "distinct (mkeys (mput k p (pendingBatches w)))" using ok(5) by simp
  then have "one_version (wopts ?w) \<and> inj (uuid ?w) \<and> distinct (mkeys (pendingBatches ?w)) \<and>
      ledger T (held ?w + R) (wpermits ?w) (\<lambda>i. calls i (log ?w))"
    using ok held by simp
  moreover have "evids ?w = evids w" by (simp add: evids_def)
  ultimately show ?thesis using heap ids ku kr trk ev fl ok(12,13) unfolding base_def by simp
qed

section \<open>Handlers keep the invariant\<close>

definition steady :: "worker \<Rightarrow> worker \<Rightarrow> bool" where
  "steady w w' \<longleftrightarrow> wopts w' = wopts w \<and> dataChan w' = dataChan w \<and> wpermits w' \<le> wpermits w \<and> (retries_ok w \<longrightarrow> retries_ok w') \<and>
     (no_callback w \<longrightarrow> no_callback w' \<and> wstate w' = wstate w \<and> chansClosed w' = chansClosed w \<and> closeLeft w' = closeLeft w)"

lemma steady_refl [simp]: "steady w w"
  by (simp add: steady_def)

lemma steady_trans [trans]: "steady w w' \<Longrightarrow> steady w' w'' \<Longrightarrow> steady w w''"
  by (simp add: steady_def)

lemma frame_steady: "frame w w' \<Longrightarrow> steady w w'"
  by (simp add: frame_def steady_def)

lemma steady_pending [simp]:
  "steady w (u\<lparr>pendingBatches := x\<rparr>) = steady w u" "steady (w\<lparr>pendingBatches := x\<rparr>) u = steady w u"
  by (simp_all add: steady_def no_callback_def retries_ok_def)

lemma start_batch:
  assumes b: "base T R w X" and k: "map_of (pendingBatches w) pendingKey = None" and s: "startBatch e w = (p, w1)"
  shows "base T R w1 X \<and> map_of (pendingBatches w1) pendingKey = Some p \<and> \<not> finished (heap w1 p) \<and> steady w w1"
proof -
  obtain w0 where g: "poolGet e w = (p, w0)" using s by (auto simp: startBatch_def split: prod.splits)
  from poolGet_cases [OF g baseD(3) [OF b]] obtain f n where
    w0: "w0 = w\<lparr>freeBatches := f, nextPtr := n\<rparr>" and c: "nextPtr w \<le> n" "n \<le> Suc (nextPtr w)" "p < n"
      "finished (heap w p)" "distinct f" "p \<notin> set f" "set f \<subseteq> set (freeBatches w)" by blast
  have w1: "w1 = w\<lparr>freeBatches := f, nextPtr := n, heap := (heap w)(p := newBatch e p w0), nuuid := nuuid w + 1,
      pendingBatches := mput pendingKey p (pendingBatches w)\<rparr>"
    using s by (simp add: startBatch_def g w0)
  have "dataReqs (heap w p) = []" using baseD(3) [OF b] c(4) by (simp add: heap_ok_def)
  then have "base T R w1 X"
    unfolding w1 using c by (intro base_new_batch [OF b] k) (simp_all add: newBatch_def w0 indexStr_def)
  moreover have "steady w w1"
    by (auto simp: w1 steady_def no_callback_def retries_ok_def newBatch_def)
  ultimately show ?thesis by (simp add: w1 newBatch_def)
qed

lemma pick_batch:
  assumes b: "base T R w X" and p: "pickBatch e req w = (p, w1)"
  shows "base T R w1 X \<and> map_of (pendingBatches w1) pendingKey = Some p \<and> \<not> finished (heap w1 p) \<and> steady w w1"
proof (cases "map_of (pendingBatches w) pendingKey")
  case None
  then show ?thesis using start_batch [OF b None] p by (simp add: pickBatch_def)
next
  case (Some q)
  let ?w = "(sendBatch e q True w)\<lparr>pendingBatches := mdel pendingKey (pendingBatches (sendBatch e q True w))\<rparr>"
  have q: "\<not> finished (heap w q)" by (rule tracked_live [OF b lookup_tracked(3) [OF Some]])
  have st: "steady w ?w" using frame_steady [OF frame_send, of w] by simp
  have "startBatch e ?w = (p, w1) \<Longrightarrow> ?thesis"
    using start_batch [OF base_send_pending [OF b Some], of e True e p w1] steady_trans [OF st] by simp
  then show ?thesis using p Some b q by (auto simp: pickBatch_def Let_def split: if_splits)
qed

lemma handleSendData_keeps:
  assumes b: "base T (add_mset req R) w X" and s: "rsemaphore req"
  shows "base T R (handleSendData e req w) X \<and> steady w (handleSendData e req w)"
proof -
  obtain p w1 where p: "pickBatch e req w = (p, w1)" by (cases "pickBatch e req w")
  from pick_batch [OF b p] have b1: "base T (add_mset req R) w1 X" and m: "map_of (pendingBatches w1) pendingKey = Some p"
    and l: "\<not> finished (heap w1 p)" and st: "steady w w1" by auto
  let ?w2 = "setb p (batch_append req) w1"
  have b2: "base T R ?w2 X" by (rule base_append [OF b1 l s])
  have "frame w1 ?w2" by (rule frame_setb) (simp_all add: batch_append_def)
  with st have st2: "steady w ?w2" by (meson steady_trans frame_steady)
  have "steady w (sendBatch e p True ?w2)" by (rule steady_trans [OF st2 frame_steady [OF frame_send]])
  with base_send_pending [OF b2] b2 st2 m show ?thesis
    unfolding handleSendData_def p by (simp add: Let_def)
qed

end
