(* ===== verification/Worker_Run.thy ===== *)
theory Worker_Run
  imports Worker_Inv
begin

text \<open>
  Runs of a worker: the event loop of \<^verbatim>\<open>worker.start\<close> as a step function over the events that can
  happen next (its own channels and tickers, and what other goroutines do), the invariant over all
  interleavings of events, and the properties of the worker that follow from it. Each handler is one
  step, as in the source, where one goroutine runs them; \<^verbatim>\<open>handleClose\<close> is one step too.
\<close>

section \<open>Handlers keep the invariant\<close>

lemma fold_keeps:
  assumes "\<And>x w. I w \<Longrightarrow> I (f x w)" "I w"
  shows "I (fold f xs w)"
proof -
  have "keeps_invariant I f" using assms(1) by unfold_locales
  then show ?thesis by (rule keeps_invariant.keeps_fold) (rule assms(2))
qed

lemma steady_log [simp]: "steady w (u\<lparr>log := l\<rparr>) = steady w u"
  by (simp add: steady_def no_callback_def retries_ok_def)

lemma batchTick_keeps:
  assumes "base T R w X"
  shows "base T R (handleBatchTimeout e w) X \<and> steady w (handleBatchTimeout e w)"
  unfolding handleBatchTimeout_def
proof (rule fold_keeps)
  fix key u assume u: "base T R u X \<and> steady w u"
  have "steady w (sendBatch e p True u)" for p
    using u steady_trans [OF _ frame_steady [OF frame_send]] by blast
  with u base_send_pending [of T R u X key] show "base T R (batchTimeout_one e key u) X \<and> steady w (batchTimeout_one e key u)"
    by (auto simp: batchTimeout_one_def Let_def split: option.split)
qed (use assms in simp)

lemma sendTick_keeps:
  assumes "base T R w X"
  shows "base T R (handleSendTimeout e w) X \<and> steady w (handleSendTimeout e w)"
  unfolding handleSendTimeout_def
proof (rule fold_keeps)
  fix bid u assume u: "base T R u X \<and> steady w u"
  have "steady w (backoffRetry e p (u\<lparr>unackedBatches := mdel bid (unackedBatches u)\<rparr>))" for p
  proof -
    have "frame u (backoffRetry e p (u\<lparr>unackedBatches := mdel bid (unackedBatches u)\<rparr>))"
      by (rule wframe_trans [OF _ frame_backoff]) simp
    with u show ?thesis using steady_trans frame_steady by blast
  qed
  with u base_emit [OF base_backoff [OF base_take_unacked [of T R u X bid]]]
  show "base T R (sendTimeout_one e bid u) X \<and> steady w (sendTimeout_one e bid u)"
    by (auto simp: sendTimeout_one_def split: option.split)
qed (use assms in simp)

lemma retry_keeps:
  assumes b: "base T R w X"
  shows "base T R (handleRetry e (bid, p) r w) X \<and> frame w (handleRetry e (bid, p) r w)"
proof (cases "map_of (retryingBatches w) bid = Some p")
  case True
  let ?w = "emit [IncRetry] ((cancelTimer bid p w)\<lparr>retryingBatches := mdel bid (retryingBatches w)\<rparr>)"
  have "base T R ?w (p # X)" by (rule base_emit [OF base_take_retrying_cancel [OF b True]]) simp
  moreover have "frame w (sendBatch e p r ?w)" by (rule wframe_trans [OF _ frame_send]) simp
  ultimately show ?thesis using True base_send by (simp add: handleRetry_def)
qed (simp add: handleRetry_def b)

lemma rsp_keeps:
  assumes b: "base T R w X"
  shows "base T R (handleRsp e rsp w) X \<and> frame w (handleRsp e rsp w)"
  using base_done_unacked [OF b] base_done_retrying [OF b] base_emit [OF b] frame_done
  by (auto simp: handleRsp_def Let_def split: option.split)

lemma unpending_event:
  "base T R w X \<Longrightarrow> bid \<in> evids w \<Longrightarrow> q \<in> snd ` set (pendingBatches w) \<Longrightarrow> batchID (heap w q) \<noteq> bid"
  by (drule baseD(9)) (auto simp: ev_ok_def)

lemma done_keeps:
  assumes b: "base T R w []" and d: "doneBatches w = (bid, p, er) # ds"
  shows "base T R (doneBatch e bid p er (w\<lparr>doneBatches := ds\<rparr>)) [] \<and> frame w (doneBatch e bid p er (w\<lparr>doneBatches := ds\<rparr>))"
proof -
  have v: "\<not> isV1 (wopts w)" "isV3 (wopts w)"
    using baseD(1,12) [OF b] d by (auto simp: v1_done_def one_version_def)
  have "base T R (w\<lparr>doneBatches := ds\<rparr>) []"
    by (rule base_view [OF _ _ b]) (auto simp: view_def v1_done_def v evids_def d)
  moreover have "bid \<in> evids w" by (simp add: evids_def d)
  ultimately have "base T R (doneBatch e bid p er (w\<lparr>doneBatches := ds\<rparr>)) []"
    using unpending_event [OF b] v by (intro base_done_event) auto
  moreover have "frame w (doneBatch e bid p er (w\<lparr>doneBatches := ds\<rparr>))"
    by (rule wframe_trans [OF _ frame_done]) simp
  ultimately show ?thesis by simp
qed

text \<open>The failed write: with V3 the batch must still be waiting for its response, with V1 the
  report itself is what tracks it.\<close>

lemma failed_keeps:
  assumes b: "base T R w []" and f: "sendFailedBatches w = (bid, p, r) # fs"
  shows "base T R (handleSendFailed e (bid, p, r) (w\<lparr>sendFailedBatches := fs\<rparr>)) [] \<and>
    frame w (handleSendFailed e (bid, p, r) (w\<lparr>sendFailedBatches := fs\<rparr>))"
proof -
  let ?w = "w\<lparr>sendFailedBatches := fs\<rparr>"
  let ?u = "?w\<lparr>unackedBatches := mdel bid (unackedBatches w)\<rparr>"
  have fr: "frame w (backoffRetry e p u) \<and> frame w (doneBatch e bid p er u)" if "frame w u" for u er
    using wframe_trans [OF that frame_backoff] wframe_trans [OF that frame_done] by blast
  have hand: "base T R (backoffRetry e p u) [] \<and> base T R (doneBatch e bid p er u) []"
    if "base T R u [p]" "batchID (heap u p) = bid" for u er
    using base_backoff [OF that(1)] base_done_hand [OF that(1)] that(2) by simp
  show ?thesis
  proof (cases "isV3 (wopts w)")
    case True
    then have v: "\<not> isV1 (wopts w)" using baseD(1) [OF b] by (simp add: one_version_def)
    have b': "base T R ?w []" by (rule base_view [OF _ _ b]) (auto simp: view_def flights_def v evids_def f)
    have "base T R ?u [p]" "batchID (heap w p) = bid" if "map_of (unackedBatches w) bid = Some p"
      using base_take_unacked [OF b', of bid p] that keyed_lookup [OF baseD(6) [OF b] that] by simp_all
    with b' True hand [of ?u] fr [of ?u] show ?thesis by (simp add: handleSendFailed_def Let_def)
  next
    case False
    then have v: "isV1 (wopts w)" using baseD(1) [OF b] by (simp add: one_version_def)
    have "base T R (w\<lparr>inflight := inflight w, sendFailedBatches := fs\<rparr>) [p]"
      by (rule base_flights [OF b v]) (auto simp: f)
    then have "base T R ?w [p]" by simp
    moreover have "batchID (heap w p) = bid"
      using baseD(11) [OF b] v by (auto simp: flight_ok_def flights_def f)
    ultimately show ?thesis using False hand [of ?w] fr [of ?w] by (simp add: handleSendFailed_def Let_def)
  qed
qed

section \<open>What other goroutines do\<close>

lemma frame_updateConnAsync [simp]: "frame w (updateConnAsync er u) = frame w u"
  by (simp add: updateConnAsync_def)

lemma updateConnAsync_view: "view (updateConnAsync er w) = view w" "evids (updateConnAsync er w) = evids w"
  by (simp_all add: updateConnAsync_def view_def)

lemma frame_onErrCallback: "frame w (onErrCallback bid p r w)"
  by (simp add: onErrCallback_def doneBatchAsync_def Let_def)

lemma updateConnAsync_simps [simp]:
  "chansClosed (updateConnAsync er w) = chansClosed w" "wopts (updateConnAsync er w) = wopts w"
  "inflight (updateConnAsync er w) = inflight w" "sendFailedBatches (updateConnAsync er w) = sendFailedBatches w"
  "doneBatches (updateConnAsync er w) = doneBatches w" "wstate (updateConnAsync er w) = wstate w"
  "pendingBatches (updateConnAsync er w) = pendingBatches w" "unackedBatches (updateConnAsync er w) = unackedBatches w"
  "retryingBatches (updateConnAsync er w) = retryingBatches w" "heap (updateConnAsync er w) = heap w"
  "dataChan (updateConnAsync er w) = dataChan w" "closeLeft (updateConnAsync er w) = closeLeft w"
  by (simp_all add: updateConnAsync_def)

lemma drop_nth_mset: "i < length xs \<Longrightarrow> mset xs = add_mset (xs ! i) (mset (take i xs @ drop (Suc i) xs))"
  by (metis Cons_nth_drop_Suc append_take_drop_id mset_append union_mset_add_mset_right mset.simps(2))

lemma set_drop_nth: "set (take i xs @ drop (Suc i) xs) \<subseteq> set xs"
  by (auto dest: in_set_takeD in_set_dropD)

lemma writeCallback_v3:
  assumes b: "base T R w []" and i: "i < length (inflight w)" "inflight w ! i = (bid, p, r)" and v: "isV3 (wopts w)"
  shows "base T R (writeCallback e i er w) []"
proof -
  have v1: "\<not> isV1 (wopts w)" using baseD(1) [OF b] v by (simp add: one_version_def)
  let ?w = "w\<lparr>inflight := take i (inflight w) @ drop (Suc i) (inflight w)\<rparr>"
  have bid: "bid \<in> fst ` set (inflight w)" using nth_mem [OF i(1)] i(2) by force
  have b1: "base T R ?w []"
    using set_drop_nth [of i "inflight w"]
    by (intro base_view [OF _ _ b]) (auto simp: view_def flights_def v1 evids_def)
  have ev: "evids (onErrCallback bid p r ?w) \<subseteq> evids w"
    using bid set_drop_nth [of i "inflight w"]
    by (auto simp: onErrCallback_def doneBatchAsync_def Let_def evids_def updateConnAsync_def)
  have vw: "view (onErrCallback bid p r ?w) = view w"
    by (auto simp: view_def onErrCallback_def doneBatchAsync_def Let_def flights_def v1 v1_done_def whole_def updateConnAsync_def)
  from base_view [OF vw ev b] b1 show ?thesis
    by (simp add: writeCallback_def i Let_def onOK_def v1)
qed

lemma writeCallback_v1:
  assumes b: "base T R w []" and i: "i < length (inflight w)" "inflight w ! i = (bid, p, r)" and v: "isV1 (wopts w)"
    and ph: "chansClosed w = 0 \<longleftrightarrow> wstate w = stateReady"
  shows "base T R (writeCallback e i er w) []"
proof -
  let ?fl = "take i (inflight w) @ drop (Suc i) (inflight w)"
  let ?w = "w\<lparr>inflight := ?fl\<rparr>"
  have m: "mset (inflight w) = add_mset (bid, p, r) (mset ?fl)" using drop_nth_mset [OF i(1)] i(2) by simp
  have sub: "set ?fl \<subseteq> set (inflight w)" by (rule set_drop_nth)
  have mem: "(bid, p, r) \<in> set (inflight w)" using nth_mem [OF i(1)] i(2) by simp
  have id: "batchID (heap w p) = bid" using baseD(11) [OF b] v mem by (force simp: flight_ok_def flights_def)
  have "base T R (w\<lparr>inflight := ?fl, sendFailedBatches := sendFailedBatches w\<rparr>) [p]"
    using sub by (intro base_flights [OF b v]) (auto simp: m)
  then have b1: "base T R ?w [p]" by simp
  have ok: "base T R (onOK e bid p ?w) []" using base_done_hand [OF b1] id v by (simp add: onOK_def)
  have err: "base T R (onErrCallback bid p r ?w) []"
  proof (cases "wstate w = stateReady")
    case True
    have "base T R (w\<lparr>inflight := ?fl, sendFailedBatches := sendFailedBatches w @ [(bid, p, r)]\<rparr>) []"
      using sub mem by (intro base_flights [OF b v]) (auto simp: m)
    then show ?thesis
      by (rule base_view [rotated 2])
        (use True ph in \<open>auto simp: view_def onErrCallback_def Let_def flights_def whole_def v1_done_def evids_def updateConnAsync_def\<close>)
  next
    case False
    then have "\<not> whole ?w" using ph v baseD(1) [OF b] by (simp add: whole_def one_version_def)
    from base_let_go [OF b1 this] show ?thesis
      by (rule base_view [rotated 2])
        (use False ph in \<open>simp_all add: view_def onErrCallback_def doneBatchAsync_def Let_def\<close>)
  qed
  from ok err show ?thesis by (simp add: writeCallback_def i Let_def)
qed

lemma frame_writeCallback:
  assumes "inflight w ! i = (bid, p, r)"
  shows "frame w (writeCallback e i er w)"
proof -
  let ?w = "w\<lparr>inflight := take i (inflight w) @ drop (Suc i) (inflight w)\<rparr>"
  have "frame w ?w" by simp
  then show ?thesis
    using wframe_trans [OF _ frame_onErrCallback, of w ?w bid p r] wframe_trans [OF _ frame_done, of w ?w e bid p None]
    by (simp add: writeCallback_def assms Let_def onOK_def)
qed

lemma retryTimer_keeps:
  assumes b: "base T R w []" and i: "i < length (timers w)" "timers w ! i = (bid, p, n)"
    and ph: "isV1 (wopts w) \<Longrightarrow> chansClosed w = 0 \<longleftrightarrow> wstate w = stateReady"
  shows "base T R (retryTimer i w) []" and "frame w (retryTimer i w)"
proof -
  have bid: "bid \<in> fst ` set (timers w)" using nth_mem [OF i(1)] i(2) by force
  have "evids (retryTimer i w) \<subseteq> evids w"
    using bid set_drop_nth [of i "timers w"] by (auto simp: retryTimer_def i doneBatchAsync_def Let_def evids_def)
  moreover have "view (retryTimer i w) = view w"
    using ph by (auto simp: view_def retryTimer_def i doneBatchAsync_def Let_def v1_done_def)
  ultimately show "base T R (retryTimer i w) []" using base_view b by blast
  show "frame w (retryTimer i w)" by (simp add: retryTimer_def i doneBatchAsync_def Let_def)
qed

section \<open>Closing\<close>

lemma phase_dataChan [simp]:
  "retries_ok (w\<lparr>dataChan := x\<rparr>) = retries_ok w" "no_callback (w\<lparr>dataChan := x\<rparr>) = no_callback w"
  by (simp_all add: retries_ok_def no_callback_def)

lemma drainData_keeps:
  assumes "base T R w []" "dataChan w = rs"
  shows "base T R (drainData e rs w) [] \<and> steady (w\<lparr>dataChan := []\<rparr>) (drainData e rs w)"
  using assms
proof (induction rs arbitrary: w)
  case Nil
  then show ?case by (cases w) simp
next
  case (Cons r rs)
  let ?w = "w\<lparr>dataChan := rs\<rparr>"
  note ok = baseD [OF Cons.prems(1)]
  have held: "held w = add_mset r (held ?w)" using Cons.prems(2) by (simp add: held_def)
  have b: "base T (add_mset r R) ?w []"
    using Cons.prems(1) by (simp add: base_def held tracked_def)
  have sem: "rsemaphore r" using ok(10) by (simp add: ledger_def held)
  let ?u = "handleSendData e r ?w"
  from handleSendData_keeps [OF b sem, of e] have u: "base T R ?u []" "steady ?w ?u" by auto
  then have c: "dataChan ?u = rs" by (simp add: steady_def)
  from u have "steady (w\<lparr>dataChan := []\<rparr>) (?u\<lparr>dataChan := []\<rparr>)"
    by (simp add: steady_def)
  with Cons.IH [OF u(1) c] show ?case using steady_trans by simp
qed

text \<open>After a loop over the keys of a map, none of them is left in it.\<close>

lemma fold_deletes:
  assumes "\<And>k w. I w \<Longrightarrow> I (f k w) \<and> set (mkeys (m (f k w))) \<subseteq> set (mkeys (m w)) - {k}" "I w" "set ks = set (mkeys (m w))"
  shows "I (fold f ks w) \<and> m (fold f ks w) = []"
proof -
  have "I u \<Longrightarrow> I (fold f ks u) \<and> set (mkeys (m (fold f ks u))) \<subseteq> set (mkeys (m u)) - set ks" for ks u
  proof (induction ks arbitrary: u)
    case (Cons k ks)
    show ?case using Cons.IH [of "f k u"] assms(1) [OF Cons.prems, of k] by auto
  qed simp
  from this [OF assms(2), of ks] assms(3) show ?thesis by simp
qed

lemma keys_mdel: "set (mkeys (mdel k m)) = set (mkeys m) - {k}"
  by (induction m) auto

lemma flushPending_keeps:
  assumes b: "base T R w []" and o': "range_order (wOrd e)"
  shows "base T R (fold (flushPending_one e) (wOrd e (mkeys (pendingBatches w))) w) [] \<and>
    steady w (fold (flushPending_one e) (wOrd e (mkeys (pendingBatches w))) w) \<and>
    pendingBatches (fold (flushPending_one e) (wOrd e (mkeys (pendingBatches w))) w) = []"
proof -
  let ?I = "\<lambda>u. base T R u [] \<and> steady w u"
  have one: "?I (flushPending_one e k u) \<and>
      set (mkeys (pendingBatches (flushPending_one e k u))) \<subseteq> set (mkeys (pendingBatches u)) - {k}" if u: "?I u" for k u
  proof (cases "map_of (pendingBatches u) k")
    case None
    then have "k \<notin> set (mkeys (pendingBatches u))" by (simp add: map_of_eq_None_iff)
    with None u show ?thesis by (simp add: flushPending_one_def)
  next
    case (Some p)
    let ?u = "u\<lparr>pendingBatches := mdel k (pendingBatches u)\<rparr>"
    have "steady w (sendBatch e p False ?u)"
      using u by (intro steady_trans [OF _ frame_steady [OF frame_send]]) simp
    moreover have "pendingBatches (sendBatch e p False ?u) = mdel k (pendingBatches u)"
      using frame_send [of ?u e p False] by (simp add: frame_def)
    moreover have "base T R (sendBatch e p False ?u) []"
      using u base_send [OF base_take_pending [OF _ Some]] by blast
    ultimately show ?thesis using Some by (simp add: flushPending_one_def keys_mdel del: set_map)
  qed
  from fold_deletes [of ?I "flushPending_one e" pendingBatches, OF one] range_orderD(2) [OF o' baseD(5) [OF b]] b
  show ?thesis by simp
qed

text \<open>Once the worker is closing, sending schedules no retry.\<close>

abbreviation rkeys :: "worker \<Rightarrow> string set" where
  "rkeys w \<equiv> set (mkeys (retryingBatches w))"

lemma finish_maps [simp]:
  "retryingBatches (finishBatch e p err w) = retryingBatches w" "unackedBatches (finishBatch e p err w) = unackedBatches w"
  "pendingBatches (finishBatch e p err w) = pendingBatches w" "dataChan (finishBatch e p err w) = dataChan w"
  "wopts (finishBatch e p err w) = wopts w" "doneBatches (finishBatch e p err w) = doneBatches w"
  "retryBatches (finishBatch e p err w) = retryBatches w"
  by (simp_all add: finishBatch_def batchCallback_def closeAll_def Let_def split: prod.split)

lemma rkeys_done: "rkeys (doneBatch e bid p err w) \<subseteq> rkeys w"
  by (auto simp: doneBatch_def Let_def keys_mdel simp del: set_map split: option.split)

lemma rkeys_afterWrite: "rkeys (afterWrite e bid p r w) \<subseteq> rkeys w"
  using rkeys_done [of e bid p None w] by (simp add: afterWrite_def onOK_def Let_def)

lemma rkeys_onErrSync:
  assumes "wstate w \<noteq> stateReady"
  shows "rkeys (onErrSync e bid p c r w) \<subseteq> rkeys w"
  using assms rkeys_done [of e bid p "Some (ENo errConnWriteFailed)" "emit [IncError (strCode errConnWriteFailed)] w"]
  by (simp add: onErrSync_def Let_def)

lemma rkeys_send:
  assumes c: "wstate w \<noteq> stateReady"
  shows "rkeys (sendBatch e p r w) \<subseteq> rkeys w"
proof -
  let ?bid = "batchID (heap w p)" and ?w1 = "setb p (\<lambda>b. b\<lparr>lastSendTime := wnow e\<rparr>) w"
  obtain rs b sq where enc: "encode_batch (wext e) (wcenv e) (wopts ?w1) (sequence ?w1) (heap ?w1 p) = (rs, b, sq)"
    by (cases "encode_batch (wext e) (wcenv e) (wopts ?w1) (sequence ?w1) (heap ?w1 p)")
  let ?w2 = "?w1\<lparr>heap := (heap ?w1)(p := b), sequence := sq\<rparr>"
  let ?w3 = "\<lambda>bs. emit [AsyncWrite (wconn ?w1) bs]
    (?w1\<lparr>heap := (heap ?w1)(p := b\<lparr>lastSendServerAddr := remoteAddr e (wconn ?w1)\<rparr>), sequence := sq, nwrite := nwrite ?w1 + 1\<rparr>)"
  have "rkeys ?w2 = rkeys w" "rkeys (?w3 bs) = rkeys w" "wstate (?w3 bs) \<noteq> stateReady" for bs using c by simp_all
  then show ?thesis
    using rkeys_done [of e ?bid p _ w] rkeys_done [of e ?bid p _ ?w2] rkeys_onErrSync [of "?w3 _" e ?bid p _ r]
      rkeys_afterWrite [of e ?bid p r "?w3 _"]
    unfolding sendBatch_def Let_def enc by (simp split: sum.split option.split)
qed

lemma done_queues [simp]:
  "doneBatches (doneBatch e bid p err w) = doneBatches w" "retryBatches (doneBatch e bid p err w) = retryBatches w"
  by (auto simp: doneBatch_def Let_def cancelTimer_def split: option.split)

lemma backoff_queue [simp]: "retryBatches (backoffRetry e p w) = retryBatches w"
  by (simp add: backoffRetry_def Let_def)

lemma updateConn_queue [simp]: "retryBatches (updateConn e old err w) = retryBatches w"
  by (auto simp: updateConn_def casConn_def Let_def split: sum.split)

lemma send_queue [simp]: "retryBatches (sendBatch e p r w) = retryBatches w"
  by (simp add: sendBatch_def onErrSync_def afterWrite_def onOK_def Let_def split: sum.split prod.split option.split)

lemma drainDone_keeps:
  assumes "base T R w []" "isV3 (wopts w) \<or> ch = []" "pendingBatches w = []" "set ch \<subseteq> set (doneBatches w)"
  shows "base T R (drainDone e i ch w) [] \<and> frame w (drainDone e i ch w)"
  using assms
proof (induction e i ch w rule: drainDone.induct)
  case (1 e i ch w)
  show ?case
  proof (cases "i < length ch")
    case True
    obtain bid p err cs where ch: "ch = (bid, p, err) # cs" using True by (cases ch) auto
    let ?w = "doneBatch e bid p err w"
    have v: "isV3 (wopts w)" using "1.prems"(2) ch by simp
    have f: "frame w ?w" by (rule frame_done)
    have "base T R ?w []" using "1.prems" v by (intro base_done_event) auto
    moreover have "isV3 (wopts ?w) \<or> tl ch = []" "pendingBatches ?w = []" "set (tl ch) \<subseteq> set (doneBatches ?w)"
      using v f "1.prems"(3,4) ch by (auto simp: frame_def)
    ultimately have "base T R (drainDone e (Suc i) (tl ch) ?w) [] \<and> frame ?w (drainDone e (Suc i) (tl ch) ?w)"
      using "1.IH" [OF True, of bid "(p, err)" p err] ch by simp
    then show ?thesis using True ch wframe_trans [OF f] by (subst (1 2) drainDone.simps) simp
  next
    case False
    have "\<not> v1_done (w\<lparr>doneBatches := ch\<rparr>)" using "1.prems"(2) baseD(1) [OF "1.prems"(1)]
      by (auto simp: v1_done_def one_version_def)
    then have "base T R (w\<lparr>doneBatches := ch\<rparr>) []"
      using "1.prems"(4) baseD(12) [OF "1.prems"(1)]
      by (intro base_view [OF _ _ "1.prems"(1)]) (auto simp: view_def evids_def)
    then show ?thesis using False by (subst (1 2) drainDone.simps) simp
  qed
qed

lemma drainRetry_keeps:
  assumes "base T R w []" "set ch \<subseteq> set (retryBatches w)"
  shows "base T R (drainRetry e i ch w) [] \<and> frame w (drainRetry e i ch w)"
  using assms
proof (induction e i ch w rule: drainRetry.induct)
  case (1 e i ch w)
  show ?case
  proof (cases "i < length ch")
    case True
    obtain bid p cs where ch: "ch = (bid, p) # cs" using True by (cases ch) auto
    let ?w = "handleRetry e (bid, p) False w"
    from retry_keeps [OF "1.prems"(1), of e bid p False] have w: "base T R ?w []" "frame w ?w" by auto
    have "retryBatches ?w = retryBatches w" by (simp add: handleRetry_def cancelTimer_def)
    then have "set (tl ch) \<subseteq> set (retryBatches ?w)" using "1.prems"(2) ch by simp
    then have "base T R (drainRetry e (Suc i) (tl ch) ?w) [] \<and> frame ?w (drainRetry e (Suc i) (tl ch) ?w)"
      using "1.IH" [OF True] w(1) ch by simp
    then show ?thesis using True ch wframe_trans [OF w(2)] by (subst (1 2) drainRetry.simps) simp
  next
    case False
    have "base T R (w\<lparr>retryBatches := ch\<rparr>) []"
      using "1.prems"(2) by (intro base_view [OF _ _ "1.prems"(1)]) (auto simp: view_def evids_def)
    then show ?thesis using False by (subst (1 2) drainRetry.simps) simp
  qed
qed

lemma flushRetrying_keeps:
  assumes b: "base T R w []" and o': "range_order (wOrd e)" and c: "wstate w \<noteq> stateReady" "no_callback w"
  shows "base T R (fold (flushRetrying_one e) (wOrd e (mkeys (retryingBatches w))) w) [] \<and>
    frame w (fold (flushRetrying_one e) (wOrd e (mkeys (retryingBatches w))) w) \<and>
    retryingBatches (fold (flushRetrying_one e) (wOrd e (mkeys (retryingBatches w))) w) = []"
proof -
  let ?I = "\<lambda>u. base T R u [] \<and> frame w u"
  have one: "?I (flushRetrying_one e k u) \<and> rkeys (flushRetrying_one e k u) \<subseteq> rkeys u - {k}" if u: "?I u" for k u
  proof (cases "map_of (retryingBatches u) k")
    case None
    then have "k \<notin> rkeys u" by (simp add: map_of_eq_None_iff)
    with None u show ?thesis by (simp add: flushRetrying_one_def)
  next
    case (Some p)
    let ?u = "(cancelTimer k p u)\<lparr>retryingBatches := mdel k (retryingBatches u)\<rparr>"
    have f: "frame w ?u" using u by simp
    have "wstate ?u \<noteq> stateReady" using u c by (simp add: frame_def)
    from rkeys_send [OF this, of e p False] have "rkeys (sendBatch e p False ?u) \<subseteq> rkeys u - {k}"
      by (simp add: keys_mdel del: set_map)
    moreover have "base T R (sendBatch e p False ?u) []" using u base_send [OF base_take_retrying_cancel [OF _ Some]] by blast
    ultimately show ?thesis using Some wframe_trans [OF f frame_send] by (simp add: flushRetrying_one_def)
  qed
  have "distinct (mkeys (retryingBatches w))" using baseD(7) [OF b] by (simp add: keyed_def)
  from fold_deletes [of ?I "flushRetrying_one e" retryingBatches, OF one] range_orderD(2) [OF o' this] b
  show ?thesis by simp
qed

text \<open>The three phases of a worker between steps: it accepts messages; it waits for the last responses; it is closed.\<close>

definition ready :: "worker \<Rightarrow> bool" where
  "ready w \<longleftrightarrow> wstate w = stateReady \<and> chansClosed w = 0 \<and> no_callback w"

definition waiting :: "worker \<Rightarrow> bool" where
  "waiting w \<longleftrightarrow> wstate w = stateClosing \<and> chansClosed w = 0 \<and> isV3 (wopts w) \<and> dataChan w = [] \<and>
     pendingBatches w = [] \<and> retryingBatches w = [] \<and> unackedBatches w \<noteq> [] \<and>
     closeLeft w = int (length (unackedBatches w)) \<and> (\<forall>p. bcallback (heap w p) \<longleftrightarrow> p \<in> snd ` set (unackedBatches w))"

definition closed :: "worker \<Rightarrow> bool" where
  "closed w \<longleftrightarrow> wstate w = stateClosed \<and> chansClosed w = 1 \<and> no_callback w \<and> dataChan w = [] \<and>
     pendingBatches w = [] \<and> retryingBatches w = [] \<and> unackedBatches w = []"

lemma register_eq:
  "registerCallbacks ks w = w\<lparr>heap := (\<lambda>p. (heap w p)\<lparr>bcallback := bcallback (heap w p) \<or> (\<exists>k \<in> set ks. map_of (unackedBatches w) k = Some p)\<rparr>)\<rparr>"
proof (induction ks arbitrary: w)
  case Nil
  show ?case by (simp add: registerCallbacks_def)
next
  case (Cons k ks)
  have step: "registerCallbacks (k # ks) w = registerCallbacks ks (case map_of (unackedBatches w) k of
      None \<Rightarrow> w | Some p \<Rightarrow> setb p (\<lambda>b. b\<lparr>bcallback := True\<rparr>) w)" by (simp add: registerCallbacks_def)
  show ?case
  proof (cases "map_of (unackedBatches w) k")
    case None
    then show ?thesis using Cons [of w] by (simp add: step)
  next
    case (Some p)
    then show ?thesis
      by (auto simp: step Cons [of "setb p (\<lambda>b. b\<lparr>bcallback := True\<rparr>) w"] fun_eq_iff)
  qed
qed

lemma base_register: "base T R w X \<Longrightarrow> base T R (registerCallbacks ks w) X"
  by (rule base_view) (simp_all add: register_eq view_def core_def)

lemma closeAll_closes: "closeAll w = closes (closeAll w) w"
  by (simp add: closeAll_def closes_def)

lemma base_closeAll:
  assumes b: "base T R w X"
  shows "base T R (closeAll w) X"
proof -
  have "base T R (w\<lparr>wstate := s, log := log w @ [PutConn c None]\<rparr>) X" for s c
    by (rule base_view [OF _ _ b]) (simp_all add: view_def)
  then have b1: "base T R (w\<lparr>wstate := stateClosed, log := log w @ [PutConn (wconn w) None]\<rparr>) X" .
  let ?w = "w\<lparr>wstate := stateClosed, log := log w @ [PutConn (wconn w) None]\<rparr>"
  have c: "closeAll w = ?w\<lparr>chansClosed := chansClosed w + 1\<rparr>" by (simp add: closeAll_def)
  have "whole (closeAll w) \<Longrightarrow> whole ?w" by (auto simp: whole_def closeAll_def)
  from trk_ok_mono [OF baseD(8) [OF b1] this] show ?thesis
    using b1 unfolding c by (simp add: base_def tracked_def)
qed

lemma closeFlush_keeps:
  assumes b: "base T {#} w []" and n: "no_callback w" and c: "wstate w \<noteq> stateReady" and o': "range_order (wOrd e)"
  shows "base T {#} (closeFlush e w) [] \<and> steady (w\<lparr>dataChan := []\<rparr>) (closeFlush e w) \<and>
    pendingBatches (closeFlush e w) = [] \<and> retryingBatches (closeFlush e w) = []"
proof -
  define w1 where "w1 = drainData e (dataChan w) w"
  define w2 where "w2 = fold (flushPending_one e) (wOrd e (mkeys (pendingBatches w1))) w1"
  define w3 where "w3 = drainDone e 0 (doneBatches w2) w2"
  define w4 where "w4 = drainRetry e 0 (retryBatches w3) w3"
  define w5 where "w5 = fold (flushRetrying_one e) (wOrd e (mkeys (retryingBatches w4))) w4"
  have eq: "closeFlush e w = w5" by (simp add: closeFlush_def w1_def w2_def w3_def w4_def w5_def Let_def)
  have b1: "base T {#} w1 []" and s1: "steady (w\<lparr>dataChan := []\<rparr>) w1"
    using drainData_keeps [OF b, of "dataChan w" e] by (simp_all add: w1_def)
  have b2: "base T {#} w2 []" and s2: "steady w1 w2" and p2: "pendingBatches w2 = []"
    using flushPending_keeps [OF b1 o'] by (simp_all add: w2_def)
  have "isV3 (wopts w2) \<or> doneBatches w2 = []" using baseD(1,12) [OF b2] by (auto simp: one_version_def v1_done_def)
  then have b3: "base T {#} w3 []" and f3: "frame w2 w3"
    using drainDone_keeps [OF b2 _ p2 subset_refl] by (simp_all add: w3_def)
  have b4: "base T {#} w4 []" and f4: "frame w3 w4"
    using drainRetry_keeps [OF b3 subset_refl] by (simp_all add: w4_def)
  have s4: "steady (w\<lparr>dataChan := []\<rparr>) w4"
    using s1 s2 frame_steady [OF f3] frame_steady [OF f4] by (meson steady_trans)
  then have c4: "wstate w4 \<noteq> stateReady" "no_callback w4" using n c by (simp_all add: steady_def)
  have b5: "base T {#} w5 []" and f5: "frame w4 w5" and r5: "retryingBatches w5 = []"
    using flushRetrying_keeps [OF b4 o' c4] by (simp_all add: w5_def)
  have "pendingBatches w5 = []" using p2 f3 f4 f5 by (simp add: frame_def)
  with b5 r5 steady_trans [OF s4 frame_steady [OF f5]] show ?thesis by (simp add: eq)
qed

lemma handleClose_keeps:
  assumes b: "base T {#} w []" and r: "ready w" and o': "range_order (wOrd e)"
  shows "base T {#} (handleClose e w) [] \<and> (retries_ok w \<longrightarrow> retries_ok (handleClose e w)) \<and>
    wopts (handleClose e w) = wopts w \<and> wpermits (handleClose e w) \<le> wpermits w \<and>
    (waiting (handleClose e w) \<or> closed (handleClose e w))"
proof -
  define w0 where "w0 = w\<lparr>wstate := stateClosing\<rparr>"
  have b0: "base T {#} w0 []" by (rule base_view [OF _ _ b]) (simp_all add: view_def w0_def)
  have n0: "no_callback w0" "wstate w0 = stateClosing" "chansClosed w0 = 0" "wpermits w0 = wpermits w"
      "wopts w0 = wopts w" "retries_ok w0 = retries_ok w"
    using r by (simp_all add: ready_def no_callback_def retries_ok_def w0_def)
  define u where "u = closeFlush e w0"
  have u: "base T {#} u []" "steady (w0\<lparr>dataChan := []\<rparr>) u" "pendingBatches u = []" "retryingBatches u = []"
    using closeFlush_keeps [OF b0 n0(1) _ o'] n0(2) by (simp_all add: u_def)
  have ph: "wstate u = stateClosing" "chansClosed u = 0" "no_callback u" "dataChan u = []"
      "wopts u = wopts w" "wpermits u \<le> wpermits w" "retries_ok w \<longrightarrow> retries_ok u"
    using u(2) n0 by (simp_all add: steady_def)
  define v where "v = u\<lparr>closeLeft := int (length (unackedBatches u))\<rparr>"
  have b6: "base T {#} v []" by (rule base_view [OF _ _ u(1)]) (simp_all add: view_def v_def)
  have eq: "handleClose e w = (if unackedBatches u = [] then closeAll v else registerCallbacks (wOrd e (mkeys (unackedBatches u))) v)"
    using r by (simp add: handleClose_def ready_def Let_def u_def v_def w0_def)
  show ?thesis
  proof (cases "unackedBatches u = []")
    case True
    then have "closed (closeAll v)" using ph u by (simp add: closed_def closeAll_def no_callback_def v_def)
    moreover have "base T {#} (closeAll v) []" by (rule base_closeAll [OF b6])
    ultimately show ?thesis using True ph by (simp add: eq closeAll_def retries_ok_def v_def)
  next
    case False
    let ?ks = "wOrd e (mkeys (unackedBatches u))"
    have v3: "isV3 (wopts w)" using False baseD(1,13) [OF u(1)] ph(5) by (auto simp: one_version_def)
    have k: "distinct (mkeys (unackedBatches u))" using baseD(6) [OF u(1)] by (simp add: keyed_def)
    have "(\<exists>x \<in> set ?ks. map_of (unackedBatches u) x = Some p) \<longleftrightarrow> p \<in> snd ` set (unackedBatches u)" for p
      using k unfolding range_orderD(2) [OF o' k] by (force simp: image_iff dest: map_of_SomeD)
    then have "waiting (registerCallbacks ?ks v)"
      using ph u v3 False by (simp add: waiting_def register_eq no_callback_def v_def)
    moreover have "base T {#} (registerCallbacks ?ks v) []" by (rule base_register [OF b6])
    ultimately show ?thesis using False ph by (simp add: eq register_eq retries_ok_def v_def)
  qed
qed

section \<open>Phases\<close>

definition phase :: "worker \<Rightarrow> bool" where
  "phase w \<longleftrightarrow> ready w \<or> waiting w \<or> closed w"

lemmas phase_defs = ready_def waiting_def closed_def no_callback_def

text \<open>The phases read neither the queues nor the connection.\<close>

lemma waiting_upd [simp]:
  "waiting (w\<lparr>doneBatches := a\<rparr>) = waiting w" "waiting (w\<lparr>sendFailedBatches := b\<rparr>) = waiting w"
  "waiting (w\<lparr>retryBatches := c\<rparr>) = waiting w" "waiting (w\<lparr>responseBatches := d\<rparr>) = waiting w"
  "waiting (w\<lparr>updateConnChan := f\<rparr>) = waiting w" "waiting (w\<lparr>inflight := g\<rparr>) = waiting w" "waiting (w\<lparr>timers := h\<rparr>) = waiting w"
  "waiting (w\<lparr>log := i\<rparr>) = waiting w" "waiting (w\<lparr>nconn := j\<rparr>) = waiting w" "waiting (w\<lparr>wconn := k\<rparr>) = waiting w"
  "waiting (w\<lparr>unackedBatchCount := n\<rparr>) = waiting w"
  by (simp_all add: phase_defs)

lemma closed_upd [simp]:
  "closed (w\<lparr>doneBatches := a\<rparr>) = closed w" "closed (w\<lparr>sendFailedBatches := b\<rparr>) = closed w"
  "closed (w\<lparr>retryBatches := c\<rparr>) = closed w" "closed (w\<lparr>responseBatches := d\<rparr>) = closed w"
  "closed (w\<lparr>updateConnChan := f\<rparr>) = closed w" "closed (w\<lparr>inflight := g\<rparr>) = closed w" "closed (w\<lparr>timers := h\<rparr>) = closed w"
  "closed (w\<lparr>log := i\<rparr>) = closed w" "closed (w\<lparr>nconn := j\<rparr>) = closed w" "closed (w\<lparr>wconn := k\<rparr>) = closed w"
  "closed (w\<lparr>unackedBatchCount := n\<rparr>) = closed w"
  by (simp_all add: phase_defs)

lemma ready_steady: "ready w \<Longrightarrow> steady w w' \<Longrightarrow> ready w'"
  by (simp add: ready_def steady_def)

lemma closed_done: "closed w \<Longrightarrow> closed (doneBatch e bid p err w)"
proof -
  assume c: "closed w"
  have "steady w (finishBatch e p err w)" by (rule frame_steady [OF frame_finish])
  with c have "closed (finishBatch e p err w)" by (simp add: closed_def steady_def)
  with c show ?thesis by (simp add: doneBatch_def closed_def)
qed

text \<open>While the worker waits, completing an unacknowledged batch counts down, and the last one closes the worker.\<close>

lemma done_take:
  assumes b: "base T R w X" and m: "map_of (unackedBatches w) bid = Some p"
  shows "doneBatch e bid p err w = finishBatch e p err (w\<lparr>unackedBatches := mdel bid (unackedBatches w)\<rparr>)"
    "doneBatch e bid p err (w\<lparr>unackedBatches := mdel bid (unackedBatches w)\<rparr>) =
     finishBatch e p err (w\<lparr>unackedBatches := mdel bid (unackedBatches w)\<rparr>)"
proof -
  have id: "batchID (heap w p) = bid" by (rule keyed_lookup [OF baseD(6) [OF b] m])
  have "map_of (retryingBatches w) bid = None" using in_hand(4) [OF base_take_unacked [OF b m]] id by simp
  with m id show "doneBatch e bid p err w = finishBatch e p err (w\<lparr>unackedBatches := mdel bid (unackedBatches w)\<rparr>)"
    "doneBatch e bid p err (w\<lparr>unackedBatches := mdel bid (unackedBatches w)\<rparr>) =
     finishBatch e p err (w\<lparr>unackedBatches := mdel bid (unackedBatches w)\<rparr>)"
    by (simp_all add: doneBatch_def)
qed

lemma mdel_one:
  assumes "distinct (mkeys m)" "distinct (map snd m)" "map_of m k = Some p"
  shows "length m = Suc (length (mdel k m))" "snd ` set (mdel k m) = snd ` set m - {p}"
proof -
  have e: "mset (map snd m) = add_mset p (mset (map snd (mdel k m)))" by (rule mset_mdel [OF assms(1,3)])
  from arg_cong [OF e, of size] show "length m = Suc (length (mdel k m))" by simp
  have "distinct (p # map snd (mdel k m))" using assms(2) mset_eq_imp_distinct_iff [of "map snd m" "p # map snd (mdel k m)"] e by simp
  moreover have "set (map snd m) = insert p (set (map snd (mdel k m)))" using arg_cong [OF e, of set_mset] by simp
  ultimately show "snd ` set (mdel k m) = snd ` set m - {p}" by auto
qed

lemma unacked_distinct:
  assumes "base T R w X"
  shows "distinct (map snd (unackedBatches w))"
proof -
  have "count (mset (map snd (unackedBatches w))) p \<le> 1" for p
  proof -
    have "count (mset (tracked w) + mset X) p \<le> 1" using baseD(8) [OF assms] by (simp only: trk_ok_def)
    then show ?thesis by (rule order_trans [rotated]) (rule mset_subset_eq_count, simp add: tracked_def)
  qed
  then show ?thesis by (simp add: distinct_count_atmost_1 le_Suc_eq count_eq_zero_iff set_mset_mset [symmetric] not_in_iff del: set_mset_mset)
qed

lemma waiting_take:
  assumes b: "base T {#} w []" and w: "waiting w" and m: "map_of (unackedBatches w) bid = Some p"
  shows "phase (finishBatch e p err (w\<lparr>unackedBatches := mdel bid (unackedBatches w)\<rparr>))"
proof -
  let ?U = "mdel bid (unackedBatches w)" and ?w = "w\<lparr>unackedBatches := mdel bid (unackedBatches w)\<rparr>"
  have "distinct (mkeys (unackedBatches w))" using baseD(6) [OF b] by (simp add: keyed_def)
  note one = mdel_one [OF this unacked_distinct [OF b] m]
  have live: "\<not> finished (heap w p)" by (rule tracked_live [OF b lookup_tracked(1) [OF m]])
  obtain b' as where d: "batch_done err (wnow e) (heap w p) = (b', as)" by (cases "batch_done err (wnow e) (heap w p)")
  note c = batch_done_counts [OF live d]
  have cb: "bcallback (heap w p)" using w m by (force simp: waiting_def dest: map_of_SomeD)
  have heap: "bcallback (((heap w)(p := b')) q) \<longleftrightarrow> q \<in> snd ` set ?U" for q
    using w c(7) one(2) by (simp add: waiting_def)
  have left: "closeLeft w - 1 = int (length ?U)" using w one(1) by (simp add: waiting_def)
  let ?v = "finishBatch e p err ?w"
  have v: "heap ?v = (heap w)(p := b')" "closeLeft ?v = int (length ?U)" "unackedBatches ?v = ?U"
      "wstate ?v = (if ?U = [] then stateClosed else stateClosing)" "chansClosed ?v = (if ?U = [] then 1 else 0)"
    using w cb c(4) left by (simp_all add: finishBatch_def d batchCallback_def closeAll_def Let_def waiting_def)
  show ?thesis
  proof (cases "?U = []")
    case True
    then have "closed ?v" using v w heap by (simp add: closed_def no_callback_def waiting_def del: fun_upd_apply)
    then show ?thesis by (simp add: phase_def)
  next
    case False
    then have "waiting ?v" using v w heap by (simp add: waiting_def del: fun_upd_apply)
    then show ?thesis by (simp add: phase_def)
  qed
qed

lemma waiting_done:
  assumes b: "base T {#} w []" and w: "waiting w"
  shows "phase (doneBatch e bid p err w)"
proof (cases "finished (heap w p) \<or> batchID (heap w p) \<noteq> bid")
  case True
  from stale_done [OF b this] w show ?thesis by (simp add: phase_def)
next
  case False
  have "isV3 (wopts w)" "pendingBatches w = []" "map_of (retryingBatches w) bid = None" using w by (simp_all add: waiting_def)
  with lookup_own [OF b, of p bid] False have "map_of (unackedBatches w) bid = Some p" by auto
  then show ?thesis using done_take(1) [OF b] waiting_take [OF b w] by simp
qed

lemma phase_done:
  assumes b: "base T {#} w []" and w: "phase w"
  shows "phase (doneBatch e bid p err w)"
  using w waiting_done [OF b] closed_done ready_steady [OF _ frame_steady [OF frame_done]]
  unfolding phase_def by blast

lemma backoff_not_ready:
  assumes "wstate w \<noteq> stateReady" "\<not> mhas (retryingBatches w) (batchID (heap w p))"
  shows "backoffRetry e p w = doneBatch e (batchID (heap w p)) p (Some (ENo errSendTimeout)) w"
  using assms by (simp add: backoffRetry_def Let_def)

lemma waiting_sendTimeout:
  assumes b: "base T {#} w []" and w: "waiting w \<or> closed w"
  shows "waiting (sendTimeout_one e bid w) \<or> closed (sendTimeout_one e bid w)"
proof (cases "map_of (unackedBatches w) bid")
  case (Some p)
  let ?w = "w\<lparr>unackedBatches := mdel bid (unackedBatches w)\<rparr>"
  have wt: "waiting w" using w Some by (auto simp: closed_def)
  have id: "batchID (heap w p) = bid" by (rule keyed_lookup [OF baseD(6) [OF b] Some])
  have "backoffRetry e p ?w = doneBatch e bid p (Some (ENo errSendTimeout)) ?w"
    using wt id by (subst backoff_not_ready) (simp_all add: waiting_def)
  then have "backoffRetry e p ?w = finishBatch e p (Some (ENo errSendTimeout)) ?w" using done_take(2) [OF b Some] by simp
  moreover have "phase (finishBatch e p (Some (ENo errSendTimeout)) ?w)" by (rule waiting_take [OF b wt Some])
  moreover have "\<not> ready (finishBatch e p er ?w)" for er
    using wt by (simp add: waiting_def ready_def finishBatch_def batchCallback_def closeAll_def Let_def split: prod.split)
  ultimately show ?thesis using w Some by (auto simp: sendTimeout_one_def phase_def)
qed (use w in \<open>simp add: sendTimeout_one_def\<close>)

section \<open>The event loop\<close>

datatype event =
    Send gotime bool nat Message bool bool
  | TakeData
  | CloseCmd
  | BatchTick
  | SendTick
  | CleanTick
  | ConnTick
  | TakeConn
  | TakeDone
  | TakeFailed
  | TakeRetry
  | TakeRsp
  | WriteDone nat "string option"
  | TimerFires nat
  | RspArrives batchRsp
  | ConnLost conn "goerror option"

text \<open>One event: a case of the \<^verbatim>\<open>select\<close> in \<^verbatim>\<open>worker.start\<close>, or an action of another goroutine. \<open>None\<close>: the
  event cannot happen (the channel is empty, the ticker was stopped, the timer was cancelled).\<close>

fun wstep :: "worker_env \<Rightarrow> event \<Rightarrow> worker \<Rightarrow> worker option" where
  "wstep e (Send now acquired i m cb fl) w = Some (doSendAsync now acquired i m cb fl w)"
| "wstep e TakeData w =
     (case dataChan w of [] \<Rightarrow> None | r # rs \<Rightarrow> Some (handleSendData e r (w\<lparr>dataChan := rs\<rparr>)))"
| "wstep e CloseCmd w = (if chansClosed w = 0 then Some (handleClose e w) else None)"
| "wstep e BatchTick w = (if wstate w = stateReady then Some (handleBatchTimeout e w) else None)"
| "wstep e SendTick w = (if \<not> isV1 (wopts w) \<and> chansClosed w = 0 then Some (handleSendTimeout e w) else None)"
| "wstep e CleanTick w = (if \<not> isV1 (wopts w) \<and> wstate w = stateReady then Some (handleCleanMap w) else None)"
| "wstep e ConnTick w = (if wstate w = stateReady then Some (updateConn e None None w) else None)"
| "wstep e TakeConn w =
     (case updateConnChan w of [] \<Rightarrow> None | er # es \<Rightarrow> Some (updateConn e None er (w\<lparr>updateConnChan := es\<rparr>)))"
| "wstep e TakeDone w =
     (case doneBatches w of [] \<Rightarrow> None | (bid, p, er) # ds \<Rightarrow> Some (doneBatch e bid p er (w\<lparr>doneBatches := ds\<rparr>)))"
| "wstep e TakeFailed w =
     (case sendFailedBatches w of [] \<Rightarrow> None | f # fs \<Rightarrow> Some (handleSendFailed e f (w\<lparr>sendFailedBatches := fs\<rparr>)))"
| "wstep e TakeRetry w =
     (case retryBatches w of [] \<Rightarrow> None | r # rs \<Rightarrow> Some (handleRetry e r True (w\<lparr>retryBatches := rs\<rparr>)))"
| "wstep e TakeRsp w =
     (case responseBatches w of [] \<Rightarrow> None | r # rs \<Rightarrow> Some (handleRsp e r (w\<lparr>responseBatches := rs\<rparr>)))"
| "wstep e (WriteDone i er) w = (if i < length (inflight w) then Some (writeCallback e i er w) else None)"
| "wstep e (TimerFires i) w = (if i < length (timers w) then Some (retryTimer i w) else None)"
| "wstep e (RspArrives rsp) w = Some (onRsp rsp w)"
| "wstep e (ConnLost c er) w = Some (onConnClosed c er w)"

definition submitted :: "event \<Rightarrow> nat list" where
  "submitted ev = (case ev of Send now acquired i m cb fl \<Rightarrow> if cb then [i] else [] | _ \<Rightarrow> [])"

definition winv :: "(nat \<Rightarrow> nat) \<Rightarrow> worker \<Rightarrow> bool" where
  "winv T w \<longleftrightarrow> base T {#} w [] \<and> retries_ok w \<and> wpermits w \<le> max 0 (MaxPendingMessages (wopts w)) \<and> phase w"

lemma winvI:
  assumes "winv T w" "base T {#} w' []" "steady w w'" "ready w \<or> phase w'"
  shows "winv T w'"
  using assms ready_steady [of w w'] by (auto simp: winv_def steady_def phase_def)

lemma tracked_upd [simp]:
  "tracked (w\<lparr>log := l\<rparr>) = tracked w" "tracked (w\<lparr>dataChan := d\<rparr>) = tracked w" "tracked (w\<lparr>wpermits := n\<rparr>) = tracked w"
  by (simp_all add: tracked_def)

lemma send_keeps:
  assumes w: "winv T w"
  shows "winv (\<lambda>j. T j + of_bool (cb \<and> j = i)) (doSendAsync now acquired i m cb fl w)" (is "winv ?T ?w")
proof -
  let ?req = "\<lparr>rid = i, msg = m, flushImmediately = fl, publishTime = now, rcallback = cb,
                 rsemaphore = True, rmetrics = True, rpool = True\<rparr>"
  let ?rq = "\<lparr>rid = i, msg = m, flushImmediately = fl, publishTime = now, rcallback = cb,
                 rsemaphore = False, rmetrics = True, rpool = True\<rparr>"
  let ?rej = "\<lambda>er. reject ?rq er w" and ?acc = "emit [IncPending] (w\<lparr>wpermits := wpermits w + 1, dataChan := dataChan w @ [?req]\<rparr>)"
  have b: "base T {#} w []" and ok: "retries_ok w" "phase w" using w by (auto simp: winv_def)
  have rc: "calls j (snd (req_done er c ?rq)) = of_bool (cb \<and> j = i)" for j er c
    by (simp add: req_done_counts) blast
  have "ledger ?T (held w + {#}) (wpermits w) (\<lambda>j. calls j (log w) + of_bool (cb \<and> j = i))"
    using baseD(10) [OF b] by (simp add: ledger_def)
  then have rej: "base ?T {#} (?rej er) []" for er
    using b by (simp add: base_def reject_def rc del: of_bool_conj)
  have "ledger ?T (add_mset ?req (held w)) (wpermits w + 1) (\<lambda>j. calls j (log w))"
    using baseD(10) [OF b] by (auto simp: ledger_def add.assoc)
  moreover have "held ?acc = add_mset ?req (held w)" by (simp add: held_def)
  ultimately have acc: "base ?T {#} ?acc []" using b by (simp add: base_def)
  have r: "winv ?T (?rej er)" for er
    using rej [of er] w by (auto simp: winv_def reject_def phase_def phase_defs retries_ok_def)
  have a: "winv ?T ?acc" if "wstate w = stateReady" "available w"
    using acc w that by (auto simp: winv_def phase_def phase_defs retries_ok_def available_def)
  have "?w = ?acc \<and> wstate w = stateReady \<and> available w \<or> (\<exists>er. ?w = ?rej er)"
    by (auto simp: doSendAsync_def Let_def)
  with r a show ?thesis by auto
qed

lemma winvD: "winv T w \<Longrightarrow> base T {#} w []" "winv T w \<Longrightarrow> phase w"
  by (simp_all add: winv_def)

lemma v1_phase: "winv T w \<Longrightarrow> isV1 (wopts w) \<Longrightarrow> chansClosed w = 0 \<longleftrightarrow> wstate w = stateReady"
  using baseD(1) [OF winvD(1)] by (auto simp: winv_def phase_def phase_defs one_version_def)

lemma phase_same:
  assumes "phase w" "view w' = view w" "wstate w' = wstate w" "chansClosed w' = chansClosed w" "closeLeft w' = closeLeft w"
    "\<And>p. bcallback (heap w' p) = bcallback (heap w p)"
  shows "phase w'"
  using assms by (simp add: phase_def phase_defs view_def)

lemma step_data: "winv T w \<Longrightarrow> dataChan w = r # rs \<Longrightarrow> winv T (handleSendData e r (w\<lparr>dataChan := rs\<rparr>))"
proof -
  assume w: "winv T w" and d: "dataChan w = r # rs"
  let ?w = "w\<lparr>dataChan := rs\<rparr>"
  have rd: "ready w" using winvD(2) [OF w] d by (auto simp: phase_def waiting_def closed_def)
  have held: "held w = add_mset r (held ?w)" using d by (simp add: held_def)
  have b: "base T (add_mset r {#}) ?w []" using winvD(1) [OF w] by (simp add: base_def held)
  have "rsemaphore r" using baseD(10) [OF winvD(1) [OF w]] by (simp add: ledger_def held)
  from handleSendData_keeps [OF b this, of e] have u: "base T {#} (handleSendData e r ?w) []" "steady ?w (handleSendData e r ?w)" by auto
  have "ready ?w" using rd by (simp add: ready_def)
  from ready_steady [OF this u(2)] u w show ?thesis by (simp add: winv_def steady_def phase_def)
qed

lemma step_close:
  assumes w: "winv T w" and o': "range_order (wOrd e)"
  shows "winv T (handleClose e w)"
proof (cases "wstate w = stateReady")
  case True
  then have "ready w" using winvD(2) [OF w] by (auto simp: phase_def phase_defs)
  from handleClose_keeps [OF winvD(1) [OF w] this o'] w show ?thesis by (auto simp: winv_def phase_def)
qed (simp add: handleClose_def w)

lemma step_sendTick: "winv T w \<Longrightarrow> winv T (handleSendTimeout e w)"
proof (rule winvI)
  assume w: "winv T w"
  note k = sendTick_keeps [OF winvD(1) [OF w], of e]
  show "base T {#} (handleSendTimeout e w) []" "steady w (handleSendTimeout e w)" using k by auto
  have "(base T {#} u [] \<and> (waiting u \<or> closed u)) \<Longrightarrow>
      (base T {#} (sendTimeout_one e x u) [] \<and> (waiting (sendTimeout_one e x u) \<or> closed (sendTimeout_one e x u)))" for x u
    using waiting_sendTimeout [of T u e x] base_emit [OF base_backoff [OF base_take_unacked [of T "{#}" u "[]" x]]]
    by (auto simp: sendTimeout_one_def split: option.split)
  from fold_keeps [of "\<lambda>u. base T {#} u [] \<and> (waiting u \<or> closed u)" "sendTimeout_one e", OF this] winvD [OF w]
  show "ready w \<or> phase (handleSendTimeout e w)" by (auto simp: phase_def handleSendTimeout_def)
qed

lemma step_done:
  assumes w: "winv T w" and d: "doneBatches w = (bid, p, er) # ds"
  shows "winv T (doneBatch e bid p er (w\<lparr>doneBatches := ds\<rparr>))"
proof -
  let ?w = "w\<lparr>doneBatches := ds\<rparr>"
  note b = winvD(1) [OF w] note k = done_keeps [OF b d, of e]
  have v: "\<not> isV1 (wopts w)" using baseD(12) [OF b] d by (auto simp: v1_done_def)
  have "base T {#} ?w []" by (rule base_view [OF _ _ b]) (auto simp: view_def v1_done_def v evids_def d)
  moreover have "phase ?w" using winvD(2) [OF w] by (auto simp: phase_def ready_def no_callback_def)
  ultimately show ?thesis
    using phase_done k frame_steady by (intro winvI [OF w]) auto
qed

lemma step_rsp:
  assumes w: "winv T w" and r: "responseBatches w = rsp # rs"
  shows "winv T (handleRsp e rsp (w\<lparr>responseBatches := rs\<rparr>))"
proof -
  let ?w = "w\<lparr>responseBatches := rs\<rparr>"
  have b: "base T {#} ?w []" by (rule base_view [OF _ _ winvD(1) [OF w]]) (simp_all add: view_def)
  have ph: "phase ?w" using winvD(2) [OF w] by (auto simp: phase_def ready_def no_callback_def)
  have "phase (emit as ?w)" for as using ph by (auto simp: phase_def ready_def no_callback_def)
  then have "phase (handleRsp e rsp ?w)"
    using phase_done [OF b ph] by (auto simp: handleRsp_def Let_def split: option.split)
  moreover have "steady w (handleRsp e rsp ?w)"
    using rsp_keeps [OF b, of e rsp] by (intro frame_steady [OF wframe_trans [of w ?w]]) simp_all
  ultimately show ?thesis using rsp_keeps [OF b, of e rsp] by (intro winvI [OF w]) auto
qed

lemma step_retry:
  assumes w: "winv T w" and r: "retryBatches w = (bid, p) # rs"
  shows "winv T (handleRetry e (bid, p) True (w\<lparr>retryBatches := rs\<rparr>))"
proof -
  let ?w = "w\<lparr>retryBatches := rs\<rparr>"
  have b: "base T {#} ?w []" by (rule base_view [OF _ _ winvD(1) [OF w]]) (auto simp: view_def evids_def r)
  have "steady w (handleRetry e (bid, p) True ?w)"
    using retry_keeps [OF b, of e bid p True] by (intro frame_steady [OF wframe_trans [of w ?w]]) simp_all
  moreover have "ready w \<or> handleRetry e (bid, p) True ?w = ?w"
    using winvD(2) [OF w] by (auto simp: handleRetry_def phase_def waiting_def closed_def)
  then have "ready w \<or> phase (handleRetry e (bid, p) True ?w)" using winvD(2) [OF w] by (auto simp: phase_def)
  ultimately show ?thesis using retry_keeps [OF b, of e bid p True] by (intro winvI [OF w]) auto
qed

lemma step_failed:
  assumes w: "winv T w" and f: "sendFailedBatches w = (bid, p, r) # fs"
  shows "winv T (handleSendFailed e (bid, p, r) (w\<lparr>sendFailedBatches := fs\<rparr>))"
proof -
  let ?w = "w\<lparr>sendFailedBatches := fs\<rparr>"
  note b = winvD(1) [OF w] note k = failed_keeps [OF b f, of e]
  have "phase (handleSendFailed e (bid, p, r) ?w)" if wt: "waiting w"
  proof -
    have v: "isV3 (wopts w)" "\<not> isV1 (wopts w)" using wt baseD(1) [OF b] by (simp_all add: waiting_def one_version_def)
    have b': "base T {#} ?w []" by (rule base_view [OF _ _ b]) (auto simp: view_def flights_def v evids_def f)
    have "map_of (unackedBatches w) bid = Some p \<Longrightarrow> phase (finishBatch e p er (?w\<lparr>unackedBatches := mdel bid (unackedBatches w)\<rparr>))" for er
      using waiting_take [OF b', of bid p] wt by simp
    then show ?thesis
      using wt v done_take(2) [OF b', of bid p] by (auto simp: handleSendFailed_def Let_def waiting_def phase_def)
  qed
  moreover have "closed (handleSendFailed e (bid, p, r) ?w)" if "closed w"
    using that closed_done [of ?w e bid p "Some (ENo errConnWriteFailed)"]
    by (auto simp: handleSendFailed_def Let_def closed_def [of w])
  ultimately have "ready w \<or> phase (handleSendFailed e (bid, p, r) ?w)" using winvD(2) [OF w] by (auto simp: phase_def)
  with k frame_steady show ?thesis by (intro winvI [OF w]) auto
qed

lemma phase_queues:
  "phase (w\<lparr>inflight := a\<rparr>) = phase w" "phase (w\<lparr>timers := b\<rparr>) = phase w" "phase (w\<lparr>log := c\<rparr>) = phase w"
  "phase (w\<lparr>doneBatches := d\<rparr>) = phase w" "phase (w\<lparr>sendFailedBatches := f\<rparr>) = phase w"
  "phase (w\<lparr>updateConnChan := g\<rparr>) = phase w" "phase (w\<lparr>retryBatches := h\<rparr>) = phase w" "phase (w\<lparr>responseBatches := i\<rparr>) = phase w"
  by (simp_all add: phase_def ready_def no_callback_def)

lemma step_write:
  assumes w: "winv T w" and i: "i < length (inflight w)"
  shows "winv T (writeCallback e i er w)"
proof -
  obtain bid p r where f: "inflight w ! i = (bid, p, r)" by (cases "inflight w ! i")
  note b = winvD(1) [OF w]
  let ?w = "w\<lparr>inflight := take i (inflight w) @ drop (Suc i) (inflight w)\<rparr>"
  have "base T {#} (writeCallback e i er w) []"
    using writeCallback_v3 [OF b i f] writeCallback_v1 [OF b i f _ v1_phase [OF w]] baseD(1) [OF b]
    by (cases "isV1 (wopts w)") (simp_all add: one_version_def)
  moreover have "ready w \<or> phase (writeCallback e i er w)"
  proof -
    have "phase (onErrCallback bid p r ?w)"
      using winvD(2) [OF w] by (simp add: onErrCallback_def Let_def doneBatchAsync_def updateConnAsync_def phase_queues)
    moreover have "ready w \<or> phase (onOK e bid p ?w)"
    proof (cases "isV1 (wopts w)")
      case True
      then have "\<not> waiting w" using baseD(1) [OF b] by (simp add: waiting_def one_version_def)
      moreover have "closed w \<Longrightarrow> closed (onOK e bid p ?w)" using closed_done [of ?w e bid p None] by (simp add: onOK_def)
      ultimately show ?thesis using winvD(2) [OF w] by (auto simp: phase_def)
    next
      case False
      then show ?thesis using winvD(2) [OF w] by (simp add: onOK_def phase_queues)
    qed
    ultimately show ?thesis by (auto simp: writeCallback_def f Let_def)
  qed
  ultimately show ?thesis using frame_steady [OF frame_writeCallback [OF f]] by (intro winvI [OF w])
qed

lemma step_timer:
  assumes w: "winv T w" and i: "i < length (timers w)"
  shows "winv T (retryTimer i w)"
proof -
  obtain bid p n where f: "timers w ! i = (bid, p, n)" by (cases "timers w ! i")
  note k = retryTimer_keeps [OF winvD(1) [OF w] i f v1_phase [OF w]]
  have "phase (retryTimer i w)"
    using winvD(2) [OF w] by (simp add: retryTimer_def f Let_def doneBatchAsync_def phase_queues)
  with k frame_steady show ?thesis by (intro winvI [OF w]) auto
qed

lemma step_frame:
  assumes "winv T w" "view w' = view w" "evids w' \<subseteq> evids w" "frame w w'" "wstate w' = wstate w" "chansClosed w' = chansClosed w"
    "closeLeft w' = closeLeft w" "heap w' = heap w"
  shows "winv T w'"
  using assms(1) base_view [OF assms(2,3) winvD(1)] frame_steady [OF assms(4)] phase_same [OF winvD(2) assms(2)] assms(5-)
  by (intro winvI [OF assms(1)]) simp_all

lemma updateConn_phase [simp]:
  "wstate (updateConn e old err w) = wstate w" "chansClosed (updateConn e old err w) = chansClosed w"
  "closeLeft (updateConn e old err w) = closeLeft w"
  by (auto simp: updateConn_def casConn_def Let_def split: sum.split)

lemma step_conn: "winv T w \<Longrightarrow> winv T (updateConn e old err w)"
  by (erule step_frame) (simp_all add: view_updateConn evids_updateConn frame_updateConn)

lemma step_takeConn: "winv T w \<Longrightarrow> winv T (updateConn e old err (w\<lparr>updateConnChan := es\<rparr>))"
  by (rule step_conn, erule step_frame) (simp_all add: view_def)

lemma step_onRsp: "winv T w \<Longrightarrow> winv T (onRsp rsp w)"
  by (erule step_frame) (simp_all add: onRsp_def view_def)

lemma step_lost: "winv T w \<Longrightarrow> winv T (onConnClosed c er w)"
  by (erule step_frame) (simp_all add: onConnClosed_def updateConnAsync_def view_def)

lemma wstep_keeps:
  assumes w: "winv T w" and s: "wstep e ev w = Some w'" and o': "range_order (wOrd e)"
  shows "winv (\<lambda>j. T j + count_list (submitted ev) j) w'"
proof (cases ev)
  case (Send now acquired i m cb fl)
  have "(\<lambda>j. T j + count_list (submitted ev) j) = (\<lambda>j. T j + of_bool (cb \<and> j = i))"
    by (auto simp: submitted_def Send fun_eq_iff)
  then show ?thesis using send_keeps [OF w, of cb i now acquired m fl] s Send by simp
next
  case BatchTick
  then have "wstate w = stateReady" "w' = handleBatchTimeout e w" using s by (auto split: if_splits)
  moreover from this have "ready w" using winvD(2) [OF w] by (auto simp: phase_def phase_defs)
  ultimately show ?thesis
    using batchTick_keeps [OF winvD(1) [OF w], of e] BatchTick by (auto simp: submitted_def intro: winvI [OF w])
next
  case CleanTick
  then have "w' = handleCleanMap w" using s by (auto split: if_splits)
  then show ?thesis using CleanTick w
    by (auto simp: submitted_def handleCleanMap_def view_def intro!: step_frame [OF w])
next
  case (RspArrives rsp)
  then show ?thesis using s step_onRsp [OF w] by (auto simp: submitted_def)
next
  case (ConnLost c er)
  then show ?thesis using s step_lost [OF w] by (auto simp: submitted_def)
next
  case CloseCmd
  then show ?thesis using s step_close [OF w o'] by (auto simp: submitted_def split: if_splits)
next
  case TakeData
  then show ?thesis using s step_data [OF w] by (auto simp: submitted_def split: list.splits)
next
  case TakeConn
  then show ?thesis using s step_takeConn [OF w] by (auto simp: submitted_def split: list.splits)
next
  case TakeDone
  then show ?thesis using s step_done [OF w] by (auto simp: submitted_def split: list.splits)
next
  case TakeFailed
  then show ?thesis using s step_failed [OF w] by (auto simp: submitted_def split: list.splits)
next
  case TakeRetry
  then show ?thesis using s step_retry [OF w] by (auto simp: submitted_def split: list.splits)
next
  case TakeRsp
  then show ?thesis using s step_rsp [OF w] by (auto simp: submitted_def split: list.splits)
qed (use s step_write [OF w] step_timer [OF w] step_sendTick [OF w] step_conn [OF w] in \<open>auto simp: submitted_def split: if_splits\<close>)

section \<open>Reachable workers\<close>

text \<open>A state of a run is the worker with the identifiers of the requests submitted so far (those with a
  callback). The environment may answer differently in every step.\<close>

type_synonym run_state = "nat list \<times> worker"

definition winit :: "run_state \<Rightarrow> bool" where
  "winit s \<longleftrightarrow> fst s = [] \<and> (\<exists>index o' uuids sq c. newWorker index o' uuids sq (Inr c) = Inr (snd s) \<and>
     inj uuids \<and> one_version o' \<and> 0 \<le> MaxRetries o')"

inductive wtrans :: "run_state \<Rightarrow> run_state \<Rightarrow> bool" where
  wtransI: "wstep e ev w = Some w' \<Longrightarrow> range_order (wOrd e) \<Longrightarrow> wtrans (subs, w) (submitted ev @ subs, w')"

inductive_cases wtransE: "wtrans s t"

abbreviation reachable :: "run_state \<Rightarrow> bool" where
  "reachable \<equiv> reach winit wtrans"

definition run_inv :: "run_state \<Rightarrow> bool" where
  "run_inv s \<longleftrightarrow> winv (count_list (fst s)) (snd s)"

lemma count_list_add: "count_list (xs @ ys) = (\<lambda>j. count_list ys j + count_list xs j)"
  by (simp add: fun_eq_iff)

lemma new_worker_inv:
  assumes "newWorker index o' uuids sq (Inr c) = Inr w" "inj uuids" "one_version o'" "0 \<le> MaxRetries o'"
  shows "winv (count_list []) w"
proof -
  have w: "heap w = (\<lambda>_. heap w 0)" "finished (heap w 0)" "dataReqs (heap w 0) = []" "\<not> bcallback (heap w 0)"
      "retries (heap w 0) = 0" "pendingBatches w = []" "unackedBatches w = []" "retryingBatches w = []" "dataChan w = []"
      "wpermits w = 0" "log w = []" "freeBatches w = []" "uuid w = uuids" "wopts w = o'" "wstate w = stateReady" "chansClosed w = 0"
      "nextPtr w = 0" "nuuid w = 0" "inflight w = []" "sendFailedBatches w = []" "doneBatches w = []" "timers w = []" "retryBatches w = []"
    using assms(1) by (auto simp: newWorker_def)
  have h: "finished (heap w p)" "dataReqs (heap w p) = []" "\<not> bcallback (heap w p)" "retries (heap w p) = 0" for p
    using w(2-5) by (subst w(1), simp)+
  show ?thesis
    using assms(2-) w(6-) h
    by (auto simp: winv_def base_def heap_ok_def ids_ok_def keyed_def trk_ok_def tracked_def flights_def ev_ok_def evids_def
        ledger_def held_def flight_ok_def v1_done_def retries_ok_def phase_def ready_def no_callback_def)
qed

interpretation run: inductive_invariant winit wtrans run_inv
proof
  fix s assume "winit s"
  then show "run_inv s" using new_worker_inv by (auto simp: winit_def run_inv_def)
next
  fix s t assume "run_inv s" "wtrans s t"
  then show "run_inv t"
    by (auto simp: run_inv_def count_list_add elim!: wtransE dest: wstep_keeps)
qed

lemma reachable_winv: "reachable (subs, w) \<Longrightarrow> winv (count_list subs) w"
  using run.reach_inv by (force simp: run_inv_def)

lemma reachable_base: "reachable (subs, w) \<Longrightarrow> base (count_list subs) {#} w []"
  using reachable_winv winvD(1) by blast

end
