(* ===== verification/Worker_Props.thy ===== *)
theory Worker_Props
  imports Worker_Run
begin

text \<open>
  What the invariant of the worker gives its users: every submitted request is called back exactly once or
  is still held, permits are accounted for, with V3 every unfinished batch has exactly one place, retries
  are bounded, closing completes everything, and events about recycled batches change nothing. The
  worker is also shown to refine a ledger of open requests.
\<close>

section \<open>The log only grows\<close>

text \<open>The index and the options of a worker never change either, closed channels stay closed and its state only moves up.\<close>

definition grows :: "worker \<Rightarrow> worker \<Rightarrow> bool" where
  "grows w w' \<longleftrightarrow> windex w' = windex w \<and> wopts w' = wopts w \<and> chansClosed w \<le> chansClosed w' \<and> wstate w \<le> wstate w' \<and> (\<exists>as. log w' = log w @ as)"

named_theorems grows_intros \<open>operations that only append to the log\<close>

lemma grows_refl [grows_intros]: "grows w w"
  by (simp add: grows_def)

lemma grows_trans: "grows w w' \<Longrightarrow> grows w' w'' \<Longrightarrow> grows w w''"
  by (auto simp: grows_def)

lemma grows_emit: "grows w u \<Longrightarrow> windex v = windex u \<Longrightarrow> wopts v = wopts u \<Longrightarrow> chansClosed u \<le> chansClosed v \<Longrightarrow>
    wstate u \<le> wstate v \<Longrightarrow> grows w (v\<lparr>log := log u @ as\<rparr>)"
  by (auto simp: grows_def)

lemma grows_log [simp]: "grows w (u\<lparr>unackedBatches := a\<rparr>) = grows w u" "grows w (u\<lparr>retryingBatches := b\<rparr>) = grows w u"
  "grows w (u\<lparr>pendingBatches := c\<rparr>) = grows w u" "grows w (u\<lparr>heap := d\<rparr>) = grows w u" "grows w (u\<lparr>timers := f\<rparr>) = grows w u"
  "grows w (u\<lparr>inflight := g\<rparr>) = grows w u" "grows w (u\<lparr>sequence := h\<rparr>) = grows w u" "grows w (u\<lparr>nwrite := i\<rparr>) = grows w u"
  "grows w (u\<lparr>nconn := j\<rparr>) = grows w u" "grows w (u\<lparr>wconn := k\<rparr>) = grows w u" "grows w (u\<lparr>unackedBatchCount := l\<rparr>) = grows w u"
  "grows w (u\<lparr>doneBatches := m\<rparr>) = grows w u" "grows w (u\<lparr>sendFailedBatches := n\<rparr>) = grows w u" "grows w (u\<lparr>retryBatches := p\<rparr>) = grows w u"
  "grows w (u\<lparr>responseBatches := q\<rparr>) = grows w u" "grows w (u\<lparr>updateConnChan := r\<rparr>) = grows w u"
  "grows w (u\<lparr>closeLeft := v\<rparr>) = grows w u" "grows w (u\<lparr>wpermits := x\<rparr>) = grows w u"
  "grows w (u\<lparr>freeBatches := y\<rparr>) = grows w u" "grows w (u\<lparr>nextPtr := z\<rparr>) = grows w u" "grows w (u\<lparr>nuuid := a'\<rparr>) = grows w u"
  "grows w (u\<lparr>dataChan := b'\<rparr>) = grows w u" "grows w (cancelTimer bid pt u) = grows w u"
  by (simp_all add: grows_def cancelTimer_def)

lemma grows_finish [grows_intros]: "grows w u \<Longrightarrow> grows w (finishBatch e p err u)"
  by (auto simp: grows_def finishBatch_def batchCallback_def closeAll_def Let_def split: prod.split)

lemma grows_done [grows_intros]: "grows w u \<Longrightarrow> grows w (doneBatch e bid p err u)"
  by (auto simp: doneBatch_def Let_def intro!: grows_finish split: option.split)

lemma grows_backoff [grows_intros]: "grows w u \<Longrightarrow> grows w (backoffRetry e p u)"
  by (simp add: backoffRetry_def Let_def grows_done)

lemma grows_updateConn [grows_intros]: "grows w u \<Longrightarrow> grows w (updateConn e old err u)"
  by (auto simp: updateConn_def casConn_def Let_def grows_def split: sum.split)

lemma grows_onErrSync [grows_intros]: "grows w u \<Longrightarrow> grows w (onErrSync e bid p c r u)"
  by (auto simp: onErrSync_def Let_def intro!: grows_intros grows_emit)

lemma grows_afterWrite [grows_intros]: "grows w u \<Longrightarrow> grows w (afterWrite e bid p r u)"
  by (simp add: afterWrite_def onOK_def Let_def grows_done)

lemma grows_send [grows_intros]: "grows w u \<Longrightarrow> grows w (sendBatch e p r u)"
  unfolding sendBatch_def Let_def
  by (auto intro!: grows_intros grows_emit split: sum.split prod.split option.split)

lemma grows_start: "startBatch e u = (p, u') \<Longrightarrow> grows w u \<Longrightarrow> grows w u'"
  by (auto simp: startBatch_def poolGet_def split: option.splits if_splits)

lemma grows_pick: "pickBatch e req u = (p, u') \<Longrightarrow> grows w u \<Longrightarrow> grows w u'"
  by (auto simp: pickBatch_def Let_def grows_send elim!: grows_start split: option.splits if_splits)

lemma grows_sendData [grows_intros]: "grows w u \<Longrightarrow> grows w (handleSendData e req u)"
  by (auto simp: handleSendData_def Let_def intro!: grows_send intro: grows_pick split: prod.split)

lemma grows_fold: "(\<And>x u. grows w u \<Longrightarrow> grows w (f x u)) \<Longrightarrow> grows w u \<Longrightarrow> grows w (fold f xs u)"
  by (rule fold_keeps)

lemma grows_retry [grows_intros]: "grows w u \<Longrightarrow> grows w (handleRetry e rq r u)"
  by (auto simp: handleRetry_def intro!: grows_send grows_emit split: prod.split)

lemma grows_drainData [grows_intros]: "grows w u \<Longrightarrow> grows w (drainData e rs u)"
  by (induction rs arbitrary: u) (simp_all add: grows_sendData)

lemma grows_drainDone [grows_intros]: "grows w u \<Longrightarrow> grows w (drainDone e i ch u)"
  by (induction e i ch u rule: drainDone.induct) (subst drainDone.simps, auto simp: grows_done split: prod.split)

lemma grows_drainRetry [grows_intros]: "grows w u \<Longrightarrow> grows w (drainRetry e i ch u)"
  by (induction e i ch u rule: drainRetry.induct) (subst drainRetry.simps, auto simp: grows_retry)

lemma grows_closeFlush [grows_intros]: "grows w u \<Longrightarrow> grows w (closeFlush e u)"
  unfolding closeFlush_def Let_def
  by (intro grows_fold grows_intros)
    (auto simp: flushPending_one_def flushRetrying_one_def intro: grows_send split: option.split)

lemma grows_close [grows_intros]: "grows w u \<Longrightarrow> grows w (handleClose e u)"
proof (cases "wstate u = stateReady")
  case True
  assume "grows w u"
  then have "grows w (u\<lparr>wstate := stateClosing\<rparr>)"
    using True by (auto simp: grows_def less_eq_workerState_def)
  then show ?thesis using True by (auto simp: handleClose_def Let_def closeAll_def register_eq intro!: grows_emit grows_closeFlush)
qed (simp add: handleClose_def)

lemma grows_batchTick [grows_intros]: "grows w u \<Longrightarrow> grows w (handleBatchTimeout e u)"
  unfolding handleBatchTimeout_def
  by (rule grows_fold) (auto simp: batchTimeout_one_def Let_def intro: grows_send split: option.split)

lemma grows_sendTick [grows_intros]: "grows w u \<Longrightarrow> grows w (handleSendTimeout e u)"
  unfolding handleSendTimeout_def
  by (rule grows_fold) (auto simp: sendTimeout_one_def intro!: grows_backoff grows_emit split: option.split)

lemma grows_async [grows_intros]: "grows w u \<Longrightarrow> grows w (doneBatchAsync bid p err u)"
  "grows w u \<Longrightarrow> grows w (updateConnAsync er u)"
  by (simp_all add: doneBatchAsync_def updateConnAsync_def)

lemma grows_wstep:
  assumes "wstep e ev w = Some w'"
  shows "grows w w'"
proof (cases ev)
  case (Send now acquired i m cb fl)
  then show ?thesis using assms by (auto simp: doSendAsync_def reject_def Let_def intro!: grows_intros grows_emit)
next
  case TakeFailed
  then show ?thesis using assms
    by (auto simp: handleSendFailed_def Let_def intro!: grows_intros split: list.splits prod.splits)
next
  case TakeRsp
  then show ?thesis using assms
    by (auto simp: handleRsp_def Let_def intro!: grows_intros grows_emit split: list.splits option.splits)
next
  case (WriteDone i er)
  then show ?thesis using assms
    by (auto simp: writeCallback_def onErrCallback_def onOK_def Let_def intro!: grows_intros grows_emit split: if_splits prod.splits)
next
  case (TimerFires i)
  then show ?thesis using assms
    by (auto simp: retryTimer_def Let_def intro!: grows_intros split: if_splits prod.splits)
qed (use assms in \<open>auto simp: handleCleanMap_def onRsp_def onConnClosed_def intro!: grows_intros split: if_splits list.splits prod.splits\<close>)

section \<open>The life of a worker\<close>

lemma ready_frame: "ready w \<Longrightarrow> frame w w' \<Longrightarrow> ready w'"
  by (rule ready_steady [OF _ frame_steady])

lemma ready_same: "ready w \<Longrightarrow> wstate w' = wstate w \<Longrightarrow> chansClosed w' = chansClosed w \<Longrightarrow> heap w' = heap w \<Longrightarrow> ready w'"
  by (simp add: ready_def no_callback_def)

text \<open>Only the close command ends the ready phase.\<close>

lemma ready_stays:
  assumes w: "winv T w" and r: "ready w" and s: "wstep e ev w = Some w'" and ev: "ev \<noteq> CloseCmd"
  shows "ready w'"
proof -
  note b = winvD(1) [OF w]
  have same: "ready (w\<lparr>doneBatches := ds\<rparr>)" "ready (w\<lparr>responseBatches := rs\<rparr>)" "ready (w\<lparr>retryBatches := qs\<rparr>)"
    "ready (w\<lparr>updateConnChan := us\<rparr>)" "ready (w\<lparr>dataChan := dc\<rparr>)" for ds rs qs us dc
    by (rule ready_same [OF r]; simp)+
  show ?thesis
  proof (cases ev)
    case (Send now acquired i m cb fl)
    then show ?thesis using s r by (auto simp: doSendAsync_def reject_def Let_def intro!: ready_same [OF r])
  next
    case TakeData
    then obtain q qs where d: "dataChan w = q # qs" "w' = handleSendData e q (w\<lparr>dataChan := qs\<rparr>)" using s by (auto split: list.splits)
    have held: "held w = add_mset q (held (w\<lparr>dataChan := qs\<rparr>))" using d by (simp add: held_def)
    have "base T (add_mset q {#}) (w\<lparr>dataChan := qs\<rparr>) []" using b by (simp add: base_def held)
    moreover have "rsemaphore q" using baseD(10) [OF b] by (simp add: ledger_def held)
    ultimately show ?thesis using handleSendData_keeps [of T q "{#}" "w\<lparr>dataChan := qs\<rparr>" "[]" e] d(2) ready_steady [OF same(5)] by blast
  next
    case CleanTick
    then show ?thesis using s by (auto simp: handleCleanMap_def intro: r ready_same [OF r] split: if_splits)
  next
    case TakeDone
    then show ?thesis using s done_keeps [OF b, of _ _ _ _ e] ready_frame [OF r] by (auto split: list.splits)
  next
    case TakeFailed
    then show ?thesis using s failed_keeps [OF b, of _ _ _ _ e] ready_frame [OF r] by (auto split: list.splits)
  next
    case (WriteDone i er)
    then show ?thesis using s frame_writeCallback [of w i _ _ _ e er] ready_frame [OF r]
      by (cases "inflight w ! i") (auto split: if_splits)
  next
    case (TimerFires i)
    then show ?thesis using s retryTimer_keeps(2) [OF b, of i] v1_phase [OF w] ready_frame [OF r]
      by (cases "timers w ! i") (auto split: if_splits)
  next
    case TakeRetry
    then obtain bid p qs where q: "retryBatches w = (bid, p) # qs" "w' = handleRetry e (bid, p) True (w\<lparr>retryBatches := qs\<rparr>)"
      using s by (auto split: list.splits)
    have "base T {#} (w\<lparr>retryBatches := qs\<rparr>) []" by (rule base_view [OF _ _ b]) (auto simp: view_def evids_def q)
    from retry_keeps [OF this, of e bid p True] q(2) ready_frame [OF same(3)] show ?thesis by blast
  next
    case TakeRsp
    then obtain rsp rs where q: "responseBatches w = rsp # rs" "w' = handleRsp e rsp (w\<lparr>responseBatches := rs\<rparr>)"
      using s by (auto split: list.splits)
    have "base T {#} (w\<lparr>responseBatches := rs\<rparr>) []" by (rule base_view [OF _ _ b]) (simp_all add: view_def)
    from rsp_keeps [OF this, of e rsp] q(2) ready_frame [OF same(2)] show ?thesis by blast
  next
    case BatchTick
    then show ?thesis using s batchTick_keeps [OF b, of e] ready_steady [OF r] by (auto split: if_splits)
  next
    case SendTick
    then show ?thesis using s sendTick_keeps [OF b, of e] ready_steady [OF r] by (auto split: if_splits)
  next
    case (RspArrives rsp)
    then show ?thesis using s by (auto simp: onRsp_def intro: r ready_same [OF r])
  next
    case (ConnLost c er)
    then show ?thesis using s by (auto simp: onConnClosed_def updateConnAsync_def intro: r ready_same [OF r])
  qed (use s ev same(4) in \<open>auto intro: ready_frame [OF r frame_updateConn] ready_frame [OF same(4) frame_updateConn] split: if_splits list.splits\<close>)
qed

lemma reachable_ready:
  assumes "reachable (subs, w)" "wstate w = stateReady" "wstep e ev w = Some w'" "ev \<noteq> CloseCmd"
  shows "wstate w' = stateReady"
proof -
  note w = reachable_winv [OF assms(1)]
  have "ready w" using winvD(2) [OF w] assms(2) by (auto simp: phase_def phase_defs)
  from ready_stays [OF w this assms(3,4)] show ?thesis by (simp add: ready_def)
qed

lemma reachable_closed:
  assumes "reachable (subs, w)" "wstate w = stateClosed" "wstep e ev w = Some w'" "range_order (wOrd e)"
  shows "wstate w' = stateClosed"
proof -
  have "closed w" using winvD(2) [OF reachable_winv [OF assms(1)]] assms(2) by (auto simp: phase_def phase_defs)
  then have "chansClosed w' \<ge> 1" using grows_wstep [OF assms(3)] by (auto simp: grows_def closed_def)
  moreover have "phase w'" using winvD(2) [OF wstep_keeps [OF reachable_winv [OF assms(1)] assms(3,4)]] .
  ultimately show ?thesis by (auto simp: phase_def phase_defs)
qed

lemma moves_up:
  "wstep e ev w = Some w' \<Longrightarrow> wstate w \<le> wstate w'"
  using grows_wstep by (simp add: grows_def)

lemma close_leaves_ready:
  assumes "reachable (subs, w)" "wstate w = stateReady" "wstep e CloseCmd w = Some w'" "range_order (wOrd e)"
  shows "stateClosing \<le> wstate w'"
proof -
  have "ready w" using reachable_winv [OF assms(1)] assms(2) by (auto simp: winv_def phase_def phase_defs)
  from handleClose_keeps [OF reachable_base [OF assms(1)] this assms(4)] assms(3) show ?thesis
    by (auto simp: waiting_def closed_def split: if_splits)
qed

section \<open>Concrete runs\<close>

fun wrun :: "worker_env \<Rightarrow> event list \<Rightarrow> run_state \<Rightarrow> run_state option" where
  "wrun e [] s = Some s"
| "wrun e (ev # evs) s = (case wstep e ev (snd s) of None \<Rightarrow> None | Some w \<Rightarrow> wrun e evs (submitted ev @ fst s, w))"

lemma wrun_reachable:
  "reachable s \<Longrightarrow> range_order (wOrd e) \<Longrightarrow> wrun e evs s = Some t \<Longrightarrow> reachable t"
proof (induction evs arbitrary: s)
  case (Cons ev evs)
  obtain subs w where s: "s = (subs, w)" by (cases s)
  from Cons.prems(3) obtain w' where w': "wstep e ev w = Some w'" "wrun e evs (submitted ev @ subs, w') = Some t"
    by (auto simp: s split: option.splits)
  have "reachable (submitted ev @ subs, w')"
    using Cons.prems(1,2) w'(1) s by (auto intro: reach_step wtransI)
  from Cons.IH [OF this Cons.prems(2) w'(2)] show ?case .
qed simp

definition run_uuid :: "nat \<Rightarrow> string" where
  "run_uuid n = replicate n (CHR ''u'')"

definition run_env :: worker_env where
  "run_env = \<lparr>wnow = 0, wext = sample_ext, wcenv = sample_codec_env, writeRes = (\<lambda>_. None), connRes = (\<lambda>_. Inr 9),
     poolPick = (\<lambda>_. None), remoteAddr = (\<lambda>_. []), wOrd = (\<lambda>ks. ks)\<rparr>"

definition v1_options :: Options where
  "v1_options = zeroOptions\<lparr>isV1 := True, isTCP := True, MaxRetries := 3, MaxPendingMessages := 10,
     BatchingMaxMessages := 2, BatchingMaxSize := 1000\<rparr>"

definition v3_options :: Options where
  "v3_options = zeroOptions\<lparr>isV3 := True, isTCP := True, MaxRetries := 2, MaxPendingMessages := 10, NoFrameHeader := True,
     BatchingMaxMessages := 2, BatchingMaxSize := 1000, SendTimeout := 5\<rparr>"

definition start_worker :: "Options \<Rightarrow> run_state" where
  "start_worker o' = ([], case newWorker 3 o' run_uuid 0 (Inr 7) of Inr w \<Rightarrow> w)"

lemma start_reachable:
  assumes "one_version o'" "0 \<le> MaxRetries o'"
  shows "reachable (start_worker o')"
proof (rule reach_init)
  have "inj run_uuid" by (rule injI) (simp add: run_uuid_def replicate_eq_replicate)
  then show "winit (start_worker o')"
    using assms unfolding winit_def start_worker_def newWorker_def by (auto intro: exI [of _ 3])
qed

lemma run_env_order: "range_order (wOrd run_env)"
  by (simp add: run_env_def)

lemma sample_options [simp]: "one_version v1_options" "one_version v3_options" "0 \<le> MaxRetries v1_options" "0 \<le> MaxRetries v3_options"
  by (simp_all add: v1_options_def v3_options_def zeroOptions_def one_version_def)

definition msg1 :: Message where "msg1 = mk_message ''a'' [97, 124, 10]"

text \<open>One message sent with V3, its batch waiting for the response.\<close>

definition v3_sent :: run_state where
  "v3_sent = (case wrun run_env [Send 0 True 1 msg1 True True, TakeData] (start_worker v3_options) of
     Some s \<Rightarrow> s | None \<Rightarrow> start_worker v3_options)"

lemma v3_sent_facts:
  "wrun run_env [Send 0 True 1 msg1 True True, TakeData] (start_worker v3_options) \<noteq> None"
  "fst v3_sent = [1]" "map_of (unackedBatches (snd v3_sent)) ''3:'' = Some 0" "isV3 (wopts (snd v3_sent))"
  "map rid (dataReqs (heap (snd v3_sent) 0)) = [1]" "map rcallback (dataReqs (heap (snd v3_sent) 0)) = [True]"
  "wstate (snd v3_sent) = stateReady" "SendTimeout (wopts (snd v3_sent)) = 5"
  "filter (\<lambda>a. case a of Callback i er \<Rightarrow> True | _ \<Rightarrow> False) (log (snd v3_sent)) = []"
  by code_simp+

lemma v3_sent_reachable: "reachable ([1], snd v3_sent)"
proof -
  have "wrun run_env [Send 0 True 1 msg1 True True, TakeData] (start_worker v3_options) = Some v3_sent"
    using v3_sent_facts(1) unfolding v3_sent_def by (auto split: option.splits)
  from wrun_reachable [OF start_reachable run_env_order this] v3_sent_facts(2) show ?thesis
    by (metis prod.collapse sample_options(2,4))
qed

section \<open>Callbacks and permits\<close>

lemma ledger_of: "reachable (subs, w) \<Longrightarrow> ledger (count_list subs) (held w) (wpermits w) (\<lambda>i. calls i (log w))"
  using baseD(10) [OF reachable_base] by simp





section \<open>Refinement of the ledger of open requests\<close>

text \<open>The abstract worker: a multiset of open requests and one of answered ones. A step opens the new
  requests and answers some of the open ones.\<close>

definition ledger_step :: "nat multiset \<times> nat multiset \<Rightarrow> nat list \<Rightarrow> nat multiset \<times> nat multiset \<Rightarrow> bool" where
  "ledger_step s new s' \<longleftrightarrow>
     (\<exists>D. D \<subseteq># fst s + mset new \<and> fst s' = fst s + mset new - D \<and> snd s' = snd s + D)"

definition open_requests :: "worker \<Rightarrow> nat multiset" where
  "open_requests w = image_mset rid (filter_mset rcallback (held w))"

fun callback_ids :: "act list \<Rightarrow> nat list" where
  "callback_ids [] = []"
| "callback_ids (Callback i er # as) = i # callback_ids as"
| "callback_ids (_ # as) = callback_ids as"

definition abs_worker :: "worker \<Rightarrow> nat multiset \<times> nat multiset" where
  "abs_worker w = (open_requests w, mset (callback_ids (log w)))"

lemma callback_ids_append [simp]: "callback_ids (as @ bs) = callback_ids as @ callback_ids bs"
  by (induction as rule: callback_ids.induct) simp_all

lemma count_callback_ids: "count (mset (callback_ids as)) i = calls i as"
  by (induction as rule: callback_ids.induct) simp_all

lemma count_open: "count (open_requests w) i = owed i (held w)"
proof -
  have "count (image_mset rid (filter_mset rcallback M)) i = owed i M" for M
    by (induction M) simp_all
  then show ?thesis by (simp add: open_requests_def)
qed

lemma abs_total:
  assumes "reachable (subs, w)"
  shows "open_requests w + mset (callback_ids (log w)) = mset subs"
proof (rule multiset_eqI)
  fix i
  have "count (mset subs) i = calls i (log w) + owed i (held w)"
    using ledger_of [OF assms] by (simp add: ledger_def count_mset)
  then show "count (open_requests w + mset (callback_ids (log w))) i = count (mset subs) i"
    by (simp add: count_open count_callback_ids)
qed



section \<open>Where a batch is\<close>

text \<open>
  C14. With V3 every unfinished batch is in exactly one place: it is pending, waits for its response or
  waits for its retry timer, and it is found there under its own identifier; no finished batch, which
  the pool may hand out again, is still in a map.
\<close>

theorem v3_batch_in_one_map:
  assumes "reachable (subs, w)" and "isV3 (wopts w)"
  shows "distinct (map snd (pendingBatches w) @ map snd (unackedBatches w) @ map snd (retryingBatches w)) \<and>
    set (map snd (pendingBatches w) @ map snd (unackedBatches w) @ map snd (retryingBatches w)) = {p. \<not> finished (heap w p)} \<and>
    (\<forall>bp \<in> set (unackedBatches w) \<union> set (retryingBatches w). batchID (heap w (snd bp)) = fst bp)"
proof -
  note ok = baseD [OF reachable_base [OF assms(1)]]
  let ?L = "map snd (pendingBatches w) @ map snd (unackedBatches w) @ map snd (retryingBatches w)"
  have "flights w = []" using ok(1) assms(2) by (simp add: flights_def one_version_def)
  then have L: "tracked w = ?L" by (simp add: tracked_def)
  have c: "count (mset ?L) p \<le> 1" for p using ok(8) unfolding L by (simp add: trk_ok_def del: mset_append)
  have "distinct ?L" unfolding distinct_count_atmost_1
    using c by (metis count_eq_zero_iff le_less_Suc_eq less_one linorder_not_le nless_le set_mset_mset)
  moreover have "set ?L = {p. \<not> finished (heap w p)}"
    using ok(8) assms(2) unfolding L by (auto simp: trk_ok_def whole_def simp del: mset_append set_append)
  ultimately show ?thesis using ok(6,7) by (auto simp: keyed_def)
qed

theorem v3_batch_in_one_map_witness:
  "distinct (map snd (unackedBatches (snd v3_sent)) @ map snd (retryingBatches (snd v3_sent))) \<and> \<not> finished (heap (snd v3_sent) 0)"
proof -
  note one = v3_batch_in_one_map [OF v3_sent_reachable v3_sent_facts(4)]
  have "0 \<in> snd ` set (unackedBatches (snd v3_sent))" using v3_sent_facts(3) by (force dest: map_of_SomeD)
  with one show ?thesis by auto
qed



text \<open>
  A completion that comes too late, for a batch that is finished or whose object the pool has handed
  out again under another identifier, changes nothing: no callback, no permit, no map entry of the new batch.
\<close>

theorem late_completion_ignored:
  assumes "reachable (subs, w)" and "finished (heap w p) \<or> batchID (heap w p) \<noteq> bid"
  shows "doneBatch e bid p err w = w"
  by (rule stale_done [OF reachable_base [OF assms(1)] assms(2)])

theorem late_completion_ignored_witness: "doneBatch run_env ''3:old'' 0 None (snd v3_sent) = snd v3_sent"
proof -
  have "batchID (heap (snd v3_sent) 0) = ''3:''"
    by (rule keyed_lookup [OF baseD(6) [OF reachable_base [OF v3_sent_reachable]] v3_sent_facts(3)])
  then show ?thesis using late_completion_ignored [OF v3_sent_reachable, of 0 "''3:old''" run_env None] by simp
qed

section \<open>Responses\<close>

abbreviation callbacks :: "act list \<Rightarrow> act list" where
  "callbacks \<equiv> filter (\<lambda>a. case a of Callback i er \<Rightarrow> True | _ \<Rightarrow> False)"

lemma batch_done_callbacks:
  assumes "\<not> finished b" "batch_done err now b = (b', as)"
  shows "callbacks as = map (\<lambda>r. Callback (rid r) err) (filter rcallback (dataReqs b))"
proof -
  have "callbacks (concat (map (\<lambda>r. snd (req_done err c r)) rs)) = map (\<lambda>r. Callback (rid r) err) (filter rcallback rs)" for rs c
    by (induction rs) (simp_all add: req_done_def)
  then show ?thesis using assms by (auto simp: batch_done_def Let_def)
qed

lemma finish_callbacks:
  assumes "\<not> finished (heap w p)"
  shows "callbacks (log (finishBatch e p err w)) =
    callbacks (log w) @ map (\<lambda>r. Callback (rid r) err) (filter rcallback (dataReqs (heap w p)))"
    and "finished (heap (finishBatch e p err w) p)"
proof -
  obtain b as where d: "batch_done err (wnow e) (heap w p) = (b, as)" by (cases "batch_done err (wnow e) (heap w p)")
  have "callbacks as = callbacks (takeWhile (\<lambda>a. a \<noteq> BatchCallback) as) @ callbacks (dropWhile (\<lambda>a. a \<noteq> BatchCallback) as)"
    by (simp flip: filter_append)
  with batch_done_callbacks [OF assms d] show "callbacks (log (finishBatch e p err w)) =
      callbacks (log w) @ map (\<lambda>r. Callback (rid r) err) (filter rcallback (dataReqs (heap w p)))"
    by (simp add: finishBatch_def d batchCallback_def closeAll_def Let_def)
  show "finished (heap (finishBatch e p err w) p)"
    using batch_done_counts(5) [OF assms d] by (simp add: finishBatch_def d batchCallback_def closeAll_def Let_def)
qed

lemma done_retrying_take:
  assumes b: "base T R w X" and m: "map_of (retryingBatches w) bid = Some p"
  shows "doneBatch e bid p err w =
    finishBatch e p err ((cancelTimer bid p w)\<lparr>retryingBatches := mdel bid (retryingBatches w)\<rparr>)"
    and "map_of (unackedBatches w) bid = None" and "batchID (heap w p) = bid"
proof -
  show id: "batchID (heap w p) = bid" by (rule keyed_lookup [OF baseD(7) [OF b] m])
  show u: "map_of (unackedBatches w) bid = None" using in_hand(3) [OF base_take_retrying [OF b m]] id by simp
  show "doneBatch e bid p err w = finishBatch e p err ((cancelTimer bid p w)\<lparr>retryingBatches := mdel bid (retryingBatches w)\<rparr>)"
    using m id u by (simp add: doneBatch_def)
qed



section \<open>Closing\<close>

lemma no_live_no_held:
  assumes b: "base T {#} w []" and c: "dataChan w = []" and n: "\<And>p. finished (heap w p)"
  shows "held w = {#}"
  using baseD(3) [OF b] c n by (simp add: held_def heap_ok_def)

lemma closed_v3_empty:
  assumes b: "base T {#} w []" and c: "closed w" and v: "isV3 (wopts w)"
  shows "held w = {#}"
proof -
  have "flights w = []" using baseD(1) [OF b] v by (simp add: flights_def one_version_def)
  then have "tracked w = []" using c by (simp add: tracked_def closed_def)
  then have "finished (heap w p)" for p using baseD(8) [OF b] v by (auto simp: trk_ok_def whole_def)
  then show ?thesis using no_live_no_held [OF b] c by (simp add: closed_def)
qed


text \<open>While the worker waits, the timeout handler completes every batch that is late.\<close>

lemma sendTimeout_waiting:
  assumes b: "base T {#} u []" and w: "waiting u \<or> closed u"
    and l: "\<forall>bp \<in> set (unackedBatches u). wnow e - lastSendTime (heap u (snd bp)) > SendTimeout (wopts u)"
  shows "base T {#} (sendTimeout_one e k u) [] \<and> (waiting (sendTimeout_one e k u) \<or> closed (sendTimeout_one e k u)) \<and>
    (\<forall>bp \<in> set (unackedBatches (sendTimeout_one e k u)).
       wnow e - lastSendTime (heap (sendTimeout_one e k u) (snd bp)) > SendTimeout (wopts (sendTimeout_one e k u))) \<and>
    set (mkeys (unackedBatches (sendTimeout_one e k u))) \<subseteq> set (mkeys (unackedBatches u)) - {k}"
proof (cases "map_of (unackedBatches u) k")
  case None
  then have "k \<notin> set (mkeys (unackedBatches u))" by (simp add: map_of_eq_None_iff)
  with None assms show ?thesis by (simp add: sendTimeout_one_def)
next
  case (Some p)
  let ?u = "u\<lparr>unackedBatches := mdel k (unackedBatches u)\<rparr>" and ?er = "Some (ENo errSendTimeout)"
  have wt: "waiting u" using w Some by (auto simp: closed_def)
  have id: "batchID (heap u p) = k" by (rule keyed_lookup [OF baseD(6) [OF b] Some])
  have "backoffRetry e p ?u = doneBatch e k p ?er ?u"
    using wt id by (subst backoff_not_ready) (simp_all add: waiting_def)
  then have eq: "sendTimeout_one e k u = emit [IncTimeout] (finishBatch e p ?er ?u)"
    using done_take(2) [OF b Some] Some l map_of_SomeD [OF Some] by (force simp: sendTimeout_one_def)
  obtain b' as where d: "batch_done ?er (wnow e) (heap u p) = (b', as)" by (cases "batch_done ?er (wnow e) (heap u p)")
  have "lastSendTime b' = lastSendTime (heap u p)" using d by (auto simp: batch_done_def Let_def split: if_splits)
  then have "lastSendTime (heap (finishBatch e p ?er ?u) q) = lastSendTime (heap u q)" for q
    by (simp add: finishBatch_def d batchCallback_def closeAll_def Let_def)
  moreover have "base T {#} (sendTimeout_one e k u) []"
    unfolding eq by (rule base_emit [OF base_finish [OF base_take_unacked [OF b Some]]]) simp
  ultimately show ?thesis
    using waiting_sendTimeout [OF b w, of e k] l mdel_subset [of k "unackedBatches u"]
    by (auto simp: eq keys_mdel simp del: set_map)
qed

lemma timeout_closes:
  assumes b: "base T {#} w []" and w: "waiting w" and o': "range_order (wOrd e)"
    and l: "\<forall>bp \<in> set (unackedBatches w). wnow e - lastSendTime (heap w (snd bp)) > SendTimeout (wopts w)"
  shows "closed (handleSendTimeout e w)"
proof -
  let ?I = "\<lambda>u. base T {#} u [] \<and> (waiting u \<or> closed u) \<and> 
    (\<forall>bp \<in> set (unackedBatches u). wnow e - lastSendTime (heap u (snd bp)) > SendTimeout (wopts u))"
  have "distinct (mkeys (unackedBatches w))" using baseD(6) [OF b] by (simp add: keyed_def)
  from range_orderD(2) [OF o' this] have ks: "set (wOrd e (mkeys (unackedBatches w))) = set (mkeys (unackedBatches w))" .
  have I0: "?I w" using b w l by blast
  have step: "?I (sendTimeout_one e k u) \<and> set (mkeys (unackedBatches (sendTimeout_one e k u))) \<subseteq> set (mkeys (unackedBatches u)) - {k}"
    if "?I u" for k u
    using sendTimeout_waiting [of T u e k] that by blast
  have "?I (handleSendTimeout e w) \<and> unackedBatches (handleSendTimeout e w) = []"
    unfolding handleSendTimeout_def
    by (rule fold_deletes [where I = ?I and m = unackedBatches, OF step I0 ks])
  then show ?thesis by (auto simp: waiting_def)
qed

text \<open>
  C11. Closing comes to an end without any help from the server: after \<^verbatim>\<open>handleClose\<close> the worker is closed or
  waits for responses, and one run of the timeout handler after the send timeout of the batches it
  waits for closes it; with V1, which has no responses, it is closed at once.
\<close>

theorem close_completes:
  assumes "reachable (subs, w)" and "wstate w = stateReady" and "range_order (wOrd e)" and "range_order (wOrd e')"
    and "\<forall>bp \<in> set (unackedBatches (handleClose e w)).
      wnow e' - lastSendTime (heap (handleClose e w) (snd bp)) > SendTimeout (wopts w)"
  shows "wstate (handleClose e w) = stateClosed \<or>
    isV3 (wopts w) \<and> wstate (handleClose e w) = stateClosing \<and> wstate (handleSendTimeout e' (handleClose e w)) = stateClosed"
proof -
  note b = reachable_base [OF assms(1)]
  have "ready w" using reachable_winv [OF assms(1)] assms(2) by (auto simp: winv_def phase_def phase_defs)
  note k = handleClose_keeps [OF b this assms(3)]
  have "waiting (handleClose e w) \<Longrightarrow> closed (handleSendTimeout e' (handleClose e w))"
    using k assms(4,5) by (intro timeout_closes) auto
  with k show ?thesis by (auto simp: waiting_def closed_def)
qed

text \<open>The run continues: the worker of \<open>v3_sent\<close> is closed, and then the send timeout passes.\<close>

definition late_env :: worker_env where
  "late_env = run_env\<lparr>wnow := 100\<rparr>"

definition v3_closing :: worker where
  "v3_closing = handleClose run_env (snd v3_sent)"

lemma v3_closing_facts:
  "map (\<lambda>bp. lastSendTime (heap v3_closing (snd bp))) (unackedBatches v3_closing) = [0]" "wstate v3_closing = stateClosing"
  "wopts v3_closing = wopts (snd v3_sent)" "chansClosed (snd v3_sent) = 0" "chansClosed v3_closing = 0" "isV1 (wopts (snd v3_sent)) = False"
  by code_simp+

lemma v3_closing_late:
  "\<forall>bp \<in> set (unackedBatches v3_closing). wnow late_env - lastSendTime (heap v3_closing (snd bp)) > SendTimeout (wopts (snd v3_sent))"
  using v3_closing_facts(1) v3_sent_facts(8)
  by (cases "unackedBatches v3_closing") (auto simp: late_env_def run_env_def)

lemma late_env_order: "range_order (wOrd late_env)"
  by (simp add: late_env_def run_env_def)

theorem close_completes_witness: "wstate (handleSendTimeout late_env v3_closing) = stateClosed"
  using close_completes [OF v3_sent_reachable v3_sent_facts(7) run_env_order late_env_order, folded v3_closing_def, OF v3_closing_late]
    v3_closing_facts(2) by auto

lemma v3_closing_reachable: "reachable ([1], v3_closing)"
  using reach_step [OF v3_sent_reachable wtransI [of run_env CloseCmd]] v3_closing_facts(4) run_env_order
  by (simp add: submitted_def v3_closing_def)

lemma v3_closed_reachable: "reachable ([1], handleSendTimeout late_env v3_closing)"
  using reach_step [OF v3_closing_reachable wtransI [of late_env SendTick]] v3_closing_facts late_env_order
  by (simp add: submitted_def)

lemma v3_closed_state:
  "wstate (handleSendTimeout late_env v3_closing) = stateClosed" "isV3 (wopts (handleSendTimeout late_env v3_closing))"
proof -
  note b = reachable_base [OF v3_closing_reachable]
  have "waiting v3_closing"
    using winvD(2) [OF reachable_winv [OF v3_closing_reachable]] v3_closing_facts(2) by (auto simp: phase_def ready_def closed_def)
  from timeout_closes [OF b this late_env_order] v3_closing_late v3_closing_facts(3)
  show "wstate (handleSendTimeout late_env v3_closing) = stateClosed" by (simp add: closed_def)
  have "steady v3_closing (handleSendTimeout late_env v3_closing)" using sendTick_keeps [OF b] by blast
  then show "isV3 (wopts (handleSendTimeout late_env v3_closing))"
    using v3_closing_facts(3) v3_sent_facts(4) by (simp add: steady_def)
qed


section \<open>A callback that is lost\<close>

lemmas eval_run = Let_def start_worker_def newWorker_def v1_options_def zeroOptions_def run_env_def msg1_def mk_message_def
  doSendAsync_def available_def maxUDPReqSizeV1_def maxTCPReqSizeV1_def handleSendData_def pickBatch_def startBatch_def
  poolGet_def newBatch_def batch_append_def sendBatch_def encode_batch_def keepBuffer_def afterWrite_def onOK_def submitted_def
  handleClose_def closeFlush_def pendingKey_def closeAll_def writeCallback_def onErrCallback_def doneBatchAsync_def
  drainDone.simps drainRetry.simps


end
