(* ===== verification/Metrics.thy ===== *)
theory Metrics
  imports Request "HOL-Library.Multiset"
begin

text \<open>
  \<^verbatim>\<open>tglog/metrics.go\<close>: the eight collectors of a client and the eight methods that update them through a cache
  of resolved metrics. Prometheus is outside the repository: a registry is the function \<open>Register\<close>, what it
  answers for a collector, and a vector resolves label values to a metric by the function \<open>GetMetric\<close>
  (the same labels give the same metric). What is done to metrics is the list of updates \<open>applied\<close>. The
  lookup is double-checked (once under the read lock, again under the write lock), so the interleaving of
  callers is modelled too.
\<close>

section \<open>Collectors\<close>

datatype kind = CounterVec | GaugeVec | HistogramVec

type_synonym metric = nat

datatype registered =
    Registered
  | AlreadyRegistered kind nat      \<comment> \<open>the existing collector, of some kind\<close>
  | RegisterFailed string

record prometheus =
  Register :: "string \<Rightarrow> kind \<Rightarrow> string list \<Rightarrow> registered"
  newVec :: "string \<Rightarrow> nat"          \<comment> \<open>the collector made for a name\<close>
  GetMetric :: "nat \<Rightarrow> string \<Rightarrow> string \<Rightarrow> metric option"  \<comment> \<open>vector, name, label value\<close>

datatype update = Add1 | Dec | Observe int

record family =
  vec :: nat
  cache :: "(string, metric) gomap"

record metrics =
  errorCounter :: family
  retryCounter :: family
  timeoutCounter :: family
  messageCounter :: family
  updateConnCounter :: family
  pendingMessageGauge :: family
  batchSizeHistogram :: family
  batchTimeHistogram :: family
  mname :: string
  applied :: "(metric \<times> update) list"

datatype metrics_err =
    ErrMetricsName
  | ErrRegister string
  | CollectorPanic     \<comment> \<open>the existing collector is of another kind: the type assertion panics\<close>

section \<open>Construction\<close>

definition registerOne :: "prometheus \<Rightarrow> string \<Rightarrow> kind \<Rightarrow> string list \<Rightarrow> metrics_err + nat" where
  "registerOne pr name k labels =
     (case Register pr name k labels of
        Registered \<Rightarrow> Inr (newVec pr name)
      | AlreadyRegistered k' v \<Rightarrow> if k' = k then Inr v else Inl CollectorPanic
      | RegisterFailed e \<Rightarrow> Inl (ErrRegister e))"

definition collectors :: "(string \<times> kind \<times> string list) list" where
  "collectors =
     [(''tglog_go_error_count'', CounterVec, [''name'', ''code'']),
      (''tglog_go_retry_count'', CounterVec, [''name'', ''worker'']),
      (''tglog_go_timeout_count'', CounterVec, [''name'', ''worker'']),
      (''tglog_go_msg_count'', CounterVec, [''name'', ''code'']),
      (''tglog_go_update_conn_count'', CounterVec, [''name'', ''code'']),
      (''tglog_go_pending_msg_gauge'', GaugeVec, [''name'', ''worker'']),
      (''tglog_go_batch_size'', HistogramVec, [''name'', ''code'']),
      (''tglog_go_batch_time'', HistogramVec, [''name'', ''code''])]"

fun registerAll :: "prometheus \<Rightarrow> (string \<times> kind \<times> string list) list \<Rightarrow> metrics_err + nat list" where
  "registerAll pr [] = Inr []"
| "registerAll pr ((name, k, labels) # cs) =
     (case registerOne pr name k labels of
        Inl e \<Rightarrow> Inl e
      | Inr v \<Rightarrow> (case registerAll pr cs of Inl e \<Rightarrow> Inl e | Inr vs \<Rightarrow> Inr (v # vs)))"

text \<open>The registry is the given one, or Prometheus's default registry.\<close>

definition newMetrics :: "prometheus \<Rightarrow> prometheus option \<Rightarrow> string \<Rightarrow> metrics_err + metrics" where
  "newMetrics default_registry reg name =
     (if name = [] then Inl ErrMetricsName
      else let fam = (\<lambda>v. \<lparr>vec = v, cache = []\<rparr>)
           in case registerAll (case reg of None \<Rightarrow> default_registry | Some r \<Rightarrow> r) collectors of
                Inl e \<Rightarrow> Inl e
              | Inr vs \<Rightarrow> Inr \<lparr>errorCounter = fam (vs ! 0), retryCounter = fam (vs ! 1), timeoutCounter = fam (vs ! 2),
                    messageCounter = fam (vs ! 3), updateConnCounter = fam (vs ! 4), pendingMessageGauge = fam (vs ! 5),
                    batchSizeHistogram = fam (vs ! 6), batchTimeHistogram = fam (vs ! 7), mname = name, applied = []\<rparr>)"

section \<open>Updates\<close>

text \<open>The common body of the methods when nothing interleaves: the metric from the cache, or resolved and
  cached; a label that cannot be resolved is dropped.\<close>

definition cached :: "prometheus \<Rightarrow> string \<Rightarrow> string \<Rightarrow> family \<Rightarrow> family \<times> metric option" where
  "cached pr name label f =
     (case map_of (cache f) label of
        Some c \<Rightarrow> (f, Some c)
      | None \<Rightarrow> (case GetMetric pr (vec f) name label of
                   None \<Rightarrow> (f, None)
                 | Some c \<Rightarrow> (f\<lparr>cache := mput label c (cache f)\<rparr>, Some c)))"

definition apply_to :: "update \<Rightarrow> metric option \<Rightarrow> (metric \<times> update) list" where
  "apply_to u c = (case c of None \<Rightarrow> [] | Some m \<Rightarrow> [(m, u)])"

definition incError :: "prometheus \<Rightarrow> string \<Rightarrow> metrics \<Rightarrow> metrics" where
  "incError pr errCode m =
     (case cached pr (mname m) errCode (errorCounter m) of
        (f, c) \<Rightarrow> m\<lparr>errorCounter := f, applied := applied m @ apply_to Add1 c\<rparr>)"

definition incRetry :: "prometheus \<Rightarrow> string \<Rightarrow> metrics \<Rightarrow> metrics" where
  "incRetry pr worker m =
     (case cached pr (mname m) worker (retryCounter m) of
        (f, c) \<Rightarrow> m\<lparr>retryCounter := f, applied := applied m @ apply_to Add1 c\<rparr>)"

definition incTimeout :: "prometheus \<Rightarrow> string \<Rightarrow> metrics \<Rightarrow> metrics" where
  "incTimeout pr worker m =
     (case cached pr (mname m) worker (timeoutCounter m) of
        (f, c) \<Rightarrow> m\<lparr>timeoutCounter := f, applied := applied m @ apply_to Add1 c\<rparr>)"

definition incMessage :: "prometheus \<Rightarrow> string \<Rightarrow> metrics \<Rightarrow> metrics" where
  "incMessage pr errCode m =
     (case cached pr (mname m) errCode (messageCounter m) of
        (f, c) \<Rightarrow> m\<lparr>messageCounter := f, applied := applied m @ apply_to Add1 c\<rparr>)"

definition incUpdateConn :: "prometheus \<Rightarrow> string \<Rightarrow> metrics \<Rightarrow> metrics" where
  "incUpdateConn pr errCode m =
     (case cached pr (mname m) errCode (updateConnCounter m) of
        (f, c) \<Rightarrow> m\<lparr>updateConnCounter := f, applied := applied m @ apply_to Add1 c\<rparr>)"

definition incPending :: "prometheus \<Rightarrow> string \<Rightarrow> metrics \<Rightarrow> metrics" where
  "incPending pr worker m =
     (case cached pr (mname m) worker (pendingMessageGauge m) of
        (f, c) \<Rightarrow> m\<lparr>pendingMessageGauge := f, applied := applied m @ apply_to Add1 c\<rparr>)"

definition decPending :: "prometheus \<Rightarrow> string \<Rightarrow> metrics \<Rightarrow> metrics" where
  "decPending pr worker m =
     (case cached pr (mname m) worker (pendingMessageGauge m) of
        (f, c) \<Rightarrow> m\<lparr>pendingMessageGauge := f, applied := applied m @ apply_to Dec c\<rparr>)"

definition observeSize :: "prometheus \<Rightarrow> string \<Rightarrow> int \<Rightarrow> metrics \<Rightarrow> metrics" where
  "observeSize pr errCode value m =
     (case cached pr (mname m) errCode (batchSizeHistogram m) of
        (f, c) \<Rightarrow> m\<lparr>batchSizeHistogram := f, applied := applied m @ apply_to (Observe value) c\<rparr>)"

definition observeTime :: "prometheus \<Rightarrow> string \<Rightarrow> int \<Rightarrow> metrics \<Rightarrow> metrics" where
  "observeTime pr errCode value m =
     (case cached pr (mname m) errCode (batchTimeHistogram m) of
        (f, c) \<Rightarrow> m\<lparr>batchTimeHistogram := f, applied := applied m @ apply_to (Observe value) c\<rparr>)"

text \<open>The metrics calls among the actions a worker logs; \<open>worker\<close> is the label of the worker.\<close>

fun record_act :: "prometheus \<Rightarrow> string \<Rightarrow> act \<Rightarrow> metrics \<Rightarrow> metrics" where
  "record_act pr worker (IncError ec) m = incError pr ec m"
| "record_act pr worker (IncMessage ec) m = incMessage pr ec m"
| "record_act pr worker (IncUpdateConn ec) m = incUpdateConn pr ec m"
| "record_act pr worker IncRetry m = incRetry pr worker m"
| "record_act pr worker IncTimeout m = incTimeout pr worker m"
| "record_act pr worker IncPending m = incPending pr worker m"
| "record_act pr worker DecPending m = decPending pr worker m"
| "record_act pr worker (ObserveTime ec v) m = observeTime pr ec v m"
| "record_act pr worker (ObserveSize ec v) m = observeSize pr ec v m"
| "record_act pr worker _ m = m"

section \<open>Concurrent callers\<close>

text \<open>One family with the goroutines that update it: \<open>Check\<close> reads the cache under the read lock, \<open>Slow\<close> runs
  under the write lock, \<open>Apply\<close> updates the metric found.\<close>

datatype mpc = Check string update | Slow string update | Apply metric update | Finished

record msys =
  fam :: family
  updates :: "(metric \<times> update) list"
  callers :: "mpc list"

inductive mstep :: "prometheus \<Rightarrow> string \<Rightarrow> msys \<Rightarrow> msys \<Rightarrow> bool" for pr name where
  hit: "i < length (callers s) \<Longrightarrow> callers s ! i = Check l u \<Longrightarrow> map_of (cache (fam s)) l = Some c \<Longrightarrow>
    mstep pr name s (s\<lparr>callers := (callers s)[i := Apply c u]\<rparr>)"
| miss: "i < length (callers s) \<Longrightarrow> callers s ! i = Check l u \<Longrightarrow> map_of (cache (fam s)) l = None \<Longrightarrow>
    mstep pr name s (s\<lparr>callers := (callers s)[i := Slow l u]\<rparr>)"
| locked: "i < length (callers s) \<Longrightarrow> callers s ! i = Slow l u \<Longrightarrow> cached pr name l (fam s) = (f, c) \<Longrightarrow>
    mstep pr name s (s\<lparr>fam := f, updates := updates s @ apply_to u c, callers := (callers s)[i := Finished]\<rparr>)"
| bump: "i < length (callers s) \<Longrightarrow> callers s ! i = Apply c u \<Longrightarrow>
    mstep pr name s (s\<lparr>updates := updates s @ [(c, u)], callers := (callers s)[i := Finished]\<rparr>)"

text \<open>The calls a run starts with: nothing is cached yet, each caller is about to look.\<close>

definition mstart :: "nat \<Rightarrow> (string \<times> update) list \<Rightarrow> msys" where
  "mstart v calls = \<lparr>fam = \<lparr>vec = v, cache = []\<rparr>, updates = [], callers = map (\<lambda>(l, u). Check l u) calls\<rparr>"

section \<open>Every call counts once\<close>

definition resolve :: "prometheus \<Rightarrow> nat \<Rightarrow> string \<Rightarrow> string \<times> update \<Rightarrow> (metric \<times> update) list" where
  "resolve pr v name c = apply_to (snd c) (GetMetric pr v name (fst c))"

fun due :: "prometheus \<Rightarrow> nat \<Rightarrow> string \<Rightarrow> mpc \<Rightarrow> (metric \<times> update) list" where
  "due pr v name (Check l u) = resolve pr v name (l, u)"
| "due pr v name (Slow l u) = resolve pr v name (l, u)"
| "due pr v name (Apply c u) = [(c, u)]"
| "due pr v name Finished = []"

definition cache_ok :: "prometheus \<Rightarrow> nat \<Rightarrow> string \<Rightarrow> family \<Rightarrow> bool" where
  "cache_ok pr v name f \<longleftrightarrow> vec f = v \<and> (\<forall>l c. map_of (cache f) l = Some c \<longrightarrow> GetMetric pr v name l = Some c)"

lemma cached_spec:
  assumes "cache_ok pr v name f" and "cached pr name l f = (f', c)"
  shows "cache_ok pr v name f' \<and> c = GetMetric pr v name l"
proof (cases "map_of (cache f) l")
  case None
  then show ?thesis using assms by (auto simp: cached_def cache_ok_def split: option.splits if_splits)
next
  case (Some c')
  then have "GetMetric pr v name l = Some c'" using assms(1) by (simp add: cache_ok_def)
  then show ?thesis using assms Some by (auto simp: cached_def)
qed

lemma due_finished: "set pcs \<subseteq> {Finished} \<Longrightarrow> (\<Sum>pc \<leftarrow> pcs. mset (due pr v name pc)) = {#}"
  by (induction pcs) auto

definition minv :: "prometheus \<Rightarrow> nat \<Rightarrow> string \<Rightarrow> (metric \<times> update) multiset \<Rightarrow> msys \<Rightarrow> bool" where
  "minv pr v name M s \<longleftrightarrow> cache_ok pr v name (fam s) \<and>
     mset (updates s) + (\<Sum>pc \<leftarrow> callers s. mset (due pr v name pc)) = M"

lemma sum_list_update_mset:
  "i < length xs \<Longrightarrow> f (xs ! i) = A + f y \<Longrightarrow>
   sum_list (map f xs) = A + sum_list (map f (xs[i := y]))" for f :: "'a \<Rightarrow> 'b multiset"
  by (induction xs arbitrary: i) (auto simp: ac_simps split: nat.splits)

lemma minv_step:
  assumes inv: "minv pr v name M s" and step: "mstep pr name s t"
  shows "minv pr v name M t"
proof -
  let ?D = "\<lambda>pc. mset (due pr v name pc)"
  have c: "cache_ok pr v name (fam s)" and m: "mset (updates s) + (\<Sum>pc \<leftarrow> callers s. ?D pc) = M"
    using inv by (auto simp: minv_def)
  note upd = sum_list_update_mset [where f = ?D]
  from step show ?thesis
  proof cases
    case (hit i l u c')
    then have "?D (callers s ! i) = {#} + ?D (Apply c' u)" using c by (simp add: cache_ok_def resolve_def apply_to_def)
    from upd [OF hit(2) this] c m hit(1) show ?thesis by (simp add: minv_def)
  next
    case (miss i l u)
    then have "?D (callers s ! i) = {#} + ?D (Slow l u)" by simp
    from upd [OF miss(2) this] c m miss(1) show ?thesis by (simp add: minv_def)
  next
    case (locked i l u f c')
    from cached_spec [OF c locked(4)] have f: "cache_ok pr v name f" and "c' = GetMetric pr v name l" by auto
    then have "?D (callers s ! i) = mset (apply_to u c') + ?D Finished" using locked by (simp add: resolve_def)
    from upd [OF locked(2) this] f m locked(1) show ?thesis by (simp add: minv_def ac_simps)
  next
    case (bump i c' u)
    then have "?D (callers s ! i) = {#(c', u)#} + ?D Finished" by simp
    from upd [OF bump(2) this] c m bump(1) show ?thesis by (simp add: minv_def ac_simps)
  qed
qed

interpretation mrun: inductive_invariant "\<lambda>s. s = mstart v calls" "mstep pr name"
  "minv pr v name (mset (concat (map (resolve pr v name) calls)))" for v calls pr name
proof unfold_locales
  fix s assume "s = mstart v calls"
  then show "minv pr v name (mset (concat (map (resolve pr v name) calls))) s"
    by (simp add: minv_def mstart_def cache_ok_def mset_concat comp_def case_prod_beta)
qed (rule minv_step)

text \<open>
  C33. However the callers of a metric interleave between the first look at the cache and the second one under
  the write lock, every call is counted: when all callers are done the updates made are exactly one per
  call on the metric of its label, none lost and none doubled, and until then none is made that no call
  asked for. A caller that is not done can always go on.
\<close>

theorem cached_updates_exact:
  assumes "(mstep pr name)\<^sup>*\<^sup>* (mstart v calls) s"
  shows "mset (updates s) \<subseteq># mset (concat (map (resolve pr v name) calls)) \<and>
    (set (callers s) \<subseteq> {Finished} \<longrightarrow> mset (updates s) = mset (concat (map (resolve pr v name) calls))) \<and>
    (\<not> set (callers s) \<subseteq> {Finished} \<longrightarrow> (\<exists>t. mstep pr name s t))"
proof -
  have inv: "minv pr v name (mset (concat (map (resolve pr v name) calls))) s"
    by (rule mrun.steps_inv [OF assms mrun.inv_init [OF refl]])
  have "\<exists>t. mstep pr name s t" if "\<not> set (callers s) \<subseteq> {Finished}"
  proof -
    from that obtain i where i: "i < length (callers s)" "callers s ! i \<noteq> Finished" by (metis in_set_conv_nth singletonI subsetI)
    show ?thesis
    proof (cases "callers s ! i")
      case (Check l u)
      with i mstep.hit [of i s l u] mstep.miss [of i s l u] show ?thesis
        by (cases "map_of (cache (fam s)) l") blast+
    next
      case (Slow l u)
      with i mstep.locked [of i s l u pr name] show ?thesis by (cases "cached pr name l (fam s)") blast
    next
      case (Apply c u)
      with i mstep.bump [of i s c u] show ?thesis by blast
    qed (use i in simp)
  qed
  moreover have "mset (updates s) \<subseteq># mset (concat (map (resolve pr v name) calls))"
    using inv unfolding minv_def by (metis mset_subset_eq_add_left)
  moreover have "mset (updates s) = mset (concat (map (resolve pr v name) calls))" if "set (callers s) \<subseteq> {Finished}"
    using inv due_finished [OF that, of pr v name] by (simp add: minv_def)
  ultimately show ?thesis by blast
qed

definition sample_prometheus :: prometheus where
  "sample_prometheus = \<lparr>Register = (\<lambda>_ _ _. Registered), newVec = length, GetMetric = (\<lambda>v n l. Some 2)\<rparr>"

text \<open>Two goroutines count the same new error code: both miss the cache, one after the other takes the lock.\<close>

definition two_missed :: msys where
  "two_missed = \<lparr>fam = \<lparr>vec = 0, cache = []\<rparr>, updates = [], callers = [Slow ''10'' Add1, Slow ''10'' Add1]\<rparr>"

definition both_counted :: msys where
  "both_counted = \<lparr>fam = \<lparr>vec = 0, cache = [(''10'', 2)]\<rparr>, updates = [(2, Add1), (2, Add1)], callers = [Finished, Finished]\<rparr>"

lemma both_counted_steps:
  "(mstep sample_prometheus ''c'')\<^sup>*\<^sup>* (mstart 0 [(''10'', Add1), (''10'', Add1)]) both_counted"
proof -
  let ?step = "mstep sample_prometheus ''c''" and ?s0 = "mstart 0 [(''10'', Add1), (''10'', Add1)]"
  let ?s1 = "\<lparr>fam = \<lparr>vec = 0, cache = []\<rparr>, updates = [], callers = [Slow ''10'' Add1, Check ''10'' Add1]\<rparr>"
  let ?s3 = "\<lparr>fam = \<lparr>vec = 0, cache = [(''10'', 2)]\<rparr>, updates = [(2, Add1)], callers = [Finished, Slow ''10'' Add1]\<rparr>"
  have "?step ?s0 ?s1" using mstep.miss [of 0 ?s0] by (simp add: mstart_def)
  moreover have "?step ?s1 two_missed" using mstep.miss [of 1 ?s1] by (simp add: two_missed_def)
  moreover have "?step two_missed ?s3"
    using mstep.locked [of 0 two_missed "''10''" Add1 sample_prometheus "''c''"]
    by (simp add: two_missed_def cached_def sample_prometheus_def apply_to_def)
  moreover have "?step ?s3 both_counted"
    using mstep.locked [of 1 ?s3 "''10''" Add1 sample_prometheus "''c''"]
    by (simp add: both_counted_def cached_def sample_prometheus_def apply_to_def)
  ultimately show ?thesis by (meson converse_rtranclp_into_rtranclp rtranclp.rtrancl_refl)
qed

theorem cached_updates_exact_witness:
  "mset (updates both_counted) = mset (concat (map (resolve sample_prometheus 0 ''c'') [(''10'', Add1), (''10'', Add1)]))"
  using cached_updates_exact [OF both_counted_steps] by (simp add: both_counted_def)

end
