(* ===== verification/Discoverer.thy ===== *)
theory Discoverer
  imports Go_Strings
begin

text \<open>
  \<^verbatim>\<open>discoverer/discoverer.go\<close> and \<^verbatim>\<open>discoverer/dns.go\<close>: endpoints, the repeated resolution of a domain, the difference
  between two resolutions and the notification of handlers. The resolver (\<^verbatim>\<open>net.LookupHost\<close>, one answer per
  attempt), the IP pattern with \<^verbatim>\<open>net.ParseIP\<close> and the order of ranging over a map are arguments. The
  set of hosts is a list without duplicates, a handler is a number, and the calls of handlers are listed in
  the order they are made.
\<close>

section \<open>Endpoints\<close>

record Endpoint =
  epAddr :: string
  epHost :: string
  epPort :: int

type_synonym EndpointList = "Endpoint list"

definition Addresses :: "EndpointList \<Rightarrow> string list" where
  "Addresses el = map epAddr el"

definition AddressMap :: "EndpointList \<Rightarrow> (string, unit) gomap" where
  "AddressMap el = fold (\<lambda>ep m. mput (epAddr ep) () m) el []"

text \<open>\<^verbatim>\<open>net.JoinHostPort\<close> puts a host with a colon (IPv6) in brackets.\<close>

definition JoinHostPort :: "string \<Rightarrow> string \<Rightarrow> string" where
  "JoinHostPort host port =
     (if CHR '':'' \<in> set host then ''['' @ host @ '']:'' @ port else host @ '':'' @ port)"

definition BuildAddr :: "string \<Rightarrow> int \<Rightarrow> string" where
  "BuildAddr host port = JoinHostPort host (Itoa port)"

definition BuildAddrString :: "string \<Rightarrow> string \<Rightarrow> string" where
  "BuildAddrString host port = JoinHostPort host port"

definition mkEndpoint :: "int \<Rightarrow> string \<Rightarrow> Endpoint" where
  "mkEndpoint port host = \<lparr>epAddr = BuildAddr host port, epHost = host, epPort = port\<rparr>"

section \<open>The discoverer\<close>

datatype dns_err =
    ErrInvalidPort
  | TickerPanic      \<comment> \<open>\<^verbatim>\<open>time.NewTicker\<close> with a negative interval\<close>

record dns_env =
  LookupHost :: "nat \<Rightarrow> string + string list"
  hostOrd :: "string list \<Rightarrow> string list"
  handlerOrd :: "nat list \<Rightarrow> nat list"

record notification =
  nHandler :: nat
  nAll :: EndpointList
  nAdd :: EndpointList
  nDel :: EndpointList

record dnsDiscoverer =
  domain :: string
  dPort :: int
  lookupInterval :: duration
  endpointList :: EndpointList
  hostListStr :: string
  hostListMap :: "string list"
  eventHandlers :: "nat list"
  closeFunc :: bool
  stopped :: bool
  notified :: "notification list"

definition GetEndpoints :: "dnsDiscoverer \<Rightarrow> EndpointList" where
  "GetEndpoints d = endpointList d"

definition AddEventHandler :: "nat \<Rightarrow> dnsDiscoverer \<Rightarrow> dnsDiscoverer" where
  "AddEventHandler h d = d\<lparr>eventHandlers := List.insert h (eventHandlers d)\<rparr>"

definition DelEventHandler :: "nat \<Rightarrow> dnsDiscoverer \<Rightarrow> dnsDiscoverer" where
  "DelEventHandler h d = d\<lparr>eventHandlers := remove1 h (eventHandlers d)\<rparr>"

text \<open>\<^verbatim>\<open>closeFunc\<close> is set only where the updating goroutine runs; it closes \<^verbatim>\<open>stopCh\<close>, and closing it again
  panics (\<open>None\<close>).\<close>

definition dns_Close :: "dnsDiscoverer \<Rightarrow> dnsDiscoverer option" where
  "dns_Close d =
     (if \<not> closeFunc d then Some d else if stopped d then None else Some (d\<lparr>stopped := True\<rparr>))"

section \<open>Looking up\<close>

definition addHosts :: "string list \<Rightarrow> string list \<Rightarrow> string list" where
  "addHosts new hosts = fold List.insert new hosts"

text \<open>The loop over at most 32 attempts. One answer with several hosts is enough; a resolver that gives one
  host at a time is asked until it has been asked more than twice as often as there are hosts.\<close>

function lookup_loop :: "(nat \<Rightarrow> string + string list) \<Rightarrow> nat \<Rightarrow> string list \<Rightarrow> string list" where
  "lookup_loop lk i hosts =
     (if i \<le> 32
      then case lk i of
             Inl er \<Rightarrow> hosts
           | Inr lookupHosts \<Rightarrow>
               let hosts' = addHosts lookupHosts hosts
               in if length lookupHosts > 1 then hosts'
                  else if i > length hosts' * 2 \<and> i > 12 then hosts'
                  else lookup_loop lk (Suc i) hosts'
      else hosts)"
  by pat_completeness auto
termination by (relation "measure (\<lambda>(lk, i, hosts). 33 - i)") auto

declare lookup_loop.simps [simp del]

fun insort_str :: "string \<Rightarrow> string list \<Rightarrow> string list" where
  "insort_str x [] = [x]"
| "insort_str x (y # ys) =
     (if lexordp_eq (map of_char x :: nat list) (map of_char y) then x # y # ys else y # insort_str x ys)"

text \<open>\<^verbatim>\<open>sort.Strings\<close>: bytewise order.\<close>

definition sortStrings :: "string list \<Rightarrow> string list" where
  "sortStrings xs = foldr insort_str xs []"

definition lookup :: "dns_env \<Rightarrow> dnsDiscoverer \<Rightarrow> dnsDiscoverer" where
  "lookup e d =
     (let hosts = lookup_loop (LookupHost e) 1 []
      in if hosts = [] then d
         else let allHosts = hostOrd e hosts;
                  allEndpoints = map (mkEndpoint (dPort d)) allHosts;
                  addEndpoints = map (mkEndpoint (dPort d)) (filter (\<lambda>h. h \<notin> set (hostListMap d)) allHosts);
                  delEndpoints = map (mkEndpoint (dPort d))
                    (filter (\<lambda>h. h \<notin> set allHosts) (hostOrd e (hostListMap d)));
                  allHostStr = Join (sortStrings allHosts) '';'';
                  d1 = d\<lparr>endpointList := allEndpoints, hostListMap := allHosts,
                         hostListStr := (if allHostStr \<noteq> hostListStr d then allHostStr else hostListStr d)\<rparr>
              in if addEndpoints \<noteq> [] \<or> delEndpoints \<noteq> []
                 then d1\<lparr>notified := notified d1 @
                       map (\<lambda>h. \<lparr>nHandler = h, nAll = allEndpoints, nAdd = addEndpoints, nDel = delEndpoints\<rparr>)
                         (handlerOrd e (eventHandlers d1))\<rparr>
                 else d1)"

section \<open>Construction\<close>

text \<open>The IP pattern and the printed form of the parsed address are the arguments \<open>isIP\<close> and \<open>ipString\<close>; without
  an IP the first lookup happens at once and the goroutine that repeats it is started.\<close>

definition NewDNS :: "dns_env \<Rightarrow> (string \<Rightarrow> bool) \<Rightarrow> (string \<Rightarrow> string) \<Rightarrow> string \<Rightarrow> int \<Rightarrow> duration \<Rightarrow> dns_err + dnsDiscoverer" where
  "NewDNS e isIP ipString dname port interval =
     (if port \<le> 0 \<or> port > 65535 then Inl ErrInvalidPort
      else let d = \<lparr>domain = dname, dPort = port,
                    lookupInterval = (if interval = 0 then 30 * second else interval),
                    endpointList = [], hostListStr = [], hostListMap = [], eventHandlers = [], closeFunc = False,
                    stopped = False, notified = []\<rparr>
           in if isIP dname
              then Inr (d\<lparr>endpointList := [mkEndpoint port (ipString dname)], hostListStr := ipString dname\<rparr>)
              else if lookupInterval d \<le> 0 then Inl TickerPanic
              else Inr ((lookup e d)\<lparr>closeFunc := True\<rparr>))"

text \<open>A tick of the goroutine of \<^verbatim>\<open>update\<close>; after \<^verbatim>\<open>Close\<close> there are none.\<close>

definition dns_tick :: "dns_env \<Rightarrow> dnsDiscoverer \<Rightarrow> dnsDiscoverer option" where
  "dns_tick e d = (if closeFunc d \<and> \<not> stopped d then Some (lookup e d) else None)"

section \<open>Addresses\<close>

lemma last_sep:
  "c \<notin> set p \<Longrightarrow> c \<notin> set q \<Longrightarrow> xs @ c # p = ys @ c # q \<Longrightarrow> xs = ys \<and> p = q"
  by (induction xs arbitrary: ys) (auto simp: Cons_eq_append_conv)

lemma Itoa_inj:
  assumes "0 < i" "i \<le> 65535" "0 < j" "j \<le> 65535" "Itoa i = Itoa j"
  shows "i = j"
proof -
  have "Atoi (Itoa k) = Some k" if "0 < k" "k \<le> 65535" for k using that by (intro Atoi_Itoa) simp_all
  from this [OF assms(1,2)] this [OF assms(3,4)] assms(5) show ?thesis by (metis option.inject)
qed

text \<open>
  Addresses identify endpoints: two hosts and ports, IPv4, IPv6 or names, that give the same address
  are the same. The pool, which knows endpoints by their address only, cannot confuse two of them.
\<close>

theorem BuildAddr_injective:
  assumes "0 < p" "p \<le> 65535" "0 < q" "q \<le> 65535" and "BuildAddr h p = BuildAddr k q"
  shows "h = k \<and> p = q"
proof -
  let ?br = "\<lambda>h. if CHR '':'' \<in> set h then ''['' @ h @ '']'' else h"
  have e: "BuildAddr h p = ?br h @ CHR '':'' # Itoa p" for h p by (simp add: BuildAddr_def JoinHostPort_def)
  from assms(5) have "?br h @ CHR '':'' # Itoa p = ?br k @ CHR '':'' # Itoa q" by (simp only: e)
  from last_sep [OF Itoa_no_colon Itoa_no_colon this] have br: "?br h = ?br k" and i: "Itoa p = Itoa q" by auto
  have "p = q" using assms(1-4) by (intro Itoa_inj [OF _ _ _ _ i])
  moreover have "h = k"
  proof (cases "CHR '':'' \<in> set h")
    case True
    then have "CHR '':'' \<in> set k" using br by (cases "CHR '':'' \<in> set k") (auto simp flip: br)
    with True br show ?thesis by simp
  next
    case False
    then have "CHR '':'' \<notin> set (?br k)" unfolding br [symmetric] by simp
    then have "CHR '':'' \<notin> set k" by (auto split: if_splits)
    with False br show ?thesis by simp
  qed
  ultimately show ?thesis by simp
qed

theorem BuildAddr_injective_witness: "BuildAddr ''::1'' 80 \<noteq> BuildAddr ''10.0.0.1'' 80"
  using BuildAddr_injective [of 80 80 "''::1''" "''10.0.0.1''"] by auto

lemma mkEndpoint_inj: "mkEndpoint port h = mkEndpoint port k \<longleftrightarrow> h = k"
  by (auto simp: mkEndpoint_def)

lemma inj_mkEndpoint: "inj (mkEndpoint port)"
  by (rule injI) (simp add: mkEndpoint_inj)

section \<open>The resolution loop\<close>

lemma addHosts_set [simp]: "set (addHosts new hosts) = set new \<union> set hosts"
  unfolding addHosts_def by (induction new arbitrary: hosts) auto

lemma addHosts_distinct: "distinct hosts \<Longrightarrow> distinct (addHosts new hosts)"
  unfolding addHosts_def by (induction new arbitrary: hosts) (auto simp: distinct_insert)

lemma lookup_loop_distinct: "distinct hosts \<Longrightarrow> distinct (lookup_loop lk i hosts)"
  by (induction lk i hosts rule: lookup_loop.induct)
    (subst lookup_loop.simps, auto simp: Let_def addHosts_distinct split: sum.split)

definition answers :: "(nat \<Rightarrow> string + string list) \<Rightarrow> nat \<Rightarrow> nat \<Rightarrow> string set" where
  "answers lk i n = {h. \<exists>j hs. i \<le> j \<and> j < n \<and> lk j = Inr hs \<and> h \<in> set hs}"

lemma answers_step: "i < n \<Longrightarrow> lk i = Inr hs \<Longrightarrow> answers lk i n = set hs \<union> answers lk (Suc i) n"
  by (auto simp: answers_def; metis Suc_leD Suc_leI le_neq_implies_less sum.inject(2))

lemma lookup_loop_answers:
  "\<exists>n. n \<le> max i 33 \<and> i \<le> n \<and> set (lookup_loop lk i hosts) = set hosts \<union> answers lk i n"
proof (induction lk i hosts rule: lookup_loop.induct)
  case (1 lk i hosts)
  have none: "answers lk i i = {}" by (auto simp: answers_def)
  show ?case
  proof (cases "i \<le> 32")
    case False
    then have "lookup_loop lk i hosts = hosts" by (simp add: lookup_loop.simps)
    with none show ?thesis by (intro exI [of _ i]) simp
  next
    case True
    show ?thesis
    proof (cases "lk i")
      case (Inl er)
      then have "lookup_loop lk i hosts = hosts" by (simp add: lookup_loop.simps)
      with none show ?thesis by (intro exI [of _ i]) simp
    next
      case (Inr hs)
      let ?h = "addHosts hs hosts"
      have one: "answers lk i (Suc i) = set hs" using answers_step [of i "Suc i" lk, OF _ Inr] by (auto simp: answers_def)
      show ?thesis
      proof (cases "length hs > 1 \<or> (i > length ?h * 2 \<and> i > 12)")
        case stop: True
        then have "lookup_loop lk i hosts = ?h" using True Inr by (subst lookup_loop.simps) (auto simp: Let_def)
        with one True show ?thesis by (intro exI [of _ "Suc i"]) auto
      next
        case go: False
        then have eq: "lookup_loop lk i hosts = lookup_loop lk (Suc i) ?h"
          using True Inr by (subst lookup_loop.simps) (auto simp: Let_def)
        from "1.IH" [OF True Inr refl] go obtain n where
          n: "n \<le> max (Suc i) 33" "Suc i \<le> n" "set (lookup_loop lk (Suc i) ?h) = set ?h \<union> answers lk (Suc i) n" by auto
        with answers_step [of i n lk, OF _ Inr] True show ?thesis unfolding eq by (intro exI [of _ n]) auto
      qed
    qed
  qed
qed

lemma lookup_loop_only_first:
  "(\<And>j. i \<le> j \<Longrightarrow> j \<le> 32 \<Longrightarrow> lk j = lk' j) \<Longrightarrow> lookup_loop lk i hosts = lookup_loop lk' i hosts"
proof (induction lk i hosts rule: lookup_loop.induct)
  case (1 lk i hosts)
  show ?case
  proof (cases "i \<le> 32")
    case True
    have e: "lk' i = lk i" using "1.prems" [of i] True by simp
    have "lookup_loop lk (Suc i) (addHosts hs hosts) = lookup_loop lk' (Suc i) (addHosts hs hosts)"
      if "lk i = Inr hs" "\<not> 1 < length hs" "\<not> (length (addHosts hs hosts) * 2 < i \<and> 12 < i)" for hs
      using "1.IH" [OF True that(1) refl that(2,3)] "1.prems" by simp
    then show ?thesis using True e by (subst (1 2) lookup_loop.simps) (auto simp: Let_def split: sum.split)
  qed (simp add: lookup_loop.simps)
qed

text \<open>
  C32. Resolving a domain asks the resolver at most 32 times, whatever it answers (the answers to later
  attempts cannot change the result), and the hosts found are exactly those of the answers received up
  to some attempt, without duplicates.
\<close>

theorem lookup_bounded_and_exact:
  "distinct (lookup_loop lk 1 []) \<and>
   (\<exists>n \<le> 32. set (lookup_loop lk 1 []) = {h. \<exists>j hs. 1 \<le> j \<and> j \<le> n \<and> lk j = Inr hs \<and> h \<in> set hs}) \<and>
   lookup_loop lk 1 [] = lookup_loop (\<lambda>j. if j \<le> 32 then lk j else Inl []) 1 []"
proof -
  obtain n where n: "n \<le> 33" "1 \<le> n" "set (lookup_loop lk 1 []) = answers lk 1 n"
    using lookup_loop_answers [of 1 lk "[]"] by auto
  then have "answers lk 1 n = {h. \<exists>j hs. 1 \<le> j \<and> j \<le> n - 1 \<and> lk j = Inr hs \<and> h \<in> set hs}"
    by (auto simp: answers_def)
  with n have "\<exists>m \<le> 32. set (lookup_loop lk 1 []) = {h. \<exists>j hs. 1 \<le> j \<and> j \<le> m \<and> lk j = Inr hs \<and> h \<in> set hs}"
    by (intro exI [of _ "n - 1"]) auto
  moreover have "lookup_loop lk 1 [] = lookup_loop (\<lambda>j. if j \<le> 32 then lk j else Inl []) 1 []"
    by (rule lookup_loop_only_first) simp
  ultimately show ?thesis using lookup_loop_distinct [of "[]" lk 1] by simp
qed

section \<open>Notifications\<close>

definition dns_inv :: "dnsDiscoverer \<Rightarrow> bool" where
  "dns_inv d \<longleftrightarrow> endpointList d = map (mkEndpoint (dPort d)) (hostListMap d) \<and> distinct (hostListMap d) \<and>
     distinct (eventHandlers d)"

definition dns_env_ok :: "dns_env \<Rightarrow> bool" where
  "dns_env_ok e \<longleftrightarrow> range_order (hostOrd e) \<and> range_order (handlerOrd e)"

lemma dns_inv_ops:
  "dns_inv d \<Longrightarrow> dns_inv (AddEventHandler h d)" "dns_inv d \<Longrightarrow> dns_inv (DelEventHandler h d)" "dns_inv d \<Longrightarrow> dns_Close d = Some d' \<Longrightarrow> dns_inv d'"
  by (auto simp: dns_inv_def AddEventHandler_def DelEventHandler_def dns_Close_def split: if_splits)

text \<open>What one lookup does, in terms of sets of endpoints.\<close>

lemma lookup_spec:
  assumes d: "dns_inv d" and e: "dns_env_ok e"
  shows "dns_inv (lookup e d) \<and> eventHandlers (lookup e d) = eventHandlers d \<and>
    (let A = set (endpointList (lookup e d)); B = set (endpointList d) in
     \<exists>ns. notified (lookup e d) = notified d @ ns \<and> (A = B \<longrightarrow> ns = []) \<and>
       (A \<noteq> B \<longrightarrow> map nHandler ns = handlerOrd e (eventHandlers d)) \<and>
       (\<forall>n \<in> set ns. set (nAll n) = A \<and> set (nAdd n) = A - B \<and> set (nDel n) = B - A))"
proof -
  let ?hosts = "lookup_loop (LookupHost e) 1 []" and ?mk = "mkEndpoint (dPort d)"
  show ?thesis
  proof (cases "?hosts = []")
    case True
    then have "lookup e d = d" by (simp add: lookup_def)
    with d show ?thesis by simp
  next
    case False
    let ?all = "hostOrd e ?hosts" and ?old = "hostListMap d"
    let ?add = "map ?mk (filter (\<lambda>h. h \<notin> set ?old) ?all)" and ?del = "map ?mk (filter (\<lambda>h. h \<notin> set ?all) (hostOrd e ?old))"
    let ?d1 = "d\<lparr>endpointList := map ?mk ?all, hostListMap := ?all,
      hostListStr := (if Join (sortStrings ?all) '';'' \<noteq> hostListStr d then Join (sortStrings ?all) '';'' else hostListStr d)\<rparr>"
    let ?ns = "map (\<lambda>h. \<lparr>nHandler = h, nAll = map ?mk ?all, nAdd = ?add, nDel = ?del\<rparr>) (handlerOrd e (eventHandlers d))"
    have l: "lookup e d = (if ?add \<noteq> [] \<or> ?del \<noteq> [] then ?d1\<lparr>notified := notified d @ ?ns\<rparr> else ?d1)"
      unfolding lookup_def using False by (simp add: Let_def)
    have ro: "range_order (hostOrd e)" using e by (simp add: dns_env_ok_def)
    note all = range_orderD [OF ro lookup_loop_distinct [of "[]" "LookupHost e" 1, simplified]]
    have old: "set (hostOrd e ?old) = set ?old" using range_orderD(2) [OF ro] d by (simp add: dns_inv_def)
    have B: "set (endpointList d) = ?mk ` set ?old" using d by (simp add: dns_inv_def)
    have A: "set (endpointList (lookup e d)) = ?mk ` set ?all" by (simp add: l)
    have sa: "set ?add = ?mk ` set ?all - ?mk ` set ?old" by (auto simp: mkEndpoint_inj)
    have sd: "set ?del = ?mk ` set ?old - ?mk ` set ?all" using old by (auto simp: mkEndpoint_inj)
    have emp: "?add = [] \<and> ?del = [] \<longleftrightarrow> ?mk ` set ?all = ?mk ` set ?old"
      using sa sd by (metis Diff_eq_empty_iff equalityE set_empty subset_antisym)
    have inv: "dns_inv (lookup e d)" using all(1) d by (simp add: l dns_inv_def)
    have nh: "map nHandler ?ns = handlerOrd e (eventHandlers d)" by (simp add: comp_def)
    have nt: "notified (lookup e d) = notified d @ (if ?add = [] \<and> ?del = [] then [] else ?ns)" by (auto simp: l)
    have each: "set (nAll n) = ?mk ` set ?all \<and> set (nAdd n) = ?mk ` set ?all - ?mk ` set ?old \<and>
        set (nDel n) = ?mk ` set ?old - ?mk ` set ?all" if "n \<in> set ?ns" for n
    proof -
      from that have "nAll n = map ?mk ?all" "nAdd n = ?add" "nDel n = ?del" by auto
      then show ?thesis using sa sd by simp
    qed
    have ev: "eventHandlers (lookup e d) = eventHandlers d" by (simp add: l)
    show ?thesis unfolding Let_def A B
      by (intro conjI inv ev exI [of _ "if ?add = [] \<and> ?del = [] then [] else ?ns"] nt) (use emp nh each in auto)
  qed
qed

text \<open>What a handler makes of its notifications: it removes the deleted endpoints and adds the new ones.\<close>

definition replay :: "nat \<Rightarrow> notification list \<Rightarrow> Endpoint set \<Rightarrow> Endpoint set" where
  "replay h ns S = fold (\<lambda>n S. if nHandler n = h then (S - set (nDel n)) \<union> set (nAdd n) else S) ns S"

lemma replay_append: "replay h (ms @ ns) S = replay h ns (replay h ms S)"
  by (simp add: replay_def)

lemma set_patch: "(A - (B - A)) \<union> (A - B) = (A :: 'a set)" "(B - (B - A)) \<union> (A - B) = (A :: 'a set)"
  by blast+

lemma replay_same: "(\<forall>n \<in> set ns. set (nAdd n) = A - B \<and> set (nDel n) = B - A) \<Longrightarrow> replay h ns A = A"
  unfolding replay_def by (induction ns) (simp_all add: set_patch)

lemma replay_once:
  assumes "\<forall>n \<in> set ns. set (nAdd n) = A - B \<and> set (nDel n) = B - A" "h \<in> nHandler ` set ns"
  shows "replay h ns B = A"
  using assms
proof (induction ns)
  case (Cons n ns)
  show ?case
  proof (cases "nHandler n = h")
    case True
    then have "replay h (n # ns) B = replay h ns A" using Cons.prems by (simp add: replay_def set_patch)
    then show ?thesis using replay_same [of ns A B h] Cons.prems by simp
  next
    case False
    then have "replay h (n # ns) B = replay h ns B" by (simp add: replay_def)
    with Cons False show ?thesis by auto
  qed
qed simp

text \<open>
  C31. The notifications refine the endpoint list: a registered handler that knew the list before and applies
  every addition and deletion it is told about has, after any number of lookups with any answers
  (failing and empty ones included), exactly the current list of endpoints.
\<close>

theorem handler_tracks_endpoints:
  assumes "dns_inv d" and "h \<in> set (eventHandlers d)" and "\<forall>e \<in> set es. dns_env_ok e"
  shows "\<exists>ns. notified (fold lookup es d) = notified d @ ns \<and>
    replay h ns (set (endpointList d)) = set (endpointList (fold lookup es d))"
  using assms
proof (induction es arbitrary: d)
  case Nil
  then show ?case by (simp add: replay_def)
next
  case (Cons e es)
  let ?d = "lookup e d" and ?A = "set (endpointList (lookup e d))" and ?B = "set (endpointList d)"
  have e: "dns_env_ok e" using Cons.prems(3) by simp
  note sp = lookup_spec [OF Cons.prems(1) e, unfolded Let_def]
  from sp have inv: "dns_inv ?d" and ev: "eventHandlers ?d = eventHandlers d" by (rule conjunct1, elim conjE)
  from sp obtain ns where ns: "notified ?d = notified d @ ns" "?A = ?B \<longrightarrow> ns = []"
    "?A \<noteq> ?B \<longrightarrow> map nHandler ns = handlerOrd e (eventHandlers d)"
    and all: "\<forall>n \<in> set ns. set (nAll n) = ?A \<and> set (nAdd n) = ?A - ?B \<and> set (nDel n) = ?B - ?A"
    by (elim conjE exE) (rule that)
  have ns4: "\<forall>n \<in> set ns. set (nAdd n) = ?A - ?B \<and> set (nDel n) = ?B - ?A" using all by simp
  have "replay h ns ?B = ?A"
  proof (cases "?A = ?B")
    case True
    then show ?thesis using ns(2) by (simp add: replay_def)
  next
    case False
    have "set (handlerOrd e (eventHandlers d)) = set (eventHandlers d)"
      using range_orderD(2) [of "handlerOrd e" "eventHandlers d"] e Cons.prems(1) by (simp add: dns_env_ok_def dns_inv_def)
    moreover have "set (map nHandler ns) = set (handlerOrd e (eventHandlers d))" using ns(3) False by simp
    ultimately have "h \<in> nHandler ` set ns" using Cons.prems(2) by simp
    with ns4 show ?thesis by (rule replay_once)
  qed
  moreover obtain ms where "notified (fold lookup es ?d) = notified ?d @ ms"
    "replay h ms ?A = set (endpointList (fold lookup es ?d))"
    using Cons.IH [OF inv] ev Cons.prems(2,3) by auto
  ultimately show ?case using ns(1) by (intro exI [of _ "ns @ ms"]) (simp add: replay_append)
qed

definition sample_dns :: dnsDiscoverer where
  "sample_dns = \<lparr>domain = ''log.example'', dPort = 80, lookupInterval = 30 * second,
     endpointList = map (mkEndpoint 80) [''a'', ''b''], hostListStr = ''a;b'', hostListMap = [''a'', ''b''],
     eventHandlers = [7], closeFunc = True, stopped = False, notified = []\<rparr>"

definition sample_dns_env :: dns_env where
  "sample_dns_env = \<lparr>LookupHost = (\<lambda>_. Inr [''b'', ''c'']), hostOrd = (\<lambda>ks. ks), handlerOrd = (\<lambda>ks. ks)\<rparr>"

theorem handler_tracks_endpoints_witness:
  "\<exists>ns. notified (lookup sample_dns_env sample_dns) = ns \<and>
     replay 7 ns (mkEndpoint 80 ` {''a'', ''b''}) = set (endpointList (lookup sample_dns_env sample_dns))"
  using handler_tracks_endpoints [of sample_dns 7 "[sample_dns_env]"]
  by (simp add: sample_dns_def sample_dns_env_def dns_inv_def dns_env_ok_def)

end
