(* ===== verification/Framer.thy ===== *)
theory Framer
  imports Go_Binary
begin

text \<open>
  The length-field framer of \<^verbatim>\<open>framer/framer.go\<close>: its configuration, \<open>NewLengthField\<close>,
  \<open>ReadFrame\<close> and \<open>uint24\<close>. Go's \<^verbatim>\<open>int\<close> is 64 bits wide and every sum of \<open>ReadFrame\<close> is
  reduced to it, so the theorems hold also where a length field or an adjustment makes a sum wrap
  around. The locale \<open>stream_framer\<close> is the contract the client's receive loop relies on.
\<close>

unbundle bit_operations_syntax

section \<open>Data\<close>

datatype framer_err =
    ErrIncompleteFrame
  | ErrInvalidFrameLen
  | ErrInvalidFrameLenCfg
  | ErrExceedMaxFrameLen
  | ErrFrameLenLessThanLenFieldEndOffset
  | ErrNoEnoughBytesToTrip
  | ErrFieldOffset            \<comment> \<open>\<^verbatim>\<open>invalid field offset\<close>\<close>
  | ErrFieldLength            \<comment> \<open>\<^verbatim>\<open>invalid field length\<close>\<close>
  | ErrBytesToStrip           \<comment> \<open>\<^verbatim>\<open>invalid bytes to trip\<close>\<close>
  | ErrFieldOffsetMaxFrameLen \<comment> \<open>\<^verbatim>\<open>invalid field offset and max frame length\<close>\<close>
  | FramerPanic               \<comment> \<open>a slice expression out of range\<close>

record LengthFieldCfg =
  cfgLittleEndian :: bool
  MaxFrameLen :: int
  FieldOffset :: int
  FieldLength :: int
  Adjustment :: int
  BytesToStrip :: int

record lengthFieldBased =
  byteOrder :: ByteOrder
  cfg :: LengthFieldCfg

definition defaultSize :: int where
  "defaultSize = 64 * 1024"

section \<open>Operations\<close>

definition NewLengthField :: "LengthFieldCfg \<Rightarrow> framer_err + lengthFieldBased" where
  "NewLengthField c =
     (if FieldOffset c < 0 then Inl ErrFieldOffset
      else if FieldLength c \<le> 0 then Inl ErrFieldLength
      else if BytesToStrip c < 0 then Inl ErrBytesToStrip
      else if FieldLength c \<noteq> 1 \<and> FieldLength c \<noteq> 2 \<and> FieldLength c \<noteq> 3 \<and>
              FieldLength c \<noteq> 4 \<and> FieldLength c \<noteq> 8 then Inl ErrInvalidFrameLenCfg
      else let c' = (if MaxFrameLen c \<le> 0 then c\<lparr>MaxFrameLen := defaultSize\<rparr> else c)
           in if int64 (FieldOffset c' + FieldLength c') \<ge> MaxFrameLen c'
              then Inl ErrFieldOffsetMaxFrameLen
              else Inr \<lparr>byteOrder = (if cfgLittleEndian c' then LittleEndian else BigEndian),
                        cfg = c'\<rparr>)"

definition uint24 :: "ByteOrder \<Rightarrow> bytes \<Rightarrow> 64 word" where
  "uint24 bo b =
     (if bo = LittleEndian
      then ucast (b ! 0) OR push_bit 8 (ucast (b ! 1)) OR push_bit 16 (ucast (b ! 2))
      else ucast (b ! 2) OR push_bit 8 (ucast (b ! 1)) OR push_bit 16 (ucast (b ! 0)))"

definition readLenField :: "lengthFieldBased \<Rightarrow> bytes \<Rightarrow> 64 word option" where
  "readLenField c lenFieldBuf =
     (if FieldLength (cfg c) = 1 then Some (ucast (lenFieldBuf ! 0))
      else if FieldLength (cfg c) = 2 then Some (word_of_nat (GetUint (byteOrder c) lenFieldBuf))
      else if FieldLength (cfg c) = 3 then Some (uint24 (byteOrder c) lenFieldBuf)
      else if FieldLength (cfg c) = 4 then Some (word_of_nat (GetUint (byteOrder c) lenFieldBuf))
      else if FieldLength (cfg c) = 8 then Some (word_of_nat (GetUint (byteOrder c) lenFieldBuf))
      else None)"

definition ReadFrame :: "lengthFieldBased \<Rightarrow> bytes \<Rightarrow> framer_err + (int \<times> int \<times> int)" where
  "ReadFrame c input =
     (let inLen = int (length input);
          fieldEndOffset = int64 (FieldOffset (cfg c) + FieldLength (cfg c))
      in if inLen \<le> 0 then Inl ErrIncompleteFrame
         else if inLen < fieldEndOffset then Inl ErrIncompleteFrame
         else case goslice input (FieldOffset (cfg c)) fieldEndOffset of
           None \<Rightarrow> Inl FramerPanic
         | Some lenFieldBuf \<Rightarrow>
             (case readLenField c lenFieldBuf of
                None \<Rightarrow> Inl ErrInvalidFrameLenCfg
              | Some unajustedLen \<Rightarrow>
                  if unajustedLen = 0 then Inl ErrInvalidFrameLen
                  else let frameLen =
                         int64 (int64 (fieldEndOffset + Adjustment (cfg c)) + sint unajustedLen)
                       in if frameLen < fieldEndOffset
                          then Inl ErrFrameLenLessThanLenFieldEndOffset
                          else if frameLen > MaxFrameLen (cfg c) then Inl ErrExceedMaxFrameLen
                          else if frameLen > inLen then Inl ErrIncompleteFrame
                          else if BytesToStrip (cfg c) > frameLen then Inl ErrNoEnoughBytesToTrip
                          else let actualFrameLen = frameLen - BytesToStrip (cfg c);
                                   actualFrameOffset = BytesToStrip (cfg c);
                                   actualFrameOffsetEnd = actualFrameOffset + actualFrameLen
                               in Inr (frameLen, actualFrameOffset, actualFrameOffsetEnd)))"

section \<open>Well-formed framers\<close>

definition framer_wf :: "lengthFieldBased \<Rightarrow> bool" where
  "framer_wf f \<longleftrightarrow> 0 \<le> FieldOffset (cfg f) \<and> FieldLength (cfg f) \<in> {1, 2, 3, 4, 8} \<and>
     0 \<le> BytesToStrip (cfg f) \<and> FieldOffset (cfg f) + FieldLength (cfg f) < MaxFrameLen (cfg f) \<and>
     MaxFrameLen (cfg f) < 2 ^ 63"

lemma NewLengthField_wf:
  assumes "NewLengthField c = Inr f"
    and "MaxFrameLen c < 2 ^ 63" and "FieldOffset c + 8 < 2 ^ 63"
  shows "framer_wf f"
proof -
  from assms(1) have fl: "FieldLength c \<in> {1, 2, 3, 4, 8}" and off: "0 \<le> FieldOffset c"
    by (auto simp: NewLengthField_def Let_def split: if_splits)
  with assms(3) have "int64 (FieldOffset c + FieldLength c) = FieldOffset c + FieldLength c"
    by (intro int64_id) auto
  with assms fl off show ?thesis
    by (auto simp: NewLengthField_def framer_wf_def Let_def defaultSize_def split: if_splits)
qed

text \<open>The offset of the end of the length field never wraps on a well-formed framer.\<close>

lemma field_end_id:
  "framer_wf f \<Longrightarrow>
   int64 (FieldOffset (cfg f) + FieldLength (cfg f)) = FieldOffset (cfg f) + FieldLength (cfg f)"
  by (intro int64_id) (auto simp: framer_wf_def)

lemma readLenField_Some: "framer_wf f \<Longrightarrow> \<exists>v. readLenField f b = Some v"
  by (auto simp: framer_wf_def readLenField_def)

section \<open>The 24-bit length field\<close>

lemma or3_ucast:
  fixes a b c :: "8 word"
  shows "(ucast a OR push_bit 8 (ucast b) OR push_bit 16 (ucast c) :: 64 word)
     = ucast a + push_bit 8 (ucast b) + push_bit 16 (ucast c)"
proof -
  have bnd: "\<not> bit x n" if "8 \<le> n" for x :: "8 word" and n
    using that bit_imp_le_length [of x n] by auto
  have "(ucast a :: 64 word) AND push_bit 8 (ucast b) = 0"
    by (rule bit_word_eqI) (auto simp: bit_simps bnd)
  moreover have "(ucast a OR push_bit 8 (ucast b) :: 64 word) AND push_bit 16 (ucast c) = 0"
    by (rule bit_word_eqI) (auto simp: bit_simps bnd)
  ultimately show ?thesis by (simp add: disjunctive_add_eq_or or.assoc)
qed

lemma unat_or3:
  fixes a b c :: "8 word"
  shows "unat (ucast a OR push_bit 8 (ucast b) OR push_bit 16 (ucast c) :: 64 word)
     = unat a + 256 * unat b + 65536 * unat c"
proof -
  have "unat x < 2 ^ LENGTH(8)" for x :: "8 word" by (rule unsigned_less)
  then have lt: "unat x < 256" for x :: "8 word" by simp
  show ?thesis using lt [of a] lt [of b] lt [of c] unfolding or3_ucast
    by (simp add: unat_word_ariths push_bit_eq_mult unsigned_ucast_eq take_bit_nat_eq_self)
qed

lemma uint24_GetUint: "length b = 3 \<Longrightarrow> unat (uint24 bo b) = GetUint bo b"
  by (auto simp: uint24_def unat_or3 GetUint_def le_get_def be_get_def numeral_3_eq_3
      length_Suc_conv split: ByteOrder.splits)

text \<open>
  The hand-written 24-bit decoder of the framer reads from a three-byte length field exactly
  the value that the framer's byte order assigns to those bytes.
\<close>

theorem uint24_reads_byte_order:
  "unat (uint24 bo [b0, b1, b2]) = GetUint bo [b0, b1, b2]"
  by (rule uint24_GetUint) simp

section \<open>Reading one frame\<close>

lemma ReadFrame_unfold:
  assumes wf: "framer_wf f" and len: "int (length input) \<ge> FieldOffset (cfg f) + FieldLength (cfg f)"
  shows "\<exists>b v. goslice input (FieldOffset (cfg f)) (FieldOffset (cfg f) + FieldLength (cfg f)) = Some b
     \<and> int (length b) = FieldLength (cfg f) \<and> readLenField f b = Some v"
proof -
  have "0 \<le> FieldOffset (cfg f)" "0 < FieldLength (cfg f)"
    using wf by (auto simp: framer_wf_def)
  with len obtain b where
    b: "goslice input (FieldOffset (cfg f)) (FieldOffset (cfg f) + FieldLength (cfg f)) = Some b"
    by (simp add: goslice_def)
  moreover from slice_length [OF b] have "int (length b) = FieldLength (cfg f)" by simp
  moreover obtain v where "readLenField f b = Some v"
    using readLenField_Some [OF wf] by blast
  ultimately show ?thesis by blast
qed

lemma ReadFrame_bounds_aux:
  assumes "framer_wf f" and "ReadFrame f input = Inr (n, lo, hi)"
  shows "FieldOffset (cfg f) + FieldLength (cfg f) \<le> n \<and> n \<le> MaxFrameLen (cfg f) \<and>
    n \<le> int (length input) \<and> lo = BytesToStrip (cfg f) \<and> lo \<le> hi \<and> hi = n"
  using assms field_end_id [OF assms(1)]
  by (auto simp: ReadFrame_def Let_def split: if_splits option.splits)

lemma ReadFrame_no_panic:
  "framer_wf f \<Longrightarrow> ReadFrame f input \<noteq> Inl FramerPanic \<and> ReadFrame f input \<noteq> Inl ErrInvalidFrameLenCfg"
  using field_end_id [of f] ReadFrame_unfold [of f input]
  by (auto simp: ReadFrame_def Let_def split: if_splits)

lemma ReadFrame_append:
  assumes wf: "framer_wf f" and r: "ReadFrame f input = r" and "r \<noteq> Inl ErrIncompleteFrame"
  shows "ReadFrame f (input @ zs) = r"
proof -
  let ?e = "FieldOffset (cfg f) + FieldLength (cfg f)"
  have e: "int64 ?e = ?e" using wf by (rule field_end_id)
  have len: "?e \<le> int (length input)" and ne: "0 < int (length input)"
    using r assms(3) e by (auto simp: ReadFrame_def Let_def split: if_splits)
  have sl: "goslice (input @ zs) (FieldOffset (cfg f)) ?e = goslice input (FieldOffset (cfg f)) ?e"
    by (rule slice_append [OF len])
  obtain b v where b: "goslice input (FieldOffset (cfg f)) ?e = Some b" "readLenField f b = Some v"
    using ReadFrame_unfold [OF wf len] by blast
  have ge: "int (length input) \<le> int (length (input @ zs))" by simp
  show ?thesis
    using r assms(3) len ne e sl b ge
    by (auto simp: ReadFrame_def Let_def simp del: length_append split: if_splits)
qed

section \<open>The stream contract\<close>

text \<open>
  What a reader of a byte stream needs from a framer: a frame that was read is within the bytes
  at hand and makes progress, and its verdict does not change when more bytes arrive, except that
  an incomplete frame may become a frame or an error.
\<close>

text \<open>\<open>read_all\<close> cuts a buffer into the payloads of its frames, the bytes left and the error that
  stopped it, if it is not the incomplete one: the loop of \<^verbatim>\<open>client.OnTraffic\<close>, over any framer.
  A frame of length 0 would be read again for ever; \<open>read_all\<close> stops there without an error.\<close>

function read_all :: "(bytes \<Rightarrow> 'e + (int \<times> int \<times> int)) \<Rightarrow> 'e \<Rightarrow> bytes \<Rightarrow> bytes list \<times> bytes \<times> 'e option"
  where
  "read_all rd incomplete buf =
     (if buf = [] then ([], [], None)
      else case rd buf of
        Inl e \<Rightarrow> ([], buf, if e = incomplete then None else Some e)
      | Inr (n, lo, hi) \<Rightarrow>
          if n \<le> 0 then ([], buf, None)
          else let (ps, rest, e) = read_all rd incomplete (drop (nat n) buf)
               in (take (nat (hi - lo)) (drop (nat lo) buf) # ps, rest, e))"
  by pat_completeness auto
termination
  by (relation "measure (\<lambda>(rd, i, buf). length buf)") auto

declare read_all.simps [simp del]

locale stream_framer =
  fixes wf :: "'c \<Rightarrow> bool"
    and rd :: "'c \<Rightarrow> bytes \<Rightarrow> 'e + (int \<times> int \<times> int)"
    and incomplete :: 'e
  assumes progress: "wf c \<Longrightarrow> rd c buf = Inr (n, lo, hi) \<Longrightarrow>
      0 < n \<and> n \<le> int (length buf) \<and> 0 \<le> lo \<and> lo \<le> hi \<and> hi \<le> n"
    and stable: "wf c \<Longrightarrow> rd c buf = r \<Longrightarrow> r \<noteq> Inl incomplete \<Longrightarrow> rd c (buf @ zs) = r"
    and empty: "wf c \<Longrightarrow> rd c [] = Inl incomplete"
begin

lemma read_all_frame:
  assumes "wf c" "rd c buf = Inr (n, lo, hi)"
  shows "read_all (rd c) incomplete buf =
    (let (ps, rest, e) = read_all (rd c) incomplete (drop (nat n) buf)
     in (take (nat (hi - lo)) (drop (nat lo) buf) # ps, rest, e))"
proof -
  have "buf \<noteq> []" using assms empty [of c] by auto
  then show ?thesis using assms progress [OF assms]
    by (subst read_all.simps) (auto simp: Let_def)
qed

text \<open>Cutting a stream in two and carrying the leftover over gives the same payloads.\<close>

lemma read_all_append:
  assumes "wf c" "read_all (rd c) incomplete buf = (ps, rest, None)"
  shows "read_all (rd c) incomplete (buf @ zs) =
    (let (qs, rest', e) = read_all (rd c) incomplete (rest @ zs) in (ps @ qs, rest', e))"
  using assms(2)
proof (induction buf arbitrary: ps rest rule: measure_induct_rule [where f = length])
  case (less buf)
  show ?case
  proof (cases "buf = []")
    case True
    with less.prems show ?thesis by (subst (asm) read_all.simps) (simp add: case_prod_beta)
  next
    case False
    show ?thesis
    proof (cases "rd c buf")
      case (Inl e)
      with less.prems False have "ps = []" "rest = buf"
        by (subst (asm) read_all.simps; simp)+
      then show ?thesis by (simp add: case_prod_beta)
    next
      case (Inr r)
      obtain n lo hi where r: "r = (n, lo, hi)" by (cases r)
      note pr = progress [OF assms(1), of buf n lo hi]
      have b: "0 < n" "n \<le> int (length buf)" "0 \<le> lo" "lo \<le> hi" "hi \<le> n"
        using pr Inr r by auto
      obtain ps' where ps: "ps = take (nat (hi - lo)) (drop (nat lo) buf) # ps'"
        and ra: "read_all (rd c) incomplete (drop (nat n) buf) = (ps', rest, None)"
        using less.prems read_all_frame [OF assms(1), of buf n lo hi] Inr r
        by (auto simp: Let_def split: prod.splits)
      have IH: "read_all (rd c) incomplete (drop (nat n) buf @ zs) =
        (let (qs, rest', e) = read_all (rd c) incomplete (rest @ zs) in (ps' @ qs, rest', e))"
        using less.IH [OF _ ra] b False by simp
      have "rd c (buf @ zs) = Inr (n, lo, hi)"
        using stable [OF assms(1) Inr] r by simp
      from read_all_frame [OF assms(1) this] IH ps b show ?thesis
        by (auto simp: Let_def split: prod.splits)
    qed
  qed
qed

end

interpretation lf: stream_framer framer_wf ReadFrame ErrIncompleteFrame
proof unfold_locales
  fix c buf n lo hi
  assume wf: "framer_wf c" and "ReadFrame c buf = Inr (n, lo, hi)"
  from ReadFrame_bounds_aux [OF this] wf
  show "0 < n \<and> n \<le> int (length buf) \<and> 0 \<le> lo \<and> lo \<le> hi \<and> hi \<le> n"
    by (auto simp: framer_wf_def)
next
  fix c buf r zs
  assume "framer_wf c" "ReadFrame c buf = r" "r \<noteq> Inl ErrIncompleteFrame"
  then show "ReadFrame c (buf @ zs) = r" by (rule ReadFrame_append)
next
  fix c
  show "ReadFrame c [] = Inl ErrIncompleteFrame" by (simp add: ReadFrame_def Let_def)
qed

section \<open>Properties\<close>

text \<open>The configuration \<^verbatim>\<open>NewV3Client\<close> passes by default, and a buffer with a whole 11-byte frame
  followed by the start of the next one.\<close>

definition v3_default_cfg :: LengthFieldCfg where
  "v3_default_cfg = \<lparr>cfgLittleEndian = False, MaxFrameLen = 65536, FieldOffset = 2,
     FieldLength = 4, Adjustment = -6, BytesToStrip = 0\<rparr>"

definition v3_default_framer :: lengthFieldBased where
  "v3_default_framer = \<lparr>byteOrder = BigEndian, cfg = v3_default_cfg\<rparr>"

definition sample_stream :: bytes where
  "sample_stream = [7, 7, 0, 0, 0, 11, 0, 0, 0, 0, 42, 7, 7]"

lemma v3_default_framer_wf: "framer_wf v3_default_framer"
  by (simp add: framer_wf_def v3_default_framer_def v3_default_cfg_def)

lemma sample_ReadFrame: "ReadFrame v3_default_framer sample_stream = Inr (11, 0, 11)"
  by (simp add: ReadFrame_def Let_def v3_default_framer_def v3_default_cfg_def sample_stream_def
      int64_def goslice_def readLenField_def GetUint_def be_get_def)

text \<open>
  The framers that \<open>NewLengthField\<close> accepts are well formed: the length field has a supported
  width, lies inside the maximal frame, and the number of bytes to strip is not negative (for
  offsets and limits in the range of Go's \<^verbatim>\<open>int\<close> such that the end of the field is representable).
\<close>

theorem NewLengthField_accepts_only_wf:
  assumes "NewLengthField c = Inr f"
    and "MaxFrameLen c < 2 ^ 63" and "FieldOffset c + 8 < 2 ^ 63"
  shows "framer_wf f \<and> (0 < MaxFrameLen c \<longrightarrow> cfg f = c)"
proof
  show "framer_wf f" using assms by (rule NewLengthField_wf)
  show "0 < MaxFrameLen c \<longrightarrow> cfg f = c"
    using assms(1) by (auto simp: NewLengthField_def Let_def split: if_splits)
qed

theorem NewLengthField_accepts_only_wf_witness:
  "NewLengthField v3_default_cfg = Inr v3_default_framer \<and> framer_wf v3_default_framer"
proof -
  have ok: "NewLengthField v3_default_cfg = Inr v3_default_framer"
    by (simp add: NewLengthField_def v3_default_cfg_def v3_default_framer_def int64_def)
  moreover have "MaxFrameLen v3_default_cfg < 2 ^ 63" "FieldOffset v3_default_cfg + 8 < 2 ^ 63"
    by (simp_all add: v3_default_cfg_def)
  ultimately show ?thesis using NewLengthField_accepts_only_wf [OF ok] by simp
qed

text \<open>
  C20. \<open>ReadFrame\<close> never panics on a well-formed framer, whatever the peer sent: also for length
  fields whose value makes the 64-bit sum wrap around, the frame it reports is not empty, ends
  within the bytes at hand and within the maximal frame length, and the payload offsets it reports
  lie inside the frame.
\<close>

theorem ReadFrame_in_bounds:
  assumes "framer_wf f"
  shows "ReadFrame f input \<noteq> Inl FramerPanic \<and>
    (\<forall>n lo hi. ReadFrame f input = Inr (n, lo, hi) \<longrightarrow>
      0 < n \<and> n \<le> int (length input) \<and> n \<le> MaxFrameLen (cfg f) \<and> 0 \<le> lo \<and> lo \<le> hi \<and> hi = n)"
proof (intro conjI allI impI)
  show "ReadFrame f input \<noteq> Inl FramerPanic" using ReadFrame_no_panic [OF assms] by simp
next
  fix n lo hi assume r: "ReadFrame f input = Inr (n, lo, hi)"
  note b = ReadFrame_bounds_aux [OF assms r] lf.progress [OF assms r]
  show "0 < n" "n \<le> int (length input)" "n \<le> MaxFrameLen (cfg f)" "0 \<le> lo" "lo \<le> hi" "hi = n"
    using b by simp_all
qed

theorem ReadFrame_in_bounds_witness:
  "ReadFrame v3_default_framer sample_stream = Inr (11, 0, 11) \<and> (11 :: int) \<le> int (length sample_stream)"
  using ReadFrame_in_bounds [OF v3_default_framer_wf, of sample_stream] sample_ReadFrame by simp

text \<open>
  The receive loop does not depend on how the peer's bytes are cut into reads: reading a first
  part, keeping the leftover and reading again when the rest arrives yields the same payloads, the
  same leftover and the same error as reading everything at once.
\<close>

theorem frames_chunking:
  assumes "framer_wf f" and "read_all (ReadFrame f) ErrIncompleteFrame xs = (ps, rest, None)"
  shows "read_all (ReadFrame f) ErrIncompleteFrame (xs @ ys) =
    (let (qs, rest', e) = read_all (ReadFrame f) ErrIncompleteFrame (rest @ ys)
     in (ps @ qs, rest', e))"
  using assms by (rule lf.read_all_append)

lemma sample_read_all:
  "read_all (ReadFrame v3_default_framer) ErrIncompleteFrame sample_stream =
     ([take 11 sample_stream], [7, 7], None)"
proof -
  have "read_all (ReadFrame v3_default_framer) ErrIncompleteFrame [7, 7] = ([], [7, 7], None)"
    by (subst read_all.simps)
      (simp add: ReadFrame_def v3_default_framer_def v3_default_cfg_def int64_def)
  moreover have "drop 11 sample_stream = [7, 7]" by (simp add: sample_stream_def)
  ultimately show ?thesis
    using lf.read_all_frame [OF v3_default_framer_wf sample_ReadFrame] by simp
qed

theorem frames_chunking_witness:
  "read_all (ReadFrame v3_default_framer) ErrIncompleteFrame (sample_stream @ [0]) =
    (let (qs, rest', e) = read_all (ReadFrame v3_default_framer) ErrIncompleteFrame ([7, 7] @ [0])
     in ([take 11 sample_stream] @ qs, rest', e))"
  by (rule frames_chunking [OF v3_default_framer_wf sample_read_all])

end
