(* ===== verification/ConnPool.thy ===== *)
theory ConnPool
  imports Util
begin

text \<open>
  The actor of \<^verbatim>\<open>connpool/connpool.go\<close>: the state of \<^verbatim>\<open>connPool\<close> that its goroutine owns and every
  handler that goroutine runs. A handler is a function from the state to the state; what it does
  to the outside world (a reply on a caller's channel, closing a connection now or after a delay,
  starting a dial goroutine, sending a heartbeat) is appended to the log \<open>acts\<close> of the state, in
  order. What the handler reads from outside (the clock, the context gnet keeps for a
  connection, the random draw of the backoff, the order in which Go ranges over a map) is the
  argument of type \<open>pool_env\<close>; a handler runs to its end before the next one starts, so one
  environment per run is enough. A \<^verbatim>\<open>nil\<close> connection exists only at the entry points, where it is
  \<open>None\<close>. Counts are integers and the quotients of \<open>getExpectedConnPerEndpoint\<close> are integer
  quotients, which is what Go's floating-point quotients followed by \<^verbatim>\<open>math.Floor\<close> give for
  counts below \<open>2\<^sup>53\<close>.
\<close>

section \<open>Data\<close>

type_synonym conn = nat           \<comment> \<open>the identity of a \<^verbatim>\<open>gnet.Conn\<close>\<close>
type_synonym goerr = "string option"  \<comment> \<open>an error value from outside the pool; \<open>None\<close> is \<^verbatim>\<open>nil\<close>\<close>
type_synonym reply = nat          \<comment> \<open>the identity of a caller's reply channel\<close>

datatype pool_err =
    ErrInitEndpointEmpty
  | ErrDialerIsNil
  | ErrLoggerIsNil
  | ErrNoAvailableEndpoint
  | ErrPoolClosed
  | ErrDial string
  | ErrNilConn       \<comment> \<open>\<^verbatim>\<open>dial returned nil connection\<close>\<close>
  | ErrAddrEmpty     \<comment> \<open>\<^verbatim>\<open>addr is empty\<close>\<close>

record ConnContext =
  CreatedAt :: gotime
  Endpoint :: string

type_synonym getResult = "pool_err + conn"

datatype poolCmd =
    CmdGet reply
  | CmdPut conn goerr
  | CmdUpdateEndpoints "string list" "string list" "string list"
  | CmdConnClosed conn string goerr
  | CmdDialResult string "conn option" goerr "reply option"
  | CmdNumPooled reply
  | CmdClose reply

datatype pool_act =
    Reply reply getResult
  | ReplyInt reply int
  | CloseNow conn
  | CloseLater conn duration
  | GoDial string "reply option"
  | SendHeartbeatTo conn
  | CloseDoneCh reply

record pool_env =
  now :: gotime
  safeContext :: "conn \<Rightarrow> ConnContext option"
  rangeOrd :: "string list \<Rightarrow> string list"
  randOf :: "string \<Rightarrow> rat"

record connPool =
  cmdCh :: "poolCmd list"
  closeDone :: bool
  closed :: bool
  poolSize :: int
  poolIndex :: "64 word"
  connsPerEndpoint :: int
  requiredConnNum :: int
  backoff :: ExponentialBackoff
  maxConnLifetime :: duration
  idleConns :: "conn list"
  endpoints :: "string list"
  endpointMap :: "string list"
  unavailable :: "(string, gotime) gomap"
  retryCounts :: "(string, int) gomap"
  endpointConnCounts :: "(string, int) gomap"
  pendingDials :: "(string, int) gomap"
  countedConns :: "(conn, string) gomap"
  heartbeatFunc :: bool
  acts :: "pool_act list"

definition defaultConnCloseDelay :: duration where
  "defaultConnCloseDelay = 2 * minute"

definition defaultCmdChanSize :: nat where
  "defaultCmdChanSize = 4096"

abbreviation act :: "pool_act \<Rightarrow> connPool \<Rightarrow> connPool" where
  "act a p \<equiv> p\<lparr>acts := acts p @ [a]\<rparr>"

definition reply_to :: "reply option \<Rightarrow> getResult \<Rightarrow> connPool \<Rightarrow> connPool" where
  "reply_to r x p = (case r of None \<Rightarrow> p | Some c \<Rightarrow> act (Reply c x) p)"

section \<open>Helpers\<close>

definition CloseConn :: "conn \<Rightarrow> duration \<Rightarrow> connPool \<Rightarrow> connPool" where
  "CloseConn c after p = (if after \<le> 0 then act (CloseNow c) p else act (CloseLater c after) p)"

definition GetRemoteAddr :: "pool_env \<Rightarrow> conn \<Rightarrow> string" where
  "GetRemoteAddr e c = (case safeContext e c of None \<Rightarrow> '''' | Some x \<Rightarrow> Endpoint x)"

definition expired :: "pool_env \<Rightarrow> connPool \<Rightarrow> conn \<Rightarrow> bool" where
  "expired e p c =
     (if maxConnLifetime p \<le> 0 then False
      else case safeContext e c of
        None \<Rightarrow> False
      | Some x \<Rightarrow> CreatedAt x + maxConnLifetime p < now e)"

definition isConnUsable :: "pool_env \<Rightarrow> connPool \<Rightarrow> conn \<Rightarrow> string \<Rightarrow> bool" where
  "isConnUsable e p c addr =
     (if addr = '''' then False
      else if addr \<notin> set (endpointMap p) then False
      else \<not> expired e p c)"

definition incEndpointConnCount :: "conn \<Rightarrow> string \<Rightarrow> connPool \<Rightarrow> connPool" where
  "incEndpointConnCount c addr p =
     (if addr = '''' then p
      else if mhas (countedConns p) c then p
      else p\<lparr>countedConns := mput c addr (countedConns p),
             endpointConnCounts :=
               mput addr (mget0 (endpointConnCounts p) addr + 1) (endpointConnCounts p)\<rparr>)"

definition decEndpointConnCount :: "conn \<Rightarrow> string \<Rightarrow> connPool \<Rightarrow> connPool" where
  "decEndpointConnCount c addr p =
     (case map_of (countedConns p) c of
        None \<Rightarrow> p
      | Some countedAddr \<Rightarrow>
          let addr' = (if addr = '''' then countedAddr else addr);
              p' = p\<lparr>countedConns := mdel c (countedConns p)\<rparr>;
              count = mget0 (endpointConnCounts p') addr'
          in if count \<le> 1
             then p'\<lparr>endpointConnCounts := mdel addr' (endpointConnCounts p')\<rparr>
             else p'\<lparr>endpointConnCounts := mput addr' (count - 1) (endpointConnCounts p')\<rparr>)"

definition closeCountedConn :: "conn \<Rightarrow> string \<Rightarrow> duration \<Rightarrow> connPool \<Rightarrow> connPool" where
  "closeCountedConn c addr after p = CloseConn c after (decEndpointConnCount c addr p)"

definition getEndpointCount :: "connPool \<Rightarrow> int" where
  "getEndpointCount p = int (length (endpoints p))"

definition getConnCount :: "connPool \<Rightarrow> int" where
  "getConnCount p = sum_list (map snd (endpointConnCounts p))"

definition getAvailableEndpointCount :: "connPool \<Rightarrow> int" where
  "getAvailableEndpointCount p =
     int (length (endpoints p)) -
     int (length (filter (\<lambda>ep. ep \<in> set (endpointMap p)) (mkeys (unavailable p))))"

definition markUnavailable :: "pool_env \<Rightarrow> string \<Rightarrow> connPool \<Rightarrow> connPool" where
  "markUnavailable e ep p =
     (if ep = '''' \<or> getEndpointCount p \<le> 1 then p
      else if ep \<notin> set (endpointMap p) then p
      else let p' = p\<lparr>unavailable := mput ep (now e) (unavailable p)\<rparr>
           in if mhas (retryCounts p') ep then p'
              else p'\<lparr>retryCounts := mput ep 0 (retryCounts p')\<rparr>)"

definition storeIdleConn :: "conn \<Rightarrow> string \<Rightarrow> connPool \<Rightarrow> connPool" where
  "storeIdleConn c addr p =
     (if int (length (idleConns p)) \<ge> poolSize p
      then closeCountedConn c addr defaultConnCloseDelay p
      else p\<lparr>idleConns := idleConns p @ [c]\<rparr>)"

definition removeIdleConn :: "conn \<Rightarrow> connPool \<Rightarrow> connPool" where
  "removeIdleConn target p = p\<lparr>idleConns := remove1 target (idleConns p)\<rparr>"

definition closeIdleConns :: "pool_env \<Rightarrow> connPool \<Rightarrow> connPool" where
  "closeIdleConns e p =
     (fold (\<lambda>c q. closeCountedConn c (GetRemoteAddr e c) 0 q) (idleConns p) p)\<lparr>idleConns := []\<rparr>"

section \<open>Dialling\<close>

fun getEndpoint_loop :: "nat \<Rightarrow> connPool \<Rightarrow> connPool \<times> (pool_err + string)" where
  "getEndpoint_loop 0 p = (p, Inl ErrNoAvailableEndpoint)"
| "getEndpoint_loop (Suc i) p =
     (let ep = endpoints p ! (unat (poolIndex p) mod length (endpoints p));
          p' = p\<lparr>poolIndex := poolIndex p + 1\<rparr>
      in if mhas (unavailable p') ep then getEndpoint_loop i p' else (p', Inr ep))"

definition getEndpoint :: "connPool \<Rightarrow> connPool \<times> (pool_err + string)" where
  "getEndpoint p =
     (if endpoints p = [] then (p, Inl ErrNoAvailableEndpoint)
      else getEndpoint_loop (length (endpoints p)) p)"

text \<open>\<open>startDial\<close> up to the start of its goroutine; the goroutine is a thread of the interleaving
  model.\<close>

definition startDial :: "string \<Rightarrow> reply option \<Rightarrow> connPool \<Rightarrow> connPool" where
  "startDial addr r p =
     (if addr = '''' then reply_to r (Inl ErrAddrEmpty) p
      else if closed p then reply_to r (Inl ErrPoolClosed) p
      else act (GoDial addr r)
             (p\<lparr>pendingDials := mput addr (mget0 (pendingDials p) addr + 1) (pendingDials p)\<rparr>))"

text \<open>The dialer of the pool is outside; \<open>dial i ep\<close> is what its \<open>i\<close>-th call returns.\<close>

type_synonym dialer = "nat \<Rightarrow> string \<Rightarrow> conn option \<times> goerr"

definition dialNewConn :: "pool_env \<Rightarrow> dialer \<Rightarrow> nat \<Rightarrow> string \<Rightarrow> connPool \<Rightarrow>
    connPool \<times> (pool_err + conn option)" where
  "dialNewConn e dial i ep p =
     (case dial i ep of
        (_, Some er) \<Rightarrow> (markUnavailable e ep p, Inl (ErrDial er))
      | (c, None) \<Rightarrow> (p, Inr c))"

definition newConn :: "pool_env \<Rightarrow> dialer \<Rightarrow> nat \<Rightarrow> connPool \<Rightarrow> connPool \<times> (pool_err + conn option)" where
  "newConn e dial i p =
     (case getEndpoint p of
        (p', Inl er) \<Rightarrow> (p', Inl er)
      | (p', Inr ep) \<Rightarrow> dialNewConn e dial i ep p')"

section \<open>Handlers\<close>

definition putConn :: "pool_env \<Rightarrow> conn option \<Rightarrow> goerr \<Rightarrow> bool \<Rightarrow> connPool \<Rightarrow> connPool" where
  "putConn e conn er isNewConn p =
     (case conn of
        None \<Rightarrow> p
      | Some c \<Rightarrow>
          let addr = GetRemoteAddr e c
          in if addr = '''' then CloseConn c defaultConnCloseDelay p
             else if addr \<notin> set (endpointMap p) then closeCountedConn c addr defaultConnCloseDelay p
             else if er \<noteq> None
                  then closeCountedConn c addr defaultConnCloseDelay (markUnavailable e addr p)
             else if expired e p c
                  then startDial addr None (closeCountedConn c addr defaultConnCloseDelay p)
             else storeIdleConn c addr (if isNewConn then incEndpointConnCount c addr p else p))"

lemma idleConns_closeCountedConn [simp]: "idleConns (closeCountedConn c a d p) = idleConns p"
  by (simp add: closeCountedConn_def CloseConn_def decEndpointConnCount_def Let_def split: option.splits)

text \<open>The loop of \<^verbatim>\<open>handleGet\<close>: pop idle connections, oldest first, until one is usable.\<close>

function handleGet_loop :: "pool_env \<Rightarrow> connPool \<Rightarrow> connPool \<times> conn option" where
  "handleGet_loop e p =
     (case idleConns p of
        [] \<Rightarrow> (p, None)
      | c # cs \<Rightarrow>
          let p' = p\<lparr>idleConns := cs\<rparr>;
              addr = GetRemoteAddr e c
          in if isConnUsable e p' c addr then (p', Some c)
             else handleGet_loop e (closeCountedConn c addr defaultConnCloseDelay p'))"
  by pat_completeness auto
termination
  by (relation "measure (\<lambda>(e, p). length (idleConns p))") auto

declare handleGet_loop.simps [simp del]

definition handleGet :: "pool_env \<Rightarrow> reply \<Rightarrow> connPool \<Rightarrow> connPool" where
  "handleGet e r p =
     (if closed p then act (Reply r (Inl ErrPoolClosed)) p
      else case handleGet_loop e p of
        (p', Some c) \<Rightarrow> act (Reply r (Inr c)) p'
      | (p', None) \<Rightarrow>
          (case getEndpoint p' of
             (p'', Inl er) \<Rightarrow> act (Reply r (Inl er)) p''
           | (p'', Inr addr) \<Rightarrow> startDial addr (Some r) p''))"

definition retryGetFromCurrentEndpoints :: "pool_env \<Rightarrow> reply \<Rightarrow> connPool \<Rightarrow> connPool" where
  "retryGetFromCurrentEndpoints e r p =
     (if endpoints p = [] \<or> getAvailableEndpointCount p \<le> 0
      then act (Reply r (Inl ErrNoAvailableEndpoint)) p
      else handleGet e r p)"

definition handleDialResult :: "pool_env \<Rightarrow> string \<Rightarrow> conn option \<Rightarrow> goerr \<Rightarrow> reply option \<Rightarrow>
    connPool \<Rightarrow> connPool" where
  "handleDialResult e addr conn er r p0 =
     (let p = (if mget0 (pendingDials p0) addr > 1
               then p0\<lparr>pendingDials := mput addr (mget0 (pendingDials p0) addr - 1) (pendingDials p0)\<rparr>
               else p0\<lparr>pendingDials := mdel addr (pendingDials p0)\<rparr>)
      in if closed p
         then reply_to r (Inl ErrPoolClosed)
                (case conn of None \<Rightarrow> p | Some c \<Rightarrow> CloseConn c 0 p)
         else case er of
           Some m \<Rightarrow>
             let q = markUnavailable e addr p
             in reply_to r (Inl (ErrDial m))
                  (q\<lparr>retryCounts := mput addr (mget0 (retryCounts q) addr + 1) (retryCounts q)\<rparr>)
         | None \<Rightarrow>
             (case conn of
                None \<Rightarrow> reply_to r (Inl ErrNilConn) p
              | Some c \<Rightarrow>
                  let connAddr = (if GetRemoteAddr e c = '''' then addr else GetRemoteAddr e c)
                  in if connAddr \<notin> set (endpointMap p)
                     then (case r of
                             None \<Rightarrow> CloseConn c 0 p
                           | Some rc \<Rightarrow> retryGetFromCurrentEndpoints e rc (CloseConn c 0 p))
                     else let q = incEndpointConnCount c connAddr
                                    (p\<lparr>unavailable := mdel connAddr (unavailable p),
                                       retryCounts := mdel connAddr (retryCounts p)\<rparr>)
                          in case r of
                               Some rc \<Rightarrow> act (Reply rc (Inr c)) q
                             | None \<Rightarrow> storeIdleConn c connAddr q))"

definition handleConnClosed :: "pool_env \<Rightarrow> conn \<Rightarrow> string \<Rightarrow> goerr \<Rightarrow> connPool \<Rightarrow> connPool" where
  "handleConnClosed e c addr er p =
     removeIdleConn c
       (decEndpointConnCount c addr
         (if addr \<noteq> '''' \<and> er \<noteq> None then markUnavailable e addr p else p))"

text \<open>Keeping or closing the idle connections one by one, in order: the loops that build the new
  slice \<^verbatim>\<open>left\<close>.\<close>

fun sweepIdle :: "(conn \<Rightarrow> connPool \<Rightarrow> bool) \<Rightarrow> (conn \<Rightarrow> connPool \<Rightarrow> connPool) \<Rightarrow>
    conn list \<Rightarrow> conn list \<Rightarrow> connPool \<Rightarrow> connPool" where
  "sweepIdle drop_it close_it [] left p = p\<lparr>idleConns := left\<rparr>"
| "sweepIdle drop_it close_it (c # cs) left p =
     (if drop_it c p then sweepIdle drop_it close_it cs left (close_it c p)
      else sweepIdle drop_it close_it cs (left @ [c]) p)"

definition removeDeletedEndpointConns :: "pool_env \<Rightarrow> connPool \<Rightarrow> connPool" where
  "removeDeletedEndpointConns e p =
     sweepIdle (\<lambda>c q. GetRemoteAddr e c \<notin> set (endpointMap q))
       (\<lambda>c q. closeCountedConn c (GetRemoteAddr e c) defaultConnCloseDelay q) (idleConns p) [] p"

definition cleanExpiredConns :: "pool_env \<Rightarrow> connPool \<Rightarrow> connPool" where
  "cleanExpiredConns e p =
     sweepIdle (\<lambda>c q. expired e q c)
       (\<lambda>c q. startDial (GetRemoteAddr e c) None
                (closeCountedConn c (GetRemoteAddr e c) defaultConnCloseDelay q)) (idleConns p) [] p"

text \<open>\<open>removeEndpointConn\<close> closes at most \<open>count\<close> idle connections of one endpoint.\<close>

fun removeEndpointConn_loop :: "pool_env \<Rightarrow> string \<Rightarrow> int \<Rightarrow> int \<Rightarrow> conn list \<Rightarrow> conn list \<Rightarrow>
    connPool \<Rightarrow> connPool" where
  "removeEndpointConn_loop e addr count removed [] left p = p\<lparr>idleConns := left\<rparr>"
| "removeEndpointConn_loop e addr count removed (c # cs) left p =
     (if GetRemoteAddr e c = addr \<and> removed < count
      then removeEndpointConn_loop e addr count (removed + 1) cs left
             (closeCountedConn c addr defaultConnCloseDelay p)
      else removeEndpointConn_loop e addr count removed cs (left @ [c]) p)"

definition removeEndpointConn :: "pool_env \<Rightarrow> string \<Rightarrow> int \<Rightarrow> connPool \<Rightarrow> connPool" where
  "removeEndpointConn e addr count p = removeEndpointConn_loop e addr count 0 (idleConns p) [] p"

definition sendHeartbeat :: "connPool \<Rightarrow> connPool" where
  "sendHeartbeat p =
     (if \<not> heartbeatFunc p then p
      else fold (\<lambda>c q. act (SendHeartbeatTo c) q) (idleConns p) p)"

section \<open>Rebalancing and recovery\<close>

definition getExpectedConnPerEndpoint :: "connPool \<Rightarrow> int" where
  "getExpectedConnPerEndpoint p =
     (let curConnCount = getConnCount p
      in if curConnCount \<le> 0 then 1
         else let avgConnCount = (curConnCount + requiredConnNum p) div 2
              in if avgConnCount \<le> 0 then 1
                 else let availableEndpointCount = getAvailableEndpointCount p
                      in if availableEndpointCount \<le> 0 then 1
                         else let estimatedVal = curConnCount div availableEndpointCount;
                                  averageVal = avgConnCount div availableEndpointCount;
                                  initialVal = connsPerEndpoint p;
                                  result = (if estimatedVal < initialVal
                                            then min estimatedVal averageVal
                                            else max initialVal averageVal)
                              in max 1 result)"

definition startDials :: "int \<Rightarrow> string \<Rightarrow> connPool \<Rightarrow> connPool" where
  "startDials need addr p = (startDial addr None ^^ nat need) p"

definition rebalance_counted :: "pool_env \<Rightarrow> int \<Rightarrow> string \<Rightarrow> connPool \<Rightarrow> connPool" where
  "rebalance_counted e expectedConnPerEndpoint addr p =
     (let currentCount = mget0 (endpointConnCounts p) addr
      in if currentCount < expectedConnPerEndpoint
         then if addr \<notin> set (endpointMap p) then p
              else if mhas (unavailable p) addr then p
              else startDials (expectedConnPerEndpoint - currentCount - mget0 (pendingDials p) addr) addr p
         else if currentCount > expectedConnPerEndpoint
              then removeEndpointConn e addr (currentCount - expectedConnPerEndpoint) p
              else p)"

definition rebalance_missing :: "int \<Rightarrow> string \<Rightarrow> connPool \<Rightarrow> connPool" where
  "rebalance_missing expectedConnPerEndpoint addr p =
     (if mhas (endpointConnCounts p) addr then p
      else if mhas (unavailable p) addr then p
      else startDials (expectedConnPerEndpoint - mget0 (pendingDials p) addr) addr p)"

definition rebalance :: "pool_env \<Rightarrow> connPool \<Rightarrow> connPool" where
  "rebalance e p =
     (let expectedConnPerEndpoint = getExpectedConnPerEndpoint p
      in if expectedConnPerEndpoint \<le> 0 then p
         else let q = fold (rebalance_counted e expectedConnPerEndpoint)
                        (rangeOrd e (mkeys (endpointConnCounts p))) p
              in fold (rebalance_missing expectedConnPerEndpoint) (rangeOrd e (endpointMap q)) q)"

definition recover_one :: "pool_env \<Rightarrow> string \<Rightarrow> connPool \<times> bool \<Rightarrow> connPool \<times> bool" where
  "recover_one e ep pr =
     (let (p, recovered) = pr
      in if mget0 (pendingDials p) ep > 0 then (p, recovered)
         else case map_of (unavailable p) ep of
           None \<Rightarrow> (p, recovered)
         | Some lastUnavailable \<Rightarrow>
             let retries = mget0 (retryCounts p) ep
             in if now e - lastUnavailable > Next (backoff p) (randOf e ep) retries
                then (startDial ep None p, True) else (p, recovered))"

definition recover :: "pool_env \<Rightarrow> connPool \<Rightarrow> connPool \<times> bool" where
  "recover e p = fold (recover_one e) (rangeOrd e (mkeys (unavailable p))) (p, False)"

definition handleUpdateEndpoints :: "pool_env \<Rightarrow> string list \<Rightarrow> string list \<Rightarrow> string list \<Rightarrow>
    connPool \<Rightarrow> connPool" where
  "handleUpdateEndpoints e alls adds dels p =
     (if alls = [] then p
      else let p1 = p\<lparr>endpoints := alls, endpointMap := remdups alls\<rparr>;
               p2 = fold (\<lambda>ep q. if ep \<in> set (endpointMap q) then q
                                 else q\<lparr>unavailable := mdel ep (unavailable q),
                                        retryCounts := mdel ep (retryCounts q)\<rparr>)
                      (rangeOrd e (mkeys (unavailable p1))) p1;
               p3 = removeDeletedEndpointConns e p2
           in if adds \<noteq> [] \<or> dels \<noteq> [] then rebalance e p3 else p3)"

section \<open>The command loop\<close>

definition drain_cmd :: "poolCmd \<Rightarrow> connPool \<Rightarrow> connPool" where
  "drain_cmd cmd p =
     (case cmd of
        CmdGet r \<Rightarrow> act (Reply r (Inl ErrPoolClosed)) p
      | CmdPut c er \<Rightarrow> CloseConn c 0 p
      | CmdConnClosed c addr er \<Rightarrow> p
      | CmdDialResult addr conn er r \<Rightarrow>
          reply_to r (Inl ErrPoolClosed) (case conn of None \<Rightarrow> p | Some c \<Rightarrow> CloseConn c 0 p)
      | CmdNumPooled r \<Rightarrow> act (ReplyInt r 0) p
      | CmdUpdateEndpoints alls adds dels \<Rightarrow> p
      | CmdClose d \<Rightarrow> act (CloseDoneCh d) p)"

definition drainCmdChOnClose :: "connPool \<Rightarrow> connPool" where
  "drainCmdChOnClose p = (fold drain_cmd (cmdCh p) p)\<lparr>cmdCh := []\<rparr>"

definition handleCmd :: "pool_env \<Rightarrow> poolCmd \<Rightarrow> connPool \<Rightarrow> connPool \<times> bool" where
  "handleCmd e cmd p =
     (case cmd of
        CmdGet r \<Rightarrow> (handleGet e r p, False)
      | CmdPut c er \<Rightarrow> (putConn e (Some c) er False p, False)
      | CmdUpdateEndpoints alls adds dels \<Rightarrow> (handleUpdateEndpoints e alls adds dels p, False)
      | CmdConnClosed c addr er \<Rightarrow> (handleConnClosed e c addr er p, False)
      | CmdDialResult addr conn er r \<Rightarrow> (handleDialResult e addr conn er r p, False)
      | CmdNumPooled r \<Rightarrow> (act (ReplyInt r (int (length (idleConns p)))) p, False)
      | CmdClose d \<Rightarrow>
          (act (CloseDoneCh d) (drainCmdChOnClose (closeIdleConns e (p\<lparr>closeDone := True\<rparr>))), True))"

datatype pool_tick = RecoverTick | DumpTick | ReBalanceTick | HeartbeatTick | CleanExpiredTick

definition handleTick :: "pool_env \<Rightarrow> pool_tick \<Rightarrow> connPool \<Rightarrow> connPool" where
  "handleTick e t p =
     (case t of
        RecoverTick \<Rightarrow> (case recover e p of (p', b) \<Rightarrow> if b then rebalance e p' else p')
      | DumpTick \<Rightarrow> p
      | ReBalanceTick \<Rightarrow> rebalance e p
      | HeartbeatTick \<Rightarrow> sendHeartbeat p
      | CleanExpiredTick \<Rightarrow> cleanExpiredConns e p)"

section \<open>Construction\<close>

fun initConns_dial :: "pool_env \<Rightarrow> dialer \<Rightarrow> nat \<Rightarrow> nat \<Rightarrow> conn option list \<Rightarrow> pool_err option \<Rightarrow>
    connPool \<Rightarrow> connPool \<times> conn option list \<times> pool_err option" where
  "initConns_dial e dial i 0 conns lastErr p = (p, conns, lastErr)"
| "initConns_dial e dial i (Suc n) conns lastErr p =
     (case newConn e dial i p of
        (p', Inl er) \<Rightarrow> initConns_dial e dial (Suc i) n conns (Some er) p'
      | (p', Inr c) \<Rightarrow> initConns_dial e dial (Suc i) n (conns @ [c]) lastErr p')"

definition initConns :: "pool_env \<Rightarrow> dialer \<Rightarrow> int \<Rightarrow> connPool \<Rightarrow> connPool \<times> pool_err option" where
  "initConns e dial count p =
     (case initConns_dial e dial 0 (nat count) [] None p of
        (p', conns, lastErr) \<Rightarrow>
          if conns = [] then (p', lastErr)
          else (fold (\<lambda>c q. putConn e c None True q) conns p', None))"

text \<open>When \<open>initConns\<close> fails the source also calls \<open>closeIdleConns\<close> on the pool it throws away; the idle
  list is still empty at that point, so nothing is closed.\<close>

definition NewConnPool :: "pool_env \<Rightarrow> string list \<Rightarrow> int \<Rightarrow> int \<Rightarrow> dialer option \<Rightarrow> bool \<Rightarrow>
    duration \<Rightarrow> bool \<Rightarrow> pool_err + connPool" where
  "NewConnPool e initEndpoints perEndpoint size_arg dialer_arg log_given lifetime hb =
     (if initEndpoints = [] then Inl ErrInitEndpointEmpty
      else let cpe = (if perEndpoint \<le> 0 then 1 else perEndpoint)
           in case dialer_arg of
                None \<Rightarrow> Inl ErrDialerIsNil
              | Some dial \<Rightarrow>
                  if \<not> log_given then Inl ErrLoggerIsNil
                  else let required = int (length initEndpoints) * cpe;
                           sz = (if size_arg \<le> 0 then max 1024 required else size_arg);
                           p = \<lparr>cmdCh = [], closeDone = False, closed = False, poolSize = sz,
                                poolIndex = 0, connsPerEndpoint = cpe, requiredConnNum = required,
                                backoff = pool_backoff, maxConnLifetime = lifetime, idleConns = [],
                                endpoints = initEndpoints, endpointMap = remdups initEndpoints,
                                unavailable = [], retryCounts = [], endpointConnCounts = [],
                                pendingDials = [], countedConns = [], heartbeatFunc = hb, acts = []\<rparr>
                       in case initConns e dial required p of
                            (p', Some er) \<Rightarrow> Inl er
                          | (p', None) \<Rightarrow> Inr p')"

end
