(* ===== verification/ConnPool_Inv.thy ===== *)
theory ConnPool_Inv
  imports ConnPool
begin

text \<open>
  The invariant of the connection pool's actor and its preservation by every handler. The
  invariant says that the endpoint list and the endpoint set agree, that the idle list respects
  the pool's size, that only current endpoints are marked unavailable, and that the number kept
  per endpoint is exactly the number of counted connections of that endpoint. The loops of the
  handlers inherit it from their bodies through the locale \<open>keeps_invariant\<close>.
\<close>

section \<open>The invariant\<close>

definition connsAt :: "(conn, string) gomap \<Rightarrow> string \<Rightarrow> int" where
  "connsAt cc a = int (length (filter (\<lambda>x. snd x = a) cc))"

definition count_inv :: "connPool \<Rightarrow> bool" where
  "count_inv p \<longleftrightarrow> distinct (mkeys (countedConns p)) \<and> distinct (mkeys (endpointConnCounts p)) \<and>
     (\<forall>a. mget0 (endpointConnCounts p) a = connsAt (countedConns p) a) \<and>
     (\<forall>a. mhas (endpointConnCounts p) a \<longleftrightarrow> 0 < connsAt (countedConns p) a) \<and>
     connsAt (countedConns p) '''' = 0"

definition dial_inv :: "connPool \<Rightarrow> bool" where
  "dial_inv p \<longleftrightarrow> distinct (mkeys (pendingDials p)) \<and>
     (\<forall>a. mhas (pendingDials p) a \<longleftrightarrow> 0 < mget0 (pendingDials p) a)"

definition ep_inv :: "connPool \<Rightarrow> bool" where
  "ep_inv p \<longleftrightarrow> endpoints p \<noteq> [] \<and> distinct (endpointMap p) \<and>
     set (endpointMap p) = set (endpoints p) \<and> distinct (mkeys (unavailable p)) \<and>
     (\<forall>a. mhas (unavailable p) a \<longrightarrow> a \<in> set (endpoints p)) \<and> distinct (mkeys (retryCounts p))"

definition pool_inv :: "connPool \<Rightarrow> bool" where
  "pool_inv p \<longleftrightarrow> count_inv p \<and> dial_inv p \<and> ep_inv p \<and> int (length (idleConns p)) \<le> poolSize p"

text \<open>What the pool relies on from gnet: the context bound to a connection at dial time is the one
  it was counted under, until gnet releases it.\<close>

definition ctx_ok :: "pool_env \<Rightarrow> connPool \<Rightarrow> bool" where
  "ctx_ok e p \<longleftrightarrow>
     (\<forall>c a. map_of (countedConns p) c = Some a \<longrightarrow> GetRemoteAddr e c = '''' \<or> GetRemoteAddr e c = a)"

text \<open>What a command carries: the address captured when gnet reported the close is the counted one
  or empty, and a finished dial delivers a connection that was not counted before.\<close>

definition cmd_ok :: "poolCmd \<Rightarrow> connPool \<Rightarrow> bool" where
  "cmd_ok cmd p =
     (case cmd of
        CmdConnClosed c addr er \<Rightarrow> addr = '''' \<or> map_of (countedConns p) c \<in> {None, Some addr}
      | CmdDialResult addr (Some c) er r \<Rightarrow> \<not> mhas (countedConns p) c
      | _ \<Rightarrow> True)"

definition good :: "pool_env \<Rightarrow> connPool \<Rightarrow> bool" where
  "good e p \<longleftrightarrow> pool_inv p \<and> ctx_ok e p"

lemmas inv_defs = pool_inv_def count_inv_def dial_inv_def ep_inv_def ctx_ok_def good_def

section \<open>Counting\<close>

lemma connsAt_mdel:
  assumes "distinct (mkeys cc)"
  shows "connsAt (mdel c cc) a =
    (if map_of cc c = Some a then connsAt cc a - 1 else connsAt cc a)"
  using assms
proof (induction cc)
  case Nil
  then show ?case by (simp add: connsAt_def)
next
  case (Cons x xs)
  obtain c' b where x: "x = (c', b)" by (cases x)
  have nin: "c' \<notin> fst ` set xs" using Cons.prems x by auto
  show ?case
  proof (cases "c = c'")
    case True
    have "mdel c xs = xs" using nin True by (auto intro: delete_idem)
    moreover have "map_of xs c = None" using nin True by (simp add: map_of_eq_None_iff)
    ultimately show ?thesis using x True by (simp add: connsAt_def)
  next
    case False
    with Cons x show ?thesis by (auto simp: connsAt_def)
  qed
qed

lemma connsAt_mput_new:
  assumes "map_of cc c = None"
  shows "connsAt (mput c b cc) a = connsAt cc a + (if a = b then 1 else 0)"
  using assms by (induction cc) (auto simp: connsAt_def split: if_splits)

lemma connsAt_pos: "map_of cc c = Some a \<Longrightarrow> 0 < connsAt cc a"
proof -
  assume "map_of cc c = Some a"
  then have "(c, a) \<in> set (filter (\<lambda>x. snd x = a) cc)" by (simp add: map_of_SomeD)
  then show ?thesis by (auto simp: connsAt_def dest: length_pos_if_in_set simp del: set_filter)
qed

lemma connsAt_nonneg [simp]: "0 \<le> connsAt cc a"
  by (simp add: connsAt_def)

section \<open>What each primitive leaves alone\<close>

lemma CloseConn_fields [simp]:
  "idleConns (CloseConn c d p) = idleConns p" "endpoints (CloseConn c d p) = endpoints p"
  "endpointMap (CloseConn c d p) = endpointMap p" "unavailable (CloseConn c d p) = unavailable p"
  "retryCounts (CloseConn c d p) = retryCounts p" "countedConns (CloseConn c d p) = countedConns p"
  "endpointConnCounts (CloseConn c d p) = endpointConnCounts p"
  "pendingDials (CloseConn c d p) = pendingDials p" "poolSize (CloseConn c d p) = poolSize p"
  "closed (CloseConn c d p) = closed p" "maxConnLifetime (CloseConn c d p) = maxConnLifetime p"
  "cmdCh (CloseConn c d p) = cmdCh p" "closeDone (CloseConn c d p) = closeDone p"
  "poolIndex (CloseConn c d p) = poolIndex p"
  by (simp_all add: CloseConn_def)

lemma reply_to_fields [simp]:
  "idleConns (reply_to r x p) = idleConns p" "endpoints (reply_to r x p) = endpoints p"
  "endpointMap (reply_to r x p) = endpointMap p" "unavailable (reply_to r x p) = unavailable p"
  "retryCounts (reply_to r x p) = retryCounts p" "countedConns (reply_to r x p) = countedConns p"
  "endpointConnCounts (reply_to r x p) = endpointConnCounts p"
  "pendingDials (reply_to r x p) = pendingDials p" "poolSize (reply_to r x p) = poolSize p"
  "closed (reply_to r x p) = closed p" "maxConnLifetime (reply_to r x p) = maxConnLifetime p"
  "cmdCh (reply_to r x p) = cmdCh p" "closeDone (reply_to r x p) = closeDone p"
  "poolIndex (reply_to r x p) = poolIndex p" "backoff (reply_to r x p) = backoff p"
  by (simp_all add: reply_to_def split: option.splits)

lemma dec_fields [simp]:
  "idleConns (decEndpointConnCount c d p) = idleConns p"
  "endpoints (decEndpointConnCount c d p) = endpoints p"
  "endpointMap (decEndpointConnCount c d p) = endpointMap p"
  "unavailable (decEndpointConnCount c d p) = unavailable p"
  "retryCounts (decEndpointConnCount c d p) = retryCounts p"
  "pendingDials (decEndpointConnCount c d p) = pendingDials p"
  "poolSize (decEndpointConnCount c d p) = poolSize p"
  "closed (decEndpointConnCount c d p) = closed p"
  "maxConnLifetime (decEndpointConnCount c d p) = maxConnLifetime p"
  "acts (decEndpointConnCount c d p) = acts p"
  "cmdCh (decEndpointConnCount c d p) = cmdCh p"
  "closeDone (decEndpointConnCount c d p) = closeDone p"
  "poolIndex (decEndpointConnCount c d p) = poolIndex p"
  by (simp_all add: decEndpointConnCount_def Let_def split: option.splits)

lemma inc_fields [simp]:
  "idleConns (incEndpointConnCount c d p) = idleConns p"
  "endpoints (incEndpointConnCount c d p) = endpoints p"
  "endpointMap (incEndpointConnCount c d p) = endpointMap p"
  "unavailable (incEndpointConnCount c d p) = unavailable p"
  "retryCounts (incEndpointConnCount c d p) = retryCounts p"
  "pendingDials (incEndpointConnCount c d p) = pendingDials p"
  "poolSize (incEndpointConnCount c d p) = poolSize p"
  "closed (incEndpointConnCount c d p) = closed p"
  "maxConnLifetime (incEndpointConnCount c d p) = maxConnLifetime p"
  "acts (incEndpointConnCount c d p) = acts p"
  "cmdCh (incEndpointConnCount c d p) = cmdCh p"
  by (simp_all add: incEndpointConnCount_def)

lemma closeCounted_fields [simp]:
  "endpoints (closeCountedConn c a d p) = endpoints p"
  "endpointMap (closeCountedConn c a d p) = endpointMap p"
  "unavailable (closeCountedConn c a d p) = unavailable p"
  "retryCounts (closeCountedConn c a d p) = retryCounts p"
  "pendingDials (closeCountedConn c a d p) = pendingDials p"
  "poolSize (closeCountedConn c a d p) = poolSize p"
  "closed (closeCountedConn c a d p) = closed p"
  "maxConnLifetime (closeCountedConn c a d p) = maxConnLifetime p"
  "cmdCh (closeCountedConn c a d p) = cmdCh p"
  "closeDone (closeCountedConn c a d p) = closeDone p"
  "poolIndex (closeCountedConn c a d p) = poolIndex p"
  by (simp_all add: closeCountedConn_def)

lemma markUnavailable_fields [simp]:
  "idleConns (markUnavailable e a p) = idleConns p"
  "endpoints (markUnavailable e a p) = endpoints p"
  "endpointMap (markUnavailable e a p) = endpointMap p"
  "countedConns (markUnavailable e a p) = countedConns p"
  "endpointConnCounts (markUnavailable e a p) = endpointConnCounts p"
  "pendingDials (markUnavailable e a p) = pendingDials p"
  "poolSize (markUnavailable e a p) = poolSize p"
  "closed (markUnavailable e a p) = closed p"
  "maxConnLifetime (markUnavailable e a p) = maxConnLifetime p"
  "acts (markUnavailable e a p) = acts p"
  "cmdCh (markUnavailable e a p) = cmdCh p"
  by (simp_all add: markUnavailable_def Let_def)

lemma startDial_fields [simp]:
  "idleConns (startDial a r p) = idleConns p" "endpoints (startDial a r p) = endpoints p"
  "endpointMap (startDial a r p) = endpointMap p" "unavailable (startDial a r p) = unavailable p"
  "retryCounts (startDial a r p) = retryCounts p" "countedConns (startDial a r p) = countedConns p"
  "endpointConnCounts (startDial a r p) = endpointConnCounts p"
  "poolSize (startDial a r p) = poolSize p" "closed (startDial a r p) = closed p"
  "maxConnLifetime (startDial a r p) = maxConnLifetime p" "cmdCh (startDial a r p) = cmdCh p"
  "backoff (startDial a r p) = backoff p"
  by (simp_all add: startDial_def)

section \<open>Primitives keep the invariant\<close>

lemma good_act [simp]: "good e (p\<lparr>acts := x\<rparr>) = good e p"
  by (simp add: inv_defs)

lemma good_reply_to [simp]: "good e (reply_to r x p) = good e p"
  by (simp add: inv_defs)

lemma good_CloseConn [simp]: "good e (CloseConn c d p) = good e p"
  by (simp add: inv_defs)

lemma dec_count_inv:
  assumes inv: "count_inv p" and a: "addr = '''' \<or> map_of (countedConns p) c \<in> {None, Some addr}"
  shows "count_inv (decEndpointConnCount c addr p)"
proof (cases "map_of (countedConns p) c")
  case None
  then show ?thesis using inv by (simp add: decEndpointConnCount_def)
next
  case (Some b)
  with a have eff: "(if addr = '''' then b else addr) = b" by auto
  have pos: "0 < connsAt (countedConns p) b" using Some by (rule connsAt_pos)
  have d: "distinct (mkeys (countedConns p))" using inv by (simp add: count_inv_def)
  show ?thesis
    using inv Some eff pos
    by (auto simp: decEndpointConnCount_def count_inv_def Let_def connsAt_mdel [OF d])
qed

lemma dec_ctx_ok: "ctx_ok e p \<Longrightarrow> ctx_ok e (decEndpointConnCount c addr p)"
  by (auto simp: ctx_ok_def decEndpointConnCount_def Let_def split: option.splits if_splits)

lemma good_dec:
  "good e p \<Longrightarrow> addr = '''' \<or> map_of (countedConns p) c \<in> {None, Some addr} \<Longrightarrow>
   good e (decEndpointConnCount c addr p)"
  using dec_count_inv [of p addr c] dec_ctx_ok [of e p c addr]
  by (simp add: good_def pool_inv_def dial_inv_def ep_inv_def)

lemma ctx_okD:
  "good e p \<Longrightarrow> GetRemoteAddr e c = '''' \<or> map_of (countedConns p) c \<in> {None, Some (GetRemoteAddr e c)}"
  by (cases "map_of (countedConns p) c") (auto simp: good_def ctx_ok_def)

lemma good_closeCounted:
  "good e p \<Longrightarrow> addr = '''' \<or> map_of (countedConns p) c \<in> {None, Some addr} \<Longrightarrow>
   good e (closeCountedConn c addr d p)"
  by (simp add: closeCountedConn_def good_dec)

lemma good_closeRemote: "good e p \<Longrightarrow> good e (closeCountedConn c (GetRemoteAddr e c) d p)"
  by (rule good_closeCounted) (auto dest: ctx_okD)

lemma good_inc:
  assumes "good e p" and "GetRemoteAddr e c = '''' \<or> GetRemoteAddr e c = addr"
  shows "good e (incEndpointConnCount c addr p)"
proof (cases "addr = '''' \<or> mhas (countedConns p) c")
  case True
  then show ?thesis using assms by (auto simp: incEndpointConnCount_def)
next
  case False
  then have new: "map_of (countedConns p) c = None" by (simp add: mhas_def)
  have "count_inv (incEndpointConnCount c addr p)"
    using assms(1) False
    by (auto simp: good_def pool_inv_def count_inv_def incEndpointConnCount_def
        connsAt_mput_new [OF new] add_pos_nonneg add_nonneg_pos)
  moreover have "ctx_ok e (incEndpointConnCount c addr p)"
    using assms False by (auto simp: good_def ctx_ok_def incEndpointConnCount_def)
  ultimately show ?thesis using assms(1) by (simp add: good_def pool_inv_def dial_inv_def ep_inv_def)
qed

lemma good_markUnavailable: "good e p \<Longrightarrow> good e (markUnavailable e a p)"
  by (auto simp: inv_defs markUnavailable_def Let_def)

lemma dial_inv_nonneg: "dial_inv p \<Longrightarrow> 0 \<le> mget0 (pendingDials p) a"
  by (cases "mhas (pendingDials p) a") (auto simp: dial_inv_def mget0_absent less_imp_le)

lemma good_startDial: "good e p \<Longrightarrow> good e (startDial a r p)"
proof (cases "a = '''' \<or> closed p")
  case True
  then show "good e p \<Longrightarrow> ?thesis" by (auto simp: startDial_def)
next
  case False
  assume g: "good e p"
  then have "0 \<le> mget0 (pendingDials p) a"
    by (intro dial_inv_nonneg) (simp add: good_def pool_inv_def)
  with g False show ?thesis by (auto simp: inv_defs startDial_def)
qed

lemma good_storeIdle:
  assumes "good e p" "addr = '''' \<or> map_of (countedConns p) c \<in> {None, Some addr}"
  shows "good e (storeIdleConn c addr p)"
proof (cases "int (length (idleConns p)) \<ge> poolSize p")
  case True
  then show ?thesis using assms by (simp add: storeIdleConn_def good_closeCounted)
next
  case False
  then show ?thesis using assms by (simp add: storeIdleConn_def inv_defs)
qed

lemma good_idle_shrink: "good e p \<Longrightarrow> length xs \<le> length (idleConns p) \<Longrightarrow> good e (p\<lparr>idleConns := xs\<rparr>)"
  by (auto simp: inv_defs)

interpretation close_now: keeps_invariant "good e"
    "\<lambda>c q. closeCountedConn c (GetRemoteAddr e c) d q" for e d
  by unfold_locales (rule good_closeRemote)

interpretation dials: keeps_invariant "good e" "\<lambda>a q. startDial a r q" for e r
  by unfold_locales (rule good_startDial)

section \<open>Handlers keep the invariant\<close>

lemma getEndpoint_loop_fields:
  "getEndpoint_loop n p = (p', r) \<Longrightarrow> p' = p\<lparr>poolIndex := poolIndex p'\<rparr>"
proof (induction n arbitrary: p)
  case 0
  then show ?case by simp
next
  case (Suc n)
  show ?case
  proof (cases "mhas (unavailable p) (endpoints p ! (unat (poolIndex p) mod length (endpoints p)))")
    case True
    with Suc.prems have "getEndpoint_loop n (p\<lparr>poolIndex := poolIndex p + 1\<rparr>) = (p', r)" by (simp add: Let_def)
    from Suc.IH [OF this] show ?thesis by simp
  next
    case False
    with Suc.prems show ?thesis by (auto simp: Let_def)
  qed
qed

lemma getEndpoint_fields: "getEndpoint p = (p', r) \<Longrightarrow> p' = p\<lparr>poolIndex := poolIndex p'\<rparr>"
  by (auto simp: getEndpoint_def dest: getEndpoint_loop_fields split: if_splits)

lemma good_poolIndex [simp]: "good e (p\<lparr>poolIndex := i\<rparr>) = good e p"
  by (simp add: inv_defs)

lemma good_getEndpoint: "getEndpoint p = (p', r) \<Longrightarrow> good e p \<Longrightarrow> good e p'"
  by (metis getEndpoint_fields good_poolIndex)

lemma good_putConn: "good e p \<Longrightarrow> good e (putConn e c er isNew p)"
proof (cases c)
  case None
  then show "good e p \<Longrightarrow> ?thesis" by (simp add: putConn_def)
next
  case (Some c')
  assume g: "good e p"
  let ?q = "if isNew then incEndpointConnCount c' (GetRemoteAddr e c') p else p"
  have q: "good e ?q" using g by (simp add: good_inc)
  have "good e (storeIdleConn c' (GetRemoteAddr e c') ?q)"
    using q ctx_okD [OF q] by (intro good_storeIdle) auto
  then show ?thesis
    using g Some
    by (auto simp: putConn_def Let_def intro: good_closeRemote good_markUnavailable good_startDial)
qed

interpretation puts: keeps_invariant "good e" "\<lambda>c q. putConn e c er isNew q" for e er isNew
  by unfold_locales (rule good_putConn)

lemma good_handleGet_loop: "good e p \<Longrightarrow> good e (fst (handleGet_loop e p))"
proof (induction e p rule: handleGet_loop.induct)
  case (1 e p)
  show ?case
  proof (cases "idleConns p")
    case Nil
    then show ?thesis using 1(2) by (subst handleGet_loop.simps) simp
  next
    case (Cons c cs)
    have g: "good e (p\<lparr>idleConns := cs\<rparr>)" using 1(2) Cons by (intro good_idle_shrink) auto
    show ?thesis
    proof (cases "isConnUsable e (p\<lparr>idleConns := cs\<rparr>) c (GetRemoteAddr e c)")
      case True
      then show ?thesis using g Cons by (subst handleGet_loop.simps) simp
    next
      case False
      have "good e (fst (handleGet_loop e
          (closeCountedConn c (GetRemoteAddr e c) defaultConnCloseDelay (p\<lparr>idleConns := cs\<rparr>))))"
        using 1(1) [OF Cons refl refl] False good_closeRemote [OF g] by simp
      with False Cons show ?thesis by (subst handleGet_loop.simps) simp
    qed
  qed
qed

lemma good_handleGet: "good e p \<Longrightarrow> good e (handleGet e r p)"
proof -
  assume g: "good e p"
  obtain p' o' where l: "handleGet_loop e p = (p', o')" by (cases "handleGet_loop e p")
  have g': "good e p'" using good_handleGet_loop [OF g] l by simp
  obtain p'' r' where ge: "getEndpoint p' = (p'', r')" by (cases "getEndpoint p'")
  have "good e p''" using good_getEndpoint [OF ge g'] .
  then show ?thesis
    using g g' l ge by (auto simp: handleGet_def good_startDial split: option.splits sum.splits)
qed

lemma good_retryGet: "good e p \<Longrightarrow> good e (retryGetFromCurrentEndpoints e r p)"
  by (simp add: retryGetFromCurrentEndpoints_def good_handleGet)

lemma good_pending_dec:
  "good e p \<Longrightarrow> good e (if mget0 (pendingDials p) a > 1
      then p\<lparr>pendingDials := mput a (mget0 (pendingDials p) a - 1) (pendingDials p)\<rparr>
      else p\<lparr>pendingDials := mdel a (pendingDials p)\<rparr>)"
  by (auto simp: inv_defs)

lemma good_clear_unavailable:
  "good e p \<Longrightarrow> good e (p\<lparr>unavailable := mdel a (unavailable p), retryCounts := mdel a (retryCounts p)\<rparr>)"
  by (auto simp: inv_defs)

lemma good_retryCounts: "good e p \<Longrightarrow> good e (p\<lparr>retryCounts := mput a n (retryCounts p)\<rparr>)"
  by (auto simp: inv_defs)

lemma counted_inc:
  "\<not> mhas (countedConns p) c \<Longrightarrow>
   a = '''' \<or> map_of (countedConns (incEndpointConnCount c a p)) c \<in> {None, Some a}"
  by (auto simp: incEndpointConnCount_def)

lemma good_handleDialResult:
  assumes "good e p" and new: "\<And>c. conn = Some c \<Longrightarrow> \<not> mhas (countedConns p) c"
  shows "good e (handleDialResult e addr conn er r p)"
proof -
  let ?p = "if mget0 (pendingDials p) addr > 1
      then p\<lparr>pendingDials := mput addr (mget0 (pendingDials p) addr - 1) (pendingDials p)\<rparr>
      else p\<lparr>pendingDials := mdel addr (pendingDials p)\<rparr>"
  have g: "good e ?p" by (rule good_pending_dec [OF assms(1)])
  have cc: "countedConns ?p = countedConns p" by simp
  have err: "good e (reply_to r' x ((markUnavailable e addr ?p)\<lparr>retryCounts := mput addr n
      (retryCounts (markUnavailable e addr ?p))\<rparr>))" for r' x n
    using good_retryCounts [OF good_markUnavailable [OF g]] by simp
  have stored: "good e (storeIdleConn c a (incEndpointConnCount c a
        (?p\<lparr>unavailable := mdel a (unavailable ?p), retryCounts := mdel a (retryCounts ?p)\<rparr>)))
     \<and> good e (incEndpointConnCount c a
        (?p\<lparr>unavailable := mdel a (unavailable ?p), retryCounts := mdel a (retryCounts ?p)\<rparr>))"
    if "conn = Some c" and "GetRemoteAddr e c = '''' \<or> GetRemoteAddr e c = a" for c a
  proof -
    have "good e (incEndpointConnCount c a
        (?p\<lparr>unavailable := mdel a (unavailable ?p), retryCounts := mdel a (retryCounts ?p)\<rparr>))"
      by (rule good_inc [OF good_clear_unavailable [OF g] that(2)])
    moreover have "\<not> mhas (countedConns (?p\<lparr>unavailable := mdel a (unavailable ?p),
        retryCounts := mdel a (retryCounts ?p)\<rparr>)) c"
      using new [OF that(1)] cc by simp
    ultimately show ?thesis using good_storeIdle counted_inc by blast
  qed
  show ?thesis
    unfolding handleDialResult_def Let_def
    using g err stored
    by (auto simp del: if_split split: option.splits if_split simp: good_retryGet)
qed

lemma good_handleConnClosed:
  assumes "good e p" and "addr = '''' \<or> map_of (countedConns p) c \<in> {None, Some addr}"
  shows "good e (handleConnClosed e c addr er p)"
proof -
  have "good e (decEndpointConnCount c addr q)"
    if "q = p \<or> q = markUnavailable e addr p" for q
    using that assms by (intro good_dec) (auto simp: good_markUnavailable)
  then show ?thesis
    by (auto simp: handleConnClosed_def removeIdleConn_def length_remove1 intro!: good_idle_shrink)
qed

lemma good_sweepIdle:
  assumes "\<And>c q. good e q \<Longrightarrow> good e (close_it c q)"
    and "\<And>c q. poolSize (close_it c q) = poolSize q"
    and "good e p" and "int (length (left @ cs)) \<le> poolSize p"
  shows "good e (sweepIdle drop_it close_it cs left p)"
  using assms(3, 4)
proof (induction cs arbitrary: left p)
  case Nil
  then show ?case by (simp add: inv_defs)
next
  case (Cons c cs)
  then show ?case using assms(1, 2) by auto
qed

lemma good_idle_size: "good e p \<Longrightarrow> int (length (idleConns p)) \<le> poolSize p"
  by (simp add: good_def pool_inv_def)

lemma good_removeDeleted: "good e p \<Longrightarrow> good e (removeDeletedEndpointConns e p)"
  unfolding removeDeletedEndpointConns_def
  by (rule good_sweepIdle) (auto intro: good_closeRemote dest: good_idle_size)

lemma good_cleanExpired: "good e p \<Longrightarrow> good e (cleanExpiredConns e p)"
  unfolding cleanExpiredConns_def
  by (rule good_sweepIdle) (auto intro: good_closeRemote good_startDial dest: good_idle_size)

lemma good_removeEndpointConn_loop:
  assumes "good e p" and "int (length (left @ cs)) \<le> poolSize p"
  shows "good e (removeEndpointConn_loop e addr count removed cs left p)"
  using assms
proof (induction cs arbitrary: removed left p)
  case Nil
  then show ?case by (simp add: inv_defs)
next
  case (Cons c cs)
  show ?case
  proof (cases "GetRemoteAddr e c = addr \<and> removed < count")
    case True
    with Cons.prems have "good e (closeCountedConn c addr defaultConnCloseDelay p)"
      using good_closeRemote [of e p c] by auto
    from Cons.IH [OF this] True Cons.prems show ?thesis by simp
  next
    case False
    with Cons show ?thesis by auto
  qed
qed

lemma good_rebalance_counted: "good e p \<Longrightarrow> good e (rebalance_counted e ex addr p)"
  by (auto simp: rebalance_counted_def Let_def startDials_def removeEndpointConn_def
      intro!: good_removeEndpointConn_loop dials.keeps_funpow dest: good_idle_size)

interpretation rebalance1: keeps_invariant "good e" "rebalance_counted e ex" for e ex
  by unfold_locales (rule good_rebalance_counted)

lemma good_rebalance_missing: "good e p \<Longrightarrow> good e (rebalance_missing ex addr p)"
  by (auto simp: rebalance_missing_def startDials_def intro: dials.keeps_funpow)

interpretation rebalance2: keeps_invariant "good e" "rebalance_missing ex" for e ex
  by unfold_locales (rule good_rebalance_missing)

lemma good_rebalance: "good e p \<Longrightarrow> good e (rebalance e p)"
  by (auto simp: rebalance_def Let_def intro: rebalance1.keeps_fold rebalance2.keeps_fold)

interpretation recover1: keeps_invariant "\<lambda>pr. good e (fst pr)" "recover_one e" for e
  by unfold_locales (auto simp: recover_one_def Let_def good_startDial split: option.splits prod.splits)

lemma good_recover: "good e p \<Longrightarrow> good e (fst (recover e p))"
  unfolding recover_def by (rule recover1.keeps_fold) simp

lemma good_sendHeartbeat: "good e p \<Longrightarrow> good e (sendHeartbeat p)"
proof -
  have "good e p \<Longrightarrow> good e (fold (\<lambda>c q. act (SendHeartbeatTo c) q) xs p)" for xs
    by (induction xs arbitrary: p) auto
  then show "good e p \<Longrightarrow> ?thesis" by (simp add: sendHeartbeat_def)
qed

text \<open>Changing the endpoint list: the entries of removed endpoints go before the invariant is
  whole again.\<close>

definition drop_gone :: "string \<Rightarrow> connPool \<Rightarrow> connPool" where
  "drop_gone ep q = (if ep \<in> set (endpointMap q) then q
     else q\<lparr>unavailable := mdel ep (unavailable q), retryCounts := mdel ep (retryCounts q)\<rparr>)"

lemma fold_drop_gone_fields:
  "endpoints (fold drop_gone eps q) = endpoints q" "endpointMap (fold drop_gone eps q) = endpointMap q"
  "countedConns (fold drop_gone eps q) = countedConns q"
  "endpointConnCounts (fold drop_gone eps q) = endpointConnCounts q"
  "pendingDials (fold drop_gone eps q) = pendingDials q"
  "idleConns (fold drop_gone eps q) = idleConns q" "poolSize (fold drop_gone eps q) = poolSize q"
  by (induction eps arbitrary: q) (simp_all add: drop_gone_def)

lemma fold_drop_gone:
  "distinct (mkeys (unavailable q)) \<Longrightarrow> distinct (mkeys (retryCounts q)) \<Longrightarrow>
   distinct (mkeys (unavailable (fold drop_gone eps q))) \<and>
   distinct (mkeys (retryCounts (fold drop_gone eps q))) \<and>
   (\<forall>a. mhas (unavailable (fold drop_gone eps q)) a \<longleftrightarrow>
      mhas (unavailable q) a \<and> (a \<in> set eps \<longrightarrow> a \<in> set (endpointMap q)))"
proof (induction eps arbitrary: q)
  case Nil
  then show ?case by simp
next
  case (Cons ep eps)
  have "endpointMap (drop_gone ep q) = endpointMap q" by (simp add: drop_gone_def)
  with Cons.IH [of "drop_gone ep q"] Cons.prems show ?case by (auto simp: drop_gone_def)
qed

lemma good_handleUpdateEndpoints:
  assumes g: "good e p" and ord: "range_order (rangeOrd e)"
  shows "good e (handleUpdateEndpoints e alls adds dels p)"
proof (cases "alls = []")
  case True
  then show ?thesis using g by (simp add: handleUpdateEndpoints_def)
next
  case False
  let ?p1 = "p\<lparr>endpoints := alls, endpointMap := remdups alls\<rparr>"
  let ?p2 = "fold drop_gone (rangeOrd e (mkeys (unavailable p))) ?p1"
  have d: "distinct (mkeys (unavailable p))" "distinct (mkeys (retryCounts p))"
    using g by (simp_all add: good_def pool_inv_def ep_inv_def)
  have keys: "set (rangeOrd e (mkeys (unavailable p))) = set (mkeys (unavailable p))"
    using ord d(1) by (rule range_orderD)
  have f: "distinct (mkeys (unavailable ?p2))" "distinct (mkeys (retryCounts ?p2))"
    "mhas (unavailable ?p2) a \<Longrightarrow> a \<in> set alls" for a
    using fold_drop_gone [of ?p1 "rangeOrd e (mkeys (unavailable p))"] d keys
    by (auto simp: mhas_iff)
  have "good e ?p2"
    using g f False by (auto simp: inv_defs fold_drop_gone_fields)
  then have "good e (removeDeletedEndpointConns e ?p2)" by (rule good_removeDeleted)
  moreover have "handleUpdateEndpoints e alls adds dels p =
      (if adds \<noteq> [] \<or> dels \<noteq> [] then rebalance e (removeDeletedEndpointConns e ?p2)
       else removeDeletedEndpointConns e ?p2)"
    using False by (simp add: handleUpdateEndpoints_def Let_def drop_gone_def [abs_def])
  ultimately show ?thesis by (simp add: good_rebalance)
qed

lemma good_closeIdleConns: "good e p \<Longrightarrow> good e (closeIdleConns e p)"
  unfolding closeIdleConns_def
  by (rule good_idle_shrink [OF close_now.keeps_fold]) auto

lemma good_drain: "good e p \<Longrightarrow> good e (drainCmdChOnClose p)"
proof -
  have step: "good e (drain_cmd cmd q) = good e q" for cmd q
    by (simp add: drain_cmd_def split: poolCmd.splits option.splits)
  have "good e (fold drain_cmd cmds p) = good e p" for cmds
    by (induction cmds arbitrary: p) (auto simp: step)
  then show "good e p \<Longrightarrow> ?thesis" by (simp add: drainCmdChOnClose_def inv_defs)
qed

lemma good_closeDone [simp]: "good e (p\<lparr>closeDone := b\<rparr>) = good e p"
  by (simp add: inv_defs)

lemma good_handleCmd:
  assumes "good e p" "cmd_ok cmd p" "range_order (rangeOrd e)"
  shows "good e (fst (handleCmd e cmd p))"
  using assms
  by (cases cmd)
    (auto simp: handleCmd_def cmd_ok_def good_closeIdleConns good_drain
      intro: good_handleGet good_putConn good_handleUpdateEndpoints good_handleConnClosed
        good_handleDialResult split: option.splits)

lemma good_handleTick: "good e p \<Longrightarrow> good e (handleTick e t p)"
  using good_recover [of e p]
  by (cases t) (auto simp: handleTick_def good_sendHeartbeat good_cleanExpired
      intro: good_rebalance split: prod.splits)

end
