(* ===== verification/ConnPool_Props.thy ===== *)
theory ConnPool_Props
  imports ConnPool_Inv
begin

text \<open>
  What the handlers of the connection pool do, case by case: which idle connection a caller of
  \<^verbatim>\<open>Get\<close> receives and what happens to the ones passed over, which endpoint is dialled next, what
  rebalancing adds and removes, what recovery retries, what an endpoint update leaves, and what
  closing the pool releases.
\<close>

section \<open>The invariant\<close>

definition sample_env :: pool_env where
  "sample_env = \<lparr>now = 100, safeContext = (\<lambda>c. if c = 1 then Some \<lparr>CreatedAt = 50, Endpoint = ''a''\<rparr>
       else if c = 2 then Some \<lparr>CreatedAt = 10, Endpoint = ''b''\<rparr> else None),
     rangeOrd = (\<lambda>ks. ks), randOf = (\<lambda>_. 1 / 2)\<rparr>"

definition sample_pool :: connPool where
  "sample_pool = \<lparr>cmdCh = [], closeDone = False, closed = False, poolSize = 4, poolIndex = 0,
     connsPerEndpoint = 1, requiredConnNum = 2, backoff = pool_backoff, maxConnLifetime = 60,
     idleConns = [2, 1], endpoints = [''a'', ''b''], endpointMap = [''a'', ''b''], unavailable = [],
     retryCounts = [], endpointConnCounts = [(''a'', 1), (''b'', 1)], pendingDials = [],
     countedConns = [(1, ''a''), (2, ''b'')], heartbeatFunc = False, acts = []\<rparr>"

lemma sample_range_order: "range_order (rangeOrd sample_env)"
  by (simp add: sample_env_def)

lemma sample_pool_inv: "pool_inv sample_pool"
  by (auto simp: sample_pool_def pool_inv_def count_inv_def dial_inv_def ep_inv_def connsAt_def
      mget0_def mhas_def)

lemma sample_ctx_ok: "ctx_ok sample_env sample_pool"
  by (auto simp: sample_pool_def sample_env_def ctx_ok_def GetRemoteAddr_def split: if_splits)

lemma sample_good: "good sample_env sample_pool"
  by (simp add: good_def sample_pool_inv sample_ctx_ok)

text \<open>
  C3. Every command and every timer tick of the pool's goroutine keeps the invariant of the pool:
  the endpoint set is the set of the endpoint list, only current endpoints are marked unavailable,
  the idle list never exceeds the pool's size, pending dials are counted positively, and the count
  kept per endpoint is exactly the number of counted connections of that endpoint, whatever
  order Go ranges over its maps in. In particular no decrement is lost or done twice.
\<close>

theorem actor_keeps_pool_inv:
  assumes "pool_inv p" and "ctx_ok e p" and "cmd_ok cmd p" and "range_order (rangeOrd e)"
  shows "pool_inv (fst (handleCmd e cmd p)) \<and> pool_inv (handleTick e t p)"
  using good_handleCmd [of e p cmd] good_handleTick [of e p t] assms by (simp add: good_def)

theorem actor_keeps_pool_inv_witness:
  "pool_inv (fst (handleCmd sample_env (CmdPut 1 (Some ''reset'')) sample_pool)) \<and>
   pool_inv (handleTick sample_env CleanExpiredTick sample_pool)"
  by (rule actor_keeps_pool_inv [OF sample_pool_inv sample_ctx_ok _ sample_range_order])
    (simp add: cmd_ok_def)

section \<open>Choosing an endpoint\<close>

lemma getEndpoint_loop_spec:
  assumes "endpoints p \<noteq> []" and "unat (poolIndex p) + n < 2 ^ 64"
  shows "snd (getEndpoint_loop n p) =
    (case find (\<lambda>ep. \<not> mhas (unavailable p) ep)
        (map (\<lambda>k. endpoints p ! ((unat (poolIndex p) + k) mod length (endpoints p))) [0..<n]) of
       None \<Rightarrow> Inl ErrNoAvailableEndpoint | Some ep \<Rightarrow> Inr ep)"
  using assms
proof (induction n arbitrary: p)
  case 0
  then show ?case by simp
next
  case (Suc n)
  let ?p = "p\<lparr>poolIndex := poolIndex p + 1\<rparr>"
  have u: "unat (poolIndex p + 1) = unat (poolIndex p) + 1"
    using Suc.prems(2) by (simp add: unat_word_ariths)
  have IH: "snd (getEndpoint_loop n ?p) =
    (case find (\<lambda>ep. \<not> mhas (unavailable p) ep)
        (map (\<lambda>k. endpoints p ! ((unat (poolIndex p) + 1 + k) mod length (endpoints p))) [0..<n]) of
       None \<Rightarrow> Inl ErrNoAvailableEndpoint | Some ep \<Rightarrow> Inr ep)"
    using Suc.IH [of ?p] Suc.prems u by simp
  have split: "[0..<Suc n] = 0 # map Suc [0..<n]"
    by (simp add: upt_conv_Cons map_Suc_upt del: upt_Suc)
  show ?case
    using IH unfolding split by (simp add: Let_def o_def)
qed

lemma rotation_map:
  "xs \<noteq> [] \<Longrightarrow> map (\<lambda>k. xs ! ((i + k) mod length xs)) [0..<length xs] = rotate i xs"
  by (rule nth_equalityI) (auto simp: nth_rotate)

text \<open>
  The endpoint to dial next is chosen round-robin: it is the first endpoint that is not marked
  unavailable in the endpoint list rotated to the current index, and the answer is the error
  \<open>ErrNoAvailableEndpoint\<close> exactly when all endpoints are marked (as long as the 64-bit index does
  not wrap around during the search).
\<close>

theorem getEndpoint_round_robin:
  assumes "endpoints p \<noteq> []" and "unat (poolIndex p) + length (endpoints p) < 2 ^ 64"
  shows "snd (getEndpoint p) =
    (case find (\<lambda>ep. \<not> mhas (unavailable p) ep) (rotate (unat (poolIndex p)) (endpoints p)) of
       None \<Rightarrow> Inl ErrNoAvailableEndpoint | Some ep \<Rightarrow> Inr ep)"
  using getEndpoint_loop_spec [OF assms] assms(1)
  by (simp add: getEndpoint_def rotation_map)

theorem getEndpoint_round_robin_witness:
  "snd (getEndpoint (sample_pool\<lparr>unavailable := [(''a'', 5)]\<rparr>)) = Inr ''b''"
  by (subst getEndpoint_round_robin) (simp_all add: sample_pool_def mhas_def)

section \<open>Serving a connection\<close>

definition usable :: "pool_env \<Rightarrow> connPool \<Rightarrow> conn \<Rightarrow> bool" where
  "usable e p c \<longleftrightarrow> isConnUsable e p c (GetRemoteAddr e c)"

lemma usable_cong:
  "endpointMap q = endpointMap p \<Longrightarrow> maxConnLifetime q = maxConnLifetime p \<Longrightarrow> usable e q c = usable e p c"
  by (simp add: usable_def isConnUsable_def expired_def split: option.splits)

text \<open>The three ways the loop of \<open>handleGet\<close> goes on.\<close>

lemma handleGet_loop_Nil: "idleConns p = [] \<Longrightarrow> handleGet_loop e p = (p, None)"
  by (subst handleGet_loop.simps) simp

lemma handleGet_loop_usable:
  "idleConns p = c # cs \<Longrightarrow> usable e p c \<Longrightarrow> handleGet_loop e p = (p\<lparr>idleConns := cs\<rparr>, Some c)"
  by (subst handleGet_loop.simps) (simp add: usable_cong [of "p\<lparr>idleConns := cs\<rparr>" p, symmetric] usable_def [symmetric])

lemma handleGet_loop_skip:
  "idleConns p = c # cs \<Longrightarrow> \<not> usable e p c \<Longrightarrow> handleGet_loop e p =
     handleGet_loop e (closeCountedConn c (GetRemoteAddr e c) defaultConnCloseDelay (p\<lparr>idleConns := cs\<rparr>))"
  by (subst handleGet_loop.simps) (simp add: usable_cong [of "p\<lparr>idleConns := cs\<rparr>" p, symmetric] usable_def [symmetric])

lemma acts_closeLater [simp]:
  "0 < d \<Longrightarrow> acts (closeCountedConn c a d p) = acts p @ [CloseLater c d]"
  by (simp add: closeCountedConn_def CloseConn_def)

lemma acts_closeNow [simp]:
  "d \<le> 0 \<Longrightarrow> acts (closeCountedConn c a d p) = acts p @ [CloseNow c]"
  by (simp add: closeCountedConn_def CloseConn_def)

lemma delay_pos [simp]: "0 < defaultConnCloseDelay" "\<not> defaultConnCloseDelay \<le> 0"
  by (simp_all add: defaultConnCloseDelay_def)

lemma handleGet_loop_spec:
  assumes "idleConns p = xs @ zs" and "\<forall>x \<in> set xs. \<not> usable e p x"
    and "zs = [] \<or> usable e p (hd zs)"
  shows "snd (handleGet_loop e p) = (if zs = [] then None else Some (hd zs))
    \<and> idleConns (fst (handleGet_loop e p)) = tl zs
    \<and> acts (fst (handleGet_loop e p)) = acts p @ map (\<lambda>x. CloseLater x defaultConnCloseDelay) xs
    \<and> endpoints (fst (handleGet_loop e p)) = endpoints p
    \<and> unavailable (fst (handleGet_loop e p)) = unavailable p
    \<and> poolIndex (fst (handleGet_loop e p)) = poolIndex p
    \<and> closed (fst (handleGet_loop e p)) = closed p
    \<and> pendingDials (fst (handleGet_loop e p)) = pendingDials p"
  using assms
proof (induction xs arbitrary: p)
  case Nil
  then show ?case by (cases zs) (auto simp: handleGet_loop_Nil handleGet_loop_usable)
next
  case (Cons x xs)
  let ?p = "closeCountedConn x (GetRemoteAddr e x) defaultConnCloseDelay (p\<lparr>idleConns := xs @ zs\<rparr>)"
  have same: "usable e ?p y = usable e p y" for y by (rule usable_cong) simp_all
  have step: "handleGet_loop e p = handleGet_loop e ?p"
    using Cons.prems by (intro handleGet_loop_skip) auto
  show ?case unfolding step using Cons.IH [of ?p] Cons.prems same by auto
qed

text \<open>
  C26. A caller of \<^verbatim>\<open>Get\<close> on an open pool receives the oldest idle connection whose endpoint is
  still a current endpoint and whose lifetime is not over; every older idle connection is taken
  out and closed after the close delay, and the younger ones stay in order. When no idle
  connection is usable all of them are closed and the request is handed to a dial of the endpoint
  that round-robin chooses, or answered with \<open>ErrNoAvailableEndpoint\<close>.
\<close>

theorem handleGet_serves_oldest_usable:
  assumes "\<not> closed p" and "idleConns p = xs @ zs" and "\<forall>x \<in> set xs. \<not> usable e p x"
    and "zs = [] \<or> usable e p (hd zs)"
  shows "idleConns (handleGet e r p) = tl zs \<and>
    acts (handleGet e r p) = acts p @ map (\<lambda>x. CloseLater x defaultConnCloseDelay) xs @
      (if zs \<noteq> [] then [Reply r (Inr (hd zs))]
       else case snd (getEndpoint p) of
         Inl er \<Rightarrow> [Reply r (Inl er)]
       | Inr ep \<Rightarrow> if ep = '''' then [Reply r (Inl ErrAddrEmpty)] else [GoDial ep (Some r)])"
proof -
  obtain p' c where l: "handleGet_loop e p = (p', c)" by (cases "handleGet_loop e p")
  note s = handleGet_loop_spec [OF assms(2-4)]
  have c: "c = (if zs = [] then None else Some (hd zs))" and p': "idleConns p' = tl zs"
    "acts p' = acts p @ map (\<lambda>x. CloseLater x defaultConnCloseDelay) xs"
    "endpoints p' = endpoints p" "unavailable p' = unavailable p" "poolIndex p' = poolIndex p"
    "closed p' = closed p"
    using s l by simp_all
  have loop: "snd (getEndpoint_loop n q) = snd (getEndpoint_loop n q')"
    if "endpoints q = endpoints q'" "unavailable q = unavailable q'" "poolIndex q = poolIndex q'" for n q q'
    using that by (induction n arbitrary: q q') (simp_all add: Let_def)
  have ge: "snd (getEndpoint p') = snd (getEndpoint p)"
    using p' loop [of p' p] by (simp add: getEndpoint_def)
  obtain p'' x where g: "getEndpoint p' = (p'', x)" by (cases "getEndpoint p'")
  have p'': "p'' = p'\<lparr>poolIndex := poolIndex p''\<rparr>" using g by (rule getEndpoint_fields)
  have f: "acts p'' = acts p'" "idleConns p'' = idleConns p'" "closed p'' = closed p'"
    by (subst p'', simp)+
  have x: "x = snd (getEndpoint p)" using g ge by simp
  show ?thesis
    using assms(1) l c g f p' x
    by (auto simp: handleGet_def startDial_def reply_to_def split: sum.splits)
qed

theorem handleGet_serves_oldest_usable_witness:
  "idleConns (handleGet sample_env 7 sample_pool) = [] \<and>
   acts (handleGet sample_env 7 sample_pool) = [CloseLater 2 defaultConnCloseDelay, Reply 7 (Inr 1)]"
  using handleGet_serves_oldest_usable [of sample_pool "[2]" "[1]" sample_env 7]
  by (simp add: sample_pool_def sample_env_def usable_def isConnUsable_def GetRemoteAddr_def expired_def)

section \<open>Every request is answered once\<close>

text \<open>The replies owed to a channel: those sent and those a dial goroutine carries.\<close>

definition owed :: "reply \<Rightarrow> pool_act \<Rightarrow> bool" where
  "owed r a \<longleftrightarrow> (case a of Reply r' x \<Rightarrow> r' = r | GoDial ep (Some r') \<Rightarrow> r' = r | _ \<Rightarrow> False)"

definition owed_in :: "reply \<Rightarrow> pool_act list \<Rightarrow> nat" where
  "owed_in r as = length (filter (owed r) as)"

abbreviation answers :: "reply \<Rightarrow> connPool \<Rightarrow> nat" where
  "answers r p \<equiv> owed_in r (acts p)"

definition cmd_reply :: "poolCmd \<Rightarrow> reply option" where
  "cmd_reply cmd = (case cmd of CmdGet r \<Rightarrow> Some r | CmdDialResult a c er r \<Rightarrow> r | _ \<Rightarrow> None)"

lemma owed_simps [simp]:
  "owed r (Reply r' x) \<longleftrightarrow> r' = r" "owed r (GoDial ep (Some r')) \<longleftrightarrow> r' = r"
  "\<not> owed r (GoDial ep None)" "\<not> owed r (CloseNow c)" "\<not> owed r (CloseLater c d)"
  "\<not> owed r (ReplyInt r' n)" "\<not> owed r (SendHeartbeatTo c)" "\<not> owed r (CloseDoneCh r'')"
  by (simp_all add: owed_def)

lemma owed_in_simps [simp]:
  "owed_in r [] = 0" "owed_in r (a # as) = (if owed r a then 1 else 0) + owed_in r as"
  "owed_in r (as @ bs) = owed_in r as + owed_in r bs"
  by (simp_all add: owed_in_def)

lemma answers_frame [simp]:
  "answers r (CloseConn c d p) = answers r p"
  "answers r (closeCountedConn c a d p) = answers r p"
  "answers r (storeIdleConn c a p) = answers r p"
  "answers r (removeIdleConn c p) = answers r p"
  by (simp_all add: CloseConn_def closeCountedConn_def storeIdleConn_def removeIdleConn_def)

lemma answers_reply_to [simp]:
  "answers r (reply_to ro x p) = answers r p + (if ro = Some r then 1 else 0)"
  by (simp add: reply_to_def split: option.splits)

lemma answers_startDial [simp]:
  "answers r (startDial a ro p) = answers r p + (if ro = Some r then 1 else 0)"
  by (cases ro) (auto simp: startDial_def)

lemma answers_getEndpoint: "getEndpoint p = (p', x) \<Longrightarrow> answers r p' = answers r p"
proof -
  assume "getEndpoint p = (p', x)"
  from getEndpoint_fields [OF this] have "acts p' = acts (p\<lparr>poolIndex := poolIndex p'\<rparr>)" by (rule arg_cong)
  then show ?thesis by simp
qed

lemma answers_handleGet_loop: "answers r (fst (handleGet_loop e p)) = answers r p"
proof (induction e p rule: handleGet_loop.induct)
  case (1 e p)
  then show ?case by (subst handleGet_loop.simps) (simp add: Let_def split: list.splits)
qed

lemma answers_handleGet [simp]: "answers r' (handleGet e r p) = answers r' p + (if r' = r then 1 else 0)"
proof -
  obtain p' c where l: "handleGet_loop e p = (p', c)" by (cases "handleGet_loop e p")
  obtain p'' x where g: "getEndpoint p' = (p'', x)" by (cases "getEndpoint p'")
  have "answers r' p' = answers r' p" using answers_handleGet_loop [of r' e p] l by simp
  with answers_getEndpoint [OF g, of r'] l g show ?thesis
    by (auto simp: handleGet_def split: option.splits sum.splits)
qed

lemma answers_handleDialResult [simp]:
  "answers r' (handleDialResult e addr conn er r p) = answers r' p + (if r = Some r' then 1 else 0)"
  by (auto simp: handleDialResult_def Let_def retryGetFromCurrentEndpoints_def split: option.splits)

text \<open>Loops that answer nobody: the laws of \<open>keeps_invariant\<close> at the number of answers.\<close>

interpretation ans_dials: keeps_invariant "\<lambda>q. answers r q = n" "\<lambda>a q. startDial a None q" for r n
  by unfold_locales simp

lemma answers_sweepIdle:
  "(\<And>c q. answers r (close_it c q) = answers r q) \<Longrightarrow>
   answers r (sweepIdle drop_it close_it cs left p) = answers r p"
  by (induction cs arbitrary: left p) auto

lemma answers_removeEndpointConn_loop:
  "answers r (removeEndpointConn_loop e a n k cs left p) = answers r p"
  by (induction cs arbitrary: k left p) auto

interpretation ans_reb1: keeps_invariant "\<lambda>q. answers r q = n" "rebalance_counted e ex" for r n e ex
  by unfold_locales
    (auto simp: rebalance_counted_def Let_def startDials_def removeEndpointConn_def
      answers_removeEndpointConn_loop intro: ans_dials.keeps_funpow)

interpretation ans_reb2: keeps_invariant "\<lambda>q. answers r q = n" "rebalance_missing ex" for r n ex
  by unfold_locales (auto simp: rebalance_missing_def startDials_def intro: ans_dials.keeps_funpow)

lemma answers_rebalance [simp]: "answers r (rebalance e p) = answers r p"
  by (auto simp: rebalance_def Let_def intro!: ans_reb2.keeps_fold ans_reb1.keeps_fold)

interpretation ans_gone: keeps_invariant "\<lambda>q. answers r q = n" drop_gone for r n
  by unfold_locales (simp add: drop_gone_def)

lemma answers_update [simp]: "answers r (handleUpdateEndpoints e alls adds dels p) = answers r p"
proof -
  let ?p1 = "p\<lparr>endpoints := alls, endpointMap := remdups alls\<rparr>"
  have "answers r (fold drop_gone ks ?p1) = answers r p" for ks
    by (rule ans_gone.keeps_fold) simp
  then show ?thesis
    by (simp add: handleUpdateEndpoints_def Let_def drop_gone_def [abs_def]
        removeDeletedEndpointConns_def answers_sweepIdle)
qed

lemma answers_putConn [simp]: "answers r (putConn e c er isNew p) = answers r p"
  by (simp add: putConn_def Let_def split: option.splits)

lemma answers_drain_cmd [simp]:
  "answers r (drain_cmd cmd p) = answers r p + (if cmd_reply cmd = Some r then 1 else 0)"
  by (auto simp: drain_cmd_def cmd_reply_def split: poolCmd.splits option.splits)

lemma answers_drain:
  "answers r (drainCmdChOnClose p) = answers r p + length (filter (\<lambda>cmd. cmd_reply cmd = Some r) (cmdCh p))"
proof -
  have "answers r (fold drain_cmd cmds p) = answers r p + length (filter (\<lambda>cmd. cmd_reply cmd = Some r) cmds)" for cmds
    by (induction cmds arbitrary: p) auto
  then show ?thesis by (simp add: drainCmdChOnClose_def)
qed

lemma answers_closeIdleConns [simp]: "answers r (closeIdleConns e p) = answers r p"
proof -
  have "answers r (fold (\<lambda>c q. closeCountedConn c (GetRemoteAddr e c) 0 q) cs p) = answers r p" for cs
    by (induction cs arbitrary: p) auto
  then show ?thesis by (simp add: closeIdleConns_def)
qed

lemma cmdCh_closeIdleConns [simp]: "cmdCh (closeIdleConns e p) = cmdCh p"
proof -
  have "cmdCh (fold (\<lambda>c q. closeCountedConn c (GetRemoteAddr e c) 0 q) cs p) = cmdCh p" for cs
    by (induction cs arbitrary: p) auto
  then show ?thesis by (simp add: closeIdleConns_def)
qed

lemma answers_handleCmd:
  "answers r (fst (handleCmd e cmd p)) =
     answers r p +
     (if cmd_reply cmd = Some r then 1 else 0) +
     (case cmd of CmdClose d \<Rightarrow> length (filter (\<lambda>c. cmd_reply c = Some r) (cmdCh p)) | _ \<Rightarrow> 0)"
  by (cases cmd) (auto simp: handleCmd_def cmd_reply_def answers_drain handleConnClosed_def)

text \<open>
  A command that carries a caller's reply channel (a \<^verbatim>\<open>Get\<close>, or the result of a dial started
  for one) is answered exactly once: the handler either sends one reply on the channel or hands
  the channel to one new dial, never both, never twice, and no other command or timer touches
  a reply channel. Closing the pool answers every queued request once as well.
\<close>

theorem handleCmd_answers_once:
  "answers r (fst (handleCmd e cmd p)) =
     answers r p +
     (if cmd_reply cmd = Some r then 1 else 0) +
     (case cmd of CmdClose d \<Rightarrow> length (filter (\<lambda>c. cmd_reply c = Some r) (cmdCh p)) | _ \<Rightarrow> 0)"
  by (rule answers_handleCmd)

section \<open>Rebalancing\<close>

lemma expected_ge_1: "1 \<le> getExpectedConnPerEndpoint p"
  by (simp add: getExpectedConnPerEndpoint_def Let_def)

text \<open>
  The number of connections per endpoint that rebalancing aims at is at least one and at most
  the configured number or the average number per available endpoint, whichever is larger.
\<close>

theorem expected_conns_bounds:
  "1 \<le> getExpectedConnPerEndpoint p \<and>
   getExpectedConnPerEndpoint p \<le>
     max 1 (max (connsPerEndpoint p)
       ((getConnCount p + requiredConnNum p) div 2 div getAvailableEndpointCount p))"
  by (auto simp: getExpectedConnPerEndpoint_def Let_def min_def max_def)

lemma startDials_spec:
  assumes "\<not> closed p" "a \<noteq> ''''"
  shows "mget0 (pendingDials (startDials n a p)) b =
      (if b = a then mget0 (pendingDials p) b + max 0 n else mget0 (pendingDials p) b)
    \<and> acts (startDials n a p) = acts p @ replicate (nat n) (GoDial a None)
    \<and> endpointConnCounts (startDials n a p) = endpointConnCounts p
    \<and> endpointMap (startDials n a p) = endpointMap p
    \<and> unavailable (startDials n a p) = unavailable p \<and> closed (startDials n a p) = closed p
    \<and> idleConns (startDials n a p) = idleConns p"
proof -
  have "mget0 (pendingDials ((startDial a None ^^ k) p)) b =
      (if b = a then mget0 (pendingDials p) b + int k else mget0 (pendingDials p) b)
    \<and> acts ((startDial a None ^^ k) p) = acts p @ replicate k (GoDial a None)
    \<and> endpointConnCounts ((startDial a None ^^ k) p) = endpointConnCounts p
    \<and> endpointMap ((startDial a None ^^ k) p) = endpointMap p
    \<and> unavailable ((startDial a None ^^ k) p) = unavailable p \<and> closed ((startDial a None ^^ k) p) = closed p
    \<and> idleConns ((startDial a None ^^ k) p) = idleConns p" for k
  proof (induction k)
    case 0
    then show ?case by simp
  next
    case (Suc k)
    then show ?case using assms
      by (auto simp: startDial_def replicate_append_same)
  qed
  from this [of "nat n"] show ?thesis by (simp add: startDials_def max_def)
qed

lemma dec_counts:
  assumes "a \<noteq> ''''"
  shows "mget0 (endpointConnCounts (decEndpointConnCount c a p)) b \<le> mget0 (endpointConnCounts p) b \<or>
         b = a \<and> mget0 (endpointConnCounts p) b < 0"
    and "b \<noteq> a \<Longrightarrow> map_of (endpointConnCounts (decEndpointConnCount c a p)) b = map_of (endpointConnCounts p) b"
    and "mget0 (endpointConnCounts p) a - 1 \<le> mget0 (endpointConnCounts (decEndpointConnCount c a p)) a"
  using assms by (auto simp: decEndpointConnCount_def Let_def split: option.splits)

lemma closeCounted_counts [simp]:
  "endpointConnCounts (closeCountedConn c a d p) = endpointConnCounts (decEndpointConnCount c a p)"
  by (simp add: closeCountedConn_def)

lemma count_inv_nonneg: "count_inv p \<Longrightarrow> 0 \<le> mget0 (endpointConnCounts p) a"
  by (simp add: count_inv_def)

lemma removeEndpointConn_loop_counts:
  assumes "good e p" and "a \<noteq> ''''" and "removed \<le> count"
  shows "mget0 (endpointConnCounts p) a - (count - removed)
      \<le> mget0 (endpointConnCounts (removeEndpointConn_loop e a count removed cs left p)) a
    \<and> mget0 (endpointConnCounts (removeEndpointConn_loop e a count removed cs left p)) a
      \<le> mget0 (endpointConnCounts p) a
    \<and> (\<forall>b. b \<noteq> a \<longrightarrow> map_of (endpointConnCounts (removeEndpointConn_loop e a count removed cs left p)) b
        = map_of (endpointConnCounts p) b)
    \<and> pendingDials (removeEndpointConn_loop e a count removed cs left p) = pendingDials p
    \<and> endpointMap (removeEndpointConn_loop e a count removed cs left p) = endpointMap p
    \<and> unavailable (removeEndpointConn_loop e a count removed cs left p) = unavailable p
    \<and> closed (removeEndpointConn_loop e a count removed cs left p) = closed p"
  using assms(1, 3)
proof (induction cs arbitrary: removed left p)
  case Nil
  then show ?case by simp
next
  case (Cons c cs)
  show ?case
  proof (cases "GetRemoteAddr e c = a \<and> removed < count")
    case False
    with Cons show ?thesis by auto
  next
    case True
    let ?q = "closeCountedConn c a defaultConnCloseDelay p"
    have g: "good e ?q" using good_closeRemote [OF Cons.prems(1), of c] True by simp
    have nn: "\<not> mget0 (endpointConnCounts p) a < 0"
      using Cons.prems(1) count_inv_nonneg [of p a] by (simp add: good_def pool_inv_def)
    have le: "mget0 (endpointConnCounts ?q) a \<le> mget0 (endpointConnCounts p) a"
      using dec_counts(1) [OF assms(2), of c p a] nn by simp
    note IH = Cons.IH [OF g, of "removed + 1" left]
    show ?thesis
      using IH True le dec_counts(2) [OF assms(2), of _ c p] dec_counts(3) [OF assms(2), of p c] by auto
  qed
qed

lemma mget0_cong: "map_of m a = map_of m' a \<Longrightarrow> mget0 m a = mget0 m' a"
  by (simp add: mget0_def)

lemma mhas_cong: "map_of m a = map_of m' a \<Longrightarrow> mhas m a = mhas m' a"
  by (simp add: mhas_def)

text \<open>What one endpoint gets: \<open>need_dial\<close> says that an endpoint is current, available and below
  the expected number.\<close>

definition need_dial :: "connPool \<Rightarrow> int \<Rightarrow> string \<Rightarrow> bool" where
  "need_dial p ex a \<longleftrightarrow> a \<in> set (endpointMap p) \<and> \<not> mhas (unavailable p) a \<and>
     mget0 (endpointConnCounts p) a < ex"

lemma rebalance_counted_spec:
  assumes g: "good e p" and o: "\<not> closed p" and a: "a \<noteq> ''''"
  shows "mget0 (pendingDials (rebalance_counted e ex a p)) b =
      (if b = a \<and> need_dial p ex a
       then max (mget0 (pendingDials p) a) (ex - mget0 (endpointConnCounts p) a)
       else mget0 (pendingDials p) b)
    \<and> (b \<noteq> a \<longrightarrow> map_of (endpointConnCounts (rebalance_counted e ex a p)) b = map_of (endpointConnCounts p) b)
    \<and> min ex (mget0 (endpointConnCounts p) a) \<le> mget0 (endpointConnCounts (rebalance_counted e ex a p)) a
    \<and> mget0 (endpointConnCounts (rebalance_counted e ex a p)) a \<le> mget0 (endpointConnCounts p) a
    \<and> endpointMap (rebalance_counted e ex a p) = endpointMap p
    \<and> unavailable (rebalance_counted e ex a p) = unavailable p
    \<and> closed (rebalance_counted e ex a p) = closed p"
proof -
  have pd: "0 \<le> mget0 (pendingDials p) a"
    using g by (intro dial_inv_nonneg) (simp add: good_def pool_inv_def)
  show ?thesis
  proof (cases "mget0 (endpointConnCounts p) a" ex rule: linorder_cases)
    case less
    then show ?thesis
      using startDials_spec [OF o a] pd
      by (auto simp: rebalance_counted_def need_dial_def Let_def max_def)
  next
    case equal
    then show ?thesis by (simp add: rebalance_counted_def need_dial_def)
  next
    case greater
    then show ?thesis
      using removeEndpointConn_loop_counts [OF g a, of 0 "mget0 (endpointConnCounts p) a - ex" "idleConns p" "[]"]
      by (auto simp: rebalance_counted_def removeEndpointConn_def need_dial_def Let_def min_def)
  qed
qed

lemma fold_rebalance_counted:
  assumes "good e p" "\<not> closed p" "distinct ks" "'''' \<notin> set ks"
  shows "(\<forall>b. mget0 (pendingDials (fold (rebalance_counted e ex) ks p)) b =
      (if b \<in> set ks \<and> need_dial p ex b
       then max (mget0 (pendingDials p) b) (ex - mget0 (endpointConnCounts p) b)
       else mget0 (pendingDials p) b))
    \<and> (\<forall>b. b \<notin> set ks \<longrightarrow>
        map_of (endpointConnCounts (fold (rebalance_counted e ex) ks p)) b = map_of (endpointConnCounts p) b)
    \<and> (\<forall>b. b \<in> set ks \<longrightarrow>
        min ex (mget0 (endpointConnCounts p) b) \<le> mget0 (endpointConnCounts (fold (rebalance_counted e ex) ks p)) b
        \<and> mget0 (endpointConnCounts (fold (rebalance_counted e ex) ks p)) b \<le> mget0 (endpointConnCounts p) b)
    \<and> endpointMap (fold (rebalance_counted e ex) ks p) = endpointMap p
    \<and> unavailable (fold (rebalance_counted e ex) ks p) = unavailable p
    \<and> closed (fold (rebalance_counted e ex) ks p) = closed p"
  using assms
proof (induction ks arbitrary: p)
  case Nil
  then show ?case by simp
next
  case (Cons a ks)
  let ?p = "rebalance_counted e ex a p"
  note s = rebalance_counted_spec [OF Cons.prems(1, 2), of a ex]
  have a: "a \<noteq> ''''" "a \<notin> set ks" using Cons.prems by auto
  have g: "good e ?p" by (rule good_rebalance_counted [OF Cons.prems(1)])
  have eq: "map_of (endpointConnCounts ?p) b = map_of (endpointConnCounts p) b" if "b \<noteq> a" for b
    using s [OF a(1), of b] that by simp
  have nd: "need_dial ?p ex b = need_dial p ex b" if "b \<noteq> a" for b
    using s [OF a(1), of b] mget0_cong [OF eq [OF that]] by (simp add: need_dial_def)
  have fr: "\<not> closed ?p" "endpointMap ?p = endpointMap p" "unavailable ?p = unavailable p"
    using s [OF a(1)] Cons.prems(2) by simp_all
  note IH = Cons.IH [OF g fr(1)]
  show ?case
  proof (intro conjI allI impI)
    fix b
    show "mget0 (pendingDials (fold (rebalance_counted e ex) (a # ks) p)) b =
      (if b \<in> set (a # ks) \<and> need_dial p ex b
       then max (mget0 (pendingDials p) b) (ex - mget0 (endpointConnCounts p) b)
       else mget0 (pendingDials p) b)"
    proof (cases "b = a")
      case True
      then show ?thesis using IH Cons.prems a s [OF a(1), of a] by simp
    next
      case False
      then show ?thesis
        using IH Cons.prems a s [OF a(1), of b] nd [OF False] mget0_cong [OF eq [OF False]] by auto
    qed
  next
    fix b assume "b \<notin> set (a # ks)"
    then show "map_of (endpointConnCounts (fold (rebalance_counted e ex) (a # ks) p)) b = map_of (endpointConnCounts p) b"
      using IH Cons.prems eq [of b] by auto
  next
    fix b assume b: "b \<in> set (a # ks)"
    have "min ex (mget0 (endpointConnCounts p) b) \<le> mget0 (endpointConnCounts (fold (rebalance_counted e ex) (a # ks) p)) b
        \<and> mget0 (endpointConnCounts (fold (rebalance_counted e ex) (a # ks) p)) b \<le> mget0 (endpointConnCounts p) b"
    proof (cases "b = a")
      case True
      then have "map_of (endpointConnCounts (fold (rebalance_counted e ex) ks ?p)) a = map_of (endpointConnCounts ?p) a"
        using IH Cons.prems a by auto
      from mget0_cong [OF this] show ?thesis using True s [OF a(1)] by simp
    next
      case False
      then show ?thesis using IH Cons.prems b mget0_cong [OF eq [OF False]] by auto
    qed
    then show "min ex (mget0 (endpointConnCounts p) b) \<le> mget0 (endpointConnCounts (fold (rebalance_counted e ex) (a # ks) p)) b"
      and "mget0 (endpointConnCounts (fold (rebalance_counted e ex) (a # ks) p)) b \<le> mget0 (endpointConnCounts p) b"
      by simp_all
  qed (use IH Cons.prems fr in auto)
qed

lemma fold_rebalance_missing:
  assumes "\<not> closed p" "distinct ks" "'''' \<notin> set ks"
  shows "(\<forall>b. mget0 (pendingDials (fold (rebalance_missing ex) ks p)) b =
      (if b \<in> set ks \<and> \<not> mhas (endpointConnCounts p) b \<and> \<not> mhas (unavailable p) b
       then max (mget0 (pendingDials p) b) ex else mget0 (pendingDials p) b))
    \<and> endpointConnCounts (fold (rebalance_missing ex) ks p) = endpointConnCounts p"
  using assms
proof (induction ks arbitrary: p)
  case Nil
  then show ?case by simp
next
  case (Cons a ks)
  let ?p = "rebalance_missing ex a p"
  have a: "a \<noteq> ''''" "a \<notin> set ks" using Cons.prems by auto
  note sd = startDials_spec [OF Cons.prems(1) a(1), of "ex - mget0 (pendingDials p) a"]
  have s: "\<not> closed ?p" "endpointConnCounts ?p = endpointConnCounts p" "unavailable ?p = unavailable p"
    "mget0 (pendingDials ?p) b =
      (if b = a \<and> \<not> mhas (endpointConnCounts p) b \<and> \<not> mhas (unavailable p) b
       then max (mget0 (pendingDials p) b) ex else mget0 (pendingDials p) b)" for b
    using Cons.prems(1) sd by (auto simp: rebalance_missing_def max_def)
  then show ?case using Cons.IH [OF s(1)] Cons.prems a s by auto
qed

text \<open>
  C27. One round of rebalancing brings every current, available endpoint that is below the expected
  number up to it and dials no more than that: afterwards the dials in flight are exactly the larger
  of the dials that were already pending and the number missing, and every other endpoint's are
  unchanged. Endpoints above the expected number lose idle connections but never fall below it,
  and no other endpoint loses a connection, for every order in which the maps are traversed.
\<close>

theorem rebalance_reaches_expected:
  assumes "pool_inv p" and "ctx_ok e p" and "\<not> closed p" and "range_order (rangeOrd e)"
    and "'''' \<notin> set (endpoints p)"
  shows "mget0 (pendingDials (rebalance e p)) a =
      (if need_dial p (getExpectedConnPerEndpoint p) a
       then max (mget0 (pendingDials p) a)
              (getExpectedConnPerEndpoint p - mget0 (endpointConnCounts p) a)
       else mget0 (pendingDials p) a) \<and>
    min (getExpectedConnPerEndpoint p) (mget0 (endpointConnCounts p) a)
      \<le> mget0 (endpointConnCounts (rebalance e p)) a \<and>
    mget0 (endpointConnCounts (rebalance e p)) a \<le> mget0 (endpointConnCounts p) a"
proof -
  let ?ex = "getExpectedConnPerEndpoint p"
  let ?ks = "rangeOrd e (mkeys (endpointConnCounts p))"
  let ?q = "fold (rebalance_counted e ?ex) ?ks p"
  have g: "good e p" using assms by (simp add: good_def)
  have ci: "count_inv p" and ei: "ep_inv p" using assms(1) by (simp_all add: pool_inv_def)
  have ks: "distinct ?ks" "set ?ks = set (mkeys (endpointConnCounts p))"
    using range_orderD [OF assms(4), of "mkeys (endpointConnCounts p)"] ci by (simp_all add: count_inv_def)
  have "\<not> mhas (endpointConnCounts p) ''''" using ci by (simp add: count_inv_def)
  then have ne: "'''' \<notin> set ?ks" using ks(2) by (simp add: mhas_iff)
  have ms: "distinct (rangeOrd e (endpointMap p))" "set (rangeOrd e (endpointMap p)) = set (endpoints p)"
    using range_orderD [OF assms(4), of "endpointMap p"] ei by (simp_all add: ep_inv_def)
  have ex: "1 \<le> ?ex" by (rule expected_ge_1)
  note f1 = fold_rebalance_counted [OF g assms(3) ks(1) ne, of ?ex]
  have fr: "endpointMap ?q = endpointMap p" "unavailable ?q = unavailable p" "\<not> closed ?q"
    using f1 assms(3) by simp_all
  have r: "rebalance e p = fold (rebalance_missing ?ex) (rangeOrd e (endpointMap p)) ?q"
    using ex fr by (simp add: rebalance_def Let_def)
  note f2 = fold_rebalance_missing [OF fr(3) ms(1), of ?ex]
  have gq: "good e ?q" by (rule rebalance1.keeps_fold [OF g])
  then have cq: "count_inv ?q" by (simp add: good_def pool_inv_def)
  have has: "mhas (endpointConnCounts ?q) b = (0 < mget0 (endpointConnCounts ?q) b)" for b
    using cq by (simp add: count_inv_def)
  show ?thesis
  proof (cases "a \<in> set ?ks")
    case True
    then have "mhas (endpointConnCounts p) a" using ks(2) by (simp add: mhas_iff)
    then have pos: "0 < mget0 (endpointConnCounts p) a" using ci by (simp add: count_inv_def)
    have "0 < mget0 (endpointConnCounts ?q) a"
      using f1 True pos ex by (fastforce simp: min_def split: if_splits)
    then show ?thesis using f1 f2 True has [of a] ms assms(5) r by auto
  next
    case False
    then have m: "\<not> mhas (endpointConnCounts p) a" using ks(2) by (simp add: mhas_iff)
    then have z: "mget0 (endpointConnCounts p) a = 0" by (rule mget0_absent)
    have same: "map_of (endpointConnCounts ?q) a = map_of (endpointConnCounts p) a"
      using f1 False by blast
    have nd: "need_dial p ?ex a \<longleftrightarrow> a \<in> set (endpoints p) \<and> \<not> mhas (unavailable p) a"
      using ei z ex by (auto simp: need_dial_def ep_inv_def)
    show ?thesis
      using f1 f2 False same ms assms(5) r nd z m mhas_cong [OF same] mget0_cong [OF same] fr by auto
  qed
qed

theorem rebalance_reaches_expected_witness:
  "mget0 (pendingDials (rebalance sample_env (sample_pool\<lparr>endpoints := [''a'', ''b'', ''c''],
      endpointMap := [''a'', ''b'', ''c'']\<rparr>))) ''c'' = 1"
proof -
  let ?p = "sample_pool\<lparr>endpoints := [''a'', ''b'', ''c''], endpointMap := [''a'', ''b'', ''c'']\<rparr>"
  have 1: "pool_inv ?p"
    by (auto simp: sample_pool_def pool_inv_def count_inv_def dial_inv_def ep_inv_def connsAt_def
        mget0_def mhas_def)
  have 2: "ctx_ok sample_env ?p" using sample_ctx_ok by (simp add: ctx_ok_def)
  have 3: "\<not> closed ?p" "'''' \<notin> set (endpoints ?p)" by (simp_all add: sample_pool_def)
  have "getExpectedConnPerEndpoint ?p = 1" "need_dial ?p 1 ''c''"
    by (simp_all add: getExpectedConnPerEndpoint_def getConnCount_def getAvailableEndpointCount_def
        sample_pool_def need_dial_def mhas_def mget0_def Let_def)
  then show ?thesis
    using rebalance_reaches_expected [OF 1 2 3(1) sample_range_order 3(2), of "''c''"]
    by (simp add: sample_pool_def mget0_def)
qed

section \<open>Recovery\<close>

text \<open>An endpoint that is due: marked unavailable longer ago than its backoff, with no dial in flight.\<close>

definition due :: "pool_env \<Rightarrow> connPool \<Rightarrow> string \<Rightarrow> bool" where
  "due e p ep \<longleftrightarrow> mget0 (pendingDials p) ep \<le> 0 \<and>
     (\<exists>t \<in> set_option (map_of (unavailable p) ep).
        Next (backoff p) (randOf e ep) (mget0 (retryCounts p) ep) < now e - t)"

lemma recover_one_spec:
  "recover_one e ep (p, b) =
     (if due e p ep then (startDial ep None p, True) else (p, b))"
  by (auto simp: recover_one_def due_def Let_def split: option.splits)

lemma fold_recover:
  assumes "\<not> closed p" "distinct ks" "'''' \<notin> set ks"
  shows "snd (fold (recover_one e) ks (p, b)) = (b \<or> (\<exists>k \<in> set ks. due e p k))
    \<and> acts (fst (fold (recover_one e) ks (p, b))) =
        acts p @ map (\<lambda>k. GoDial k None) (filter (due e p) ks)
    \<and> unavailable (fst (fold (recover_one e) ks (p, b))) = unavailable p"
  using assms
proof (induction ks arbitrary: p b)
  case Nil
  then show ?case by simp
next
  case (Cons k ks)
  let ?p = "startDial k None p"
  have other: "due e ?p x = due e p x" if "x \<in> set ks" for x
    using that Cons.prems by (auto simp: due_def startDial_def)
  then have "filter (due e ?p) ks = filter (due e p) ks" by (intro filter_cong) auto
  then show ?case
    using Cons.IH [of ?p True] Cons.IH [of p b] Cons.prems other
    by (auto simp: recover_one_spec startDial_def)
qed

text \<open>
  C30. The recovery timer dials every endpoint that is due (marked unavailable for longer than its
  backoff and with no dial already in flight) exactly once, dials no other endpoint, leaves
  the marks in place until a dial succeeds, and reports whether it dialled anything.
\<close>

theorem recover_dials_due:
  assumes "\<not> closed p" and "range_order (rangeOrd e)" and "distinct (mkeys (unavailable p))"
    and "\<not> mhas (unavailable p) ''''"
  shows "acts (fst (recover e p)) =
      acts p @ map (\<lambda>k. GoDial k None) (filter (due e p) (rangeOrd e (mkeys (unavailable p))))
    \<and> snd (recover e p) = (\<exists>k. due e p k) \<and> unavailable (fst (recover e p)) = unavailable p"
proof -
  let ?ks = "rangeOrd e (mkeys (unavailable p))"
  have ks: "distinct ?ks" "set ?ks = set (mkeys (unavailable p))"
    using range_orderD [OF assms(2, 3)] by simp_all
  have "'''' \<notin> set ?ks" using ks(2) assms(4) by (simp add: mhas_iff)
  note f = fold_recover [OF assms(1) ks(1) this, of e False]
  have "due e p k \<Longrightarrow> k \<in> set ?ks" for k
    using ks(2) by (auto simp: due_def dest: map_of_mkeys_in)
  then show ?thesis using f by (auto simp: recover_def)
qed

theorem recover_dials_due_witness:
  "acts (fst (recover (sample_env\<lparr>now := 90 * second\<rparr>)
     (sample_pool\<lparr>unavailable := [(''a'', 0), (''b'', 89 * second)]\<rparr>))) = [GoDial ''a'' None]"
proof -
  let ?e = "sample_env\<lparr>now := 90 * second\<rparr>"
  let ?p = "sample_pool\<lparr>unavailable := [(''a'', 0), (''b'', 89 * second)]\<rparr>"
  have n: "Next pool_backoff (1 / 2) 0 = 10 * second"
    by (simp add: Next_def pool_backoff_def)
  have "due ?e ?p ''a''" "\<not> due ?e ?p ''b''"
    using n by (simp_all add: due_def sample_pool_def sample_env_def)
  moreover have "acts (fst (recover ?e ?p)) =
      acts ?p @ map (\<lambda>k. GoDial k None) (filter (due ?e ?p) (rangeOrd ?e (mkeys (unavailable ?p))))"
    by (rule conjunct1 [OF recover_dials_due])
      (simp_all add: sample_pool_def sample_env_def mhas_def)
  ultimately show ?thesis by (simp add: sample_pool_def sample_env_def)
qed

section \<open>Updating the endpoints\<close>

lemma sweep_idle_endpointMap:
  "(\<And>c q. endpointMap (close_it c q) = endpointMap q) \<Longrightarrow>
   idleConns (sweepIdle (\<lambda>c q. \<not> P c (endpointMap q)) close_it cs left p) =
     left @ filter (\<lambda>c. P c (endpointMap p)) cs \<and>
   endpointMap (sweepIdle (\<lambda>c q. \<not> P c (endpointMap q)) close_it cs left p) = endpointMap p"
  by (induction cs arbitrary: left p) auto

lemma sweep_acts:
  "(\<And>c q. endpointMap (close_it c q) = endpointMap q) \<Longrightarrow>
   (\<And>c q. acts (close_it c q) = acts q @ [f c]) \<Longrightarrow>
   acts (sweepIdle (\<lambda>c q. \<not> P c (endpointMap q)) close_it cs left p) =
     acts p @ map f (filter (\<lambda>c. \<not> P c (endpointMap p)) cs)"
  by (induction cs arbitrary: left p) auto

lemma removeDeleted_spec:
  "idleConns (removeDeletedEndpointConns e p) =
     filter (\<lambda>c. GetRemoteAddr e c \<in> set (endpointMap p)) (idleConns p)"
  "endpointMap (removeDeletedEndpointConns e p) = endpointMap p"
  "acts (removeDeletedEndpointConns e p) = acts p @
     map (\<lambda>c. CloseLater c defaultConnCloseDelay)
       (filter (\<lambda>c. GetRemoteAddr e c \<notin> set (endpointMap p)) (idleConns p))"
  unfolding removeDeletedEndpointConns_def
  using sweep_idle_endpointMap [where P = "\<lambda>c m. GetRemoteAddr e c \<in> set m" and left = "[]"]
    sweep_acts [where P = "\<lambda>c m. GetRemoteAddr e c \<in> set m" and left = "[]"
        and f = "\<lambda>c. CloseLater c defaultConnCloseDelay"]
  by simp_all

lemma removeEndpointConn_loop_sub:
  "set (idleConns (removeEndpointConn_loop e a n k cs left p)) \<subseteq> set left \<union> set cs"
proof (induction cs arbitrary: k left p)
  case Nil
  then show ?case by simp
next
  case (Cons c cs)
  from Cons.IH [of "k + 1" left "closeCountedConn c a defaultConnCloseDelay p"]
    Cons.IH [of k "left @ [c]" p]
  show ?case by auto
qed

lemma removeEndpointConn_sub: "set (idleConns (removeEndpointConn e a n p)) \<subseteq> set (idleConns p)"
  using removeEndpointConn_loop_sub [of e a n 0 "idleConns p" "[]" p] by (simp add: removeEndpointConn_def)

lemma startDials_idle [simp]: "idleConns (startDials n a p) = idleConns p"
proof -
  have "idleConns ((startDial a None ^^ k) p) = idleConns p" for k by (induction k) simp_all
  then show ?thesis by (simp add: startDials_def)
qed

interpretation idle_reb1: keeps_invariant "\<lambda>q. set (idleConns q) \<subseteq> X" "rebalance_counted e ex" for X e ex
  by unfold_locales
    (auto simp: rebalance_counted_def Let_def dest: removeEndpointConn_sub [THEN subsetD])

interpretation idle_reb2: keeps_invariant "\<lambda>q. set (idleConns q) \<subseteq> X" "rebalance_missing ex" for X ex
  by unfold_locales (simp add: rebalance_missing_def)

lemma rebalance_idle_sub: "set (idleConns (rebalance e p)) \<subseteq> set (idleConns p)"
  by (auto simp: rebalance_def Let_def
      dest!: idle_reb2.keeps_fold [THEN subsetD, rotated]
      intro: idle_reb1.keeps_fold [of p "set (idleConns p)", THEN subsetD])

lemma endpointMap_startDials [simp]: "endpointMap (startDials n a p) = endpointMap p"
proof -
  have "endpointMap ((startDial a None ^^ k) p) = endpointMap p" for k by (induction k) simp_all
  then show ?thesis by (simp add: startDials_def)
qed

lemma endpointMap_removeEndpointConn_loop [simp]:
  "endpointMap (removeEndpointConn_loop e a n k cs left p) = endpointMap p"
  by (induction cs arbitrary: k left p) simp_all

interpretation map_reb1: keeps_invariant "\<lambda>q. endpointMap q = X" "rebalance_counted e ex" for X e ex
  by unfold_locales (simp add: rebalance_counted_def removeEndpointConn_def Let_def)

interpretation map_reb2: keeps_invariant "\<lambda>q. endpointMap q = X" "rebalance_missing ex" for X ex
  by unfold_locales (simp add: rebalance_missing_def)

lemma endpointMap_rebalance: "endpointMap (rebalance e p) = endpointMap p"
  by (simp add: rebalance_def Let_def map_reb1.keeps_fold map_reb2.keeps_fold)

text \<open>
  C28. After an endpoint update with a non-empty list, the endpoint list is that list, the endpoint
  set is its set, no endpoint outside it is marked unavailable, and every idle connection
  that stays belongs to an endpoint of the new list; when nothing was added or deleted the idle
  connections that stay are exactly those, in their old order, and each of the others is
  closed after the close delay. An empty list changes nothing.
\<close>

theorem update_endpoints_spec:
  assumes "pool_inv p" and "ctx_ok e p" and "range_order (rangeOrd e)"
  shows "(alls \<noteq> [] \<longrightarrow>
      (let p' = handleUpdateEndpoints e alls adds dels p
       in set (endpoints p') = set alls \<and> set (endpointMap p') = set alls \<and>
          (\<forall>a. mhas (unavailable p') a \<longrightarrow> a \<in> set alls) \<and>
          (\<forall>c \<in> set (idleConns p'). c \<in> set (idleConns p) \<and> GetRemoteAddr e c \<in> set alls) \<and>
          (adds = [] \<and> dels = [] \<longrightarrow>
             idleConns p' = filter (\<lambda>c. GetRemoteAddr e c \<in> set alls) (idleConns p) \<and>
             acts p' = acts p @ map (\<lambda>c. CloseLater c defaultConnCloseDelay)
               (filter (\<lambda>c. GetRemoteAddr e c \<notin> set alls) (idleConns p)))))
    \<and> handleUpdateEndpoints e [] adds dels p = p"
proof (intro conjI impI)
  show "handleUpdateEndpoints e [] adds dels p = p" by (simp add: handleUpdateEndpoints_def)
  assume ne: "alls \<noteq> []"
  let ?p1 = "p\<lparr>endpoints := alls, endpointMap := remdups alls\<rparr>"
  let ?p2 = "fold drop_gone (rangeOrd e (mkeys (unavailable p))) ?p1"
  let ?p3 = "removeDeletedEndpointConns e ?p2"
  let ?p' = "handleUpdateEndpoints e alls adds dels p"
  have h: "?p' = (if adds \<noteq> [] \<or> dels \<noteq> [] then rebalance e ?p3 else ?p3)"
    using ne by (simp add: handleUpdateEndpoints_def Let_def drop_gone_def [abs_def])
  have g: "good e ?p'" using assms by (intro good_handleUpdateEndpoints) (simp_all add: good_def)
  then have ei: "ep_inv ?p'" by (simp add: good_def pool_inv_def)
  have a2: "acts ?p2 = acts p"
  proof -
    have "acts (fold drop_gone ks q) = acts q" for ks q
      by (induction ks arbitrary: q) (simp_all add: drop_gone_def)
    then show ?thesis by simp
  qed
  have 3: "idleConns ?p3 = filter (\<lambda>c. GetRemoteAddr e c \<in> set alls) (idleConns p)"
    "set (endpointMap ?p3) = set alls"
    "acts ?p3 = acts p @ map (\<lambda>c. CloseLater c defaultConnCloseDelay)
       (filter (\<lambda>c. GetRemoteAddr e c \<notin> set alls) (idleConns p))"
    by (simp_all add: removeDeleted_spec fold_drop_gone_fields a2)
  have em: "set (endpointMap ?p') = set alls"
    using 3 by (simp add: h endpointMap_rebalance)
  have idle: "set (idleConns ?p') \<subseteq> set (idleConns ?p3)" using rebalance_idle_sub by (simp add: h)
  show "let p' = ?p' in set (endpoints p') = set alls \<and> set (endpointMap p') = set alls \<and>
          (\<forall>a. mhas (unavailable p') a \<longrightarrow> a \<in> set alls) \<and>
          (\<forall>c \<in> set (idleConns p'). c \<in> set (idleConns p) \<and> GetRemoteAddr e c \<in> set alls) \<and>
          (adds = [] \<and> dels = [] \<longrightarrow>
             idleConns p' = filter (\<lambda>c. GetRemoteAddr e c \<in> set alls) (idleConns p) \<and>
             acts p' = acts p @ map (\<lambda>c. CloseLater c defaultConnCloseDelay)
               (filter (\<lambda>c. GetRemoteAddr e c \<notin> set alls) (idleConns p)))"
    using em ei idle 3 by (auto simp: Let_def ep_inv_def h)
qed

theorem update_endpoints_spec_witness:
  "idleConns (handleUpdateEndpoints sample_env [''a''] [] [] sample_pool) = [1]"
proof -
  have "idleConns (handleUpdateEndpoints sample_env [''a''] [] [] sample_pool) =
      filter (\<lambda>c. GetRemoteAddr sample_env c \<in> set [''a'']) (idleConns sample_pool)"
    using update_endpoints_spec [OF sample_pool_inv sample_ctx_ok sample_range_order, of "[''a'']" "[]" "[]"]
    unfolding Let_def by blast
  then show ?thesis by (simp add: sample_pool_def sample_env_def GetRemoteAddr_def)
qed

section \<open>Closing the pool\<close>

text \<open>The connection a queued command carries.\<close>

definition carried :: "poolCmd \<Rightarrow> conn option" where
  "carried cmd = (case cmd of CmdPut c er \<Rightarrow> Some c | CmdDialResult a c er r \<Rightarrow> c | _ \<Rightarrow> None)"

definition int_reply :: "poolCmd \<Rightarrow> reply option" where
  "int_reply cmd = (case cmd of CmdNumPooled r \<Rightarrow> Some r | _ \<Rightarrow> None)"

lemma close_idle_acts:
  "acts (fold (\<lambda>c q. closeCountedConn c (GetRemoteAddr e c) 0 q) cs p) = acts p @ map CloseNow cs"
  by (induction cs arbitrary: p) auto

lemma close_idle_fields:
  "closeDone (fold (\<lambda>c q. closeCountedConn c (GetRemoteAddr e c) 0 q) cs p) = closeDone p"
  by (induction cs arbitrary: p) (auto simp: closeCountedConn_def CloseConn_def
      decEndpointConnCount_def Let_def split: option.splits)

lemma drain_cmd_frame: "closeDone (drain_cmd cmd p) = closeDone p" "idleConns (drain_cmd cmd p) = idleConns p"
  by (simp_all add: drain_cmd_def CloseConn_def reply_to_def split: poolCmd.split option.split)

lemma drain_cmd_counts:
  "count_list (acts (drain_cmd cmd p)) (CloseNow c) =
     count_list (acts p) (CloseNow c) + (if carried cmd = Some c then 1 else 0)"
  "count_list (acts (drain_cmd cmd p)) (ReplyInt r 0) =
     count_list (acts p) (ReplyInt r 0) + (if int_reply cmd = Some r then 1 else 0)"
  by (simp_all add: drain_cmd_def CloseConn_def reply_to_def carried_def int_reply_def
      split: poolCmd.split option.split)

lemma drain_fields:
  "closeDone (fold drain_cmd cmds p) = closeDone p" "idleConns (fold drain_cmd cmds p) = idleConns p"
  by (induction cmds arbitrary: p) (simp_all add: drain_cmd_frame)

lemma drain_counts:
  "count_list (acts (fold drain_cmd cmds p)) (CloseNow c) =
     count_list (acts p) (CloseNow c) + length (filter (\<lambda>x. carried x = Some c) cmds)"
  "count_list (acts (fold drain_cmd cmds p)) (ReplyInt r 0) =
     count_list (acts p) (ReplyInt r 0) + length (filter (\<lambda>x. int_reply x = Some r) cmds)"
  by (induction cmds arbitrary: p) (simp_all add: drain_cmd_counts)

lemma drain_prefix: "\<exists>as. acts (fold drain_cmd cmds p) = acts p @ as"
proof (induction cmds arbitrary: p)
  case Nil
  then show ?case by simp
next
  case (Cons cmd cmds)
  have "\<exists>as. acts (drain_cmd cmd p) = acts p @ as"
    by (simp add: drain_cmd_def CloseConn_def reply_to_def split: poolCmd.split option.split)
  with Cons [of "drain_cmd cmd p"] show ?case by (metis append.assoc fold_simps(2))
qed


section \<open>Construction\<close>

lemma good_newConn: "newConn e dial i p = (p', x) \<Longrightarrow> good e p \<Longrightarrow> good e p'"
  by (auto simp: newConn_def dialNewConn_def good_markUnavailable
      split: prod.splits sum.splits option.splits dest: good_getEndpoint)

lemma good_initConns_dial:
  "initConns_dial e dial i n cs er p = (p', cs', er') \<Longrightarrow> good e p \<Longrightarrow> good e p'"
  by (induction e dial i n cs er p rule: initConns_dial.induct)
    (auto split: prod.splits sum.splits dest: good_newConn)

lemma initConns_dial_keeps: "length cs \<le> length (fst (snd (initConns_dial e dial i n cs er p)))"
proof (induction e dial i n cs er p rule: initConns_dial.induct)
  case (2 e dial i n cs er p)
  then show ?case by (fastforce split: prod.splits sum.splits)
qed simp

lemma initConns_dial_fails:
  assumes "\<And>j ep. snd (dial j ep) \<noteq> None"
  shows "fst (snd (initConns_dial e dial i n cs er p)) = cs
    \<and> (n > 0 \<or> er \<noteq> None \<longrightarrow> snd (snd (initConns_dial e dial i n cs er p)) \<noteq> None)"
proof (induction n arbitrary: i er p)
  case (Suc n)
  obtain q x where g: "getEndpoint p = (q, x)" by (cases "getEndpoint p")
  have "\<exists>p' y. newConn e dial i p = (p', Inl y)"
  proof (cases x)
    case (Inr ep)
    obtain c m where "dial i ep = (c, Some m)" using assms [of i ep] by (cases "dial i ep") auto
    then show ?thesis using g Inr by (simp add: newConn_def dialNewConn_def)
  qed (simp add: g newConn_def)
  then obtain p' y where nc: "newConn e dial i p = (p', Inl y)" by blast
  show ?case using Suc.IH [of "Suc i" "Some y" p'] by (simp add: nc)
qed simp

lemma getEndpoint_first:
  assumes "endpoints p \<noteq> []" "poolIndex p = 0" "unavailable p = []"
  shows "\<exists>p'. getEndpoint p = (p', Inr (hd (endpoints p)))"
  using assms by (cases "endpoints p") (simp_all add: getEndpoint_def Let_def)

text \<open>
  A pool that \<^verbatim>\<open>NewConnPool\<close> returns satisfies the invariant of the pool. One
  working dial is enough: if the first endpoint can be dialled at once the pool is created, and an
  error is returned when every dial fails (and for an empty endpoint list or a missing
  dialer or logger).
\<close>

theorem NewConnPool_spec:
  assumes "initEndpoints \<noteq> []"
  shows "(\<forall>p. NewConnPool e initEndpoints cpe sz d lg lt hb = Inr p \<longrightarrow> pool_inv p)
    \<and> (snd (dial 0 (hd initEndpoints)) = None \<longrightarrow>
        (\<exists>p. NewConnPool e initEndpoints cpe sz (Some dial) True lt hb = Inr p))
    \<and> ((\<forall>i ep. snd (dial i ep) \<noteq> None) \<longrightarrow>
        (\<exists>er. NewConnPool e initEndpoints cpe sz (Some dial) True lt hb = Inl er))
    \<and> NewConnPool e [] cpe sz d lg lt hb = Inl ErrInitEndpointEmpty
    \<and> NewConnPool e initEndpoints cpe sz None lg lt hb = Inl ErrDialerIsNil
    \<and> NewConnPool e initEndpoints cpe sz (Some dial) False lt hb = Inl ErrLoggerIsNil"
proof -
  define n where "n = int (length initEndpoints) * (if cpe \<le> 0 then 1 else cpe)"
  define p0 where "p0 = \<lparr>cmdCh = [], closeDone = False, closed = False,
     poolSize = (if sz \<le> 0 then max 1024 n else sz),
     poolIndex = 0, connsPerEndpoint = (if cpe \<le> 0 then 1 else cpe), requiredConnNum = n,
     backoff = pool_backoff, maxConnLifetime = lt, idleConns = [],
     endpoints = initEndpoints, endpointMap = remdups initEndpoints,
     unavailable = [], retryCounts = [], endpointConnCounts = [],
     pendingDials = [], countedConns = [], heartbeatFunc = hb, acts = []\<rparr>"
  have N: "NewConnPool e initEndpoints cpe sz (Some dl) True lt hb =
      (case initConns e dl n p0 of (p', Some er) \<Rightarrow> Inl er | (p', None) \<Rightarrow> Inr p')" for dl
    using assms by (simp add: NewConnPool_def Let_def n_def p0_def)
  have n: "0 < n" using assms by (simp add: n_def)
  then obtain m where m: "nat n = Suc m" by (metis gr0_implies_Suc zero_less_nat_eq)
  have p0: "good e p0" using assms by (auto simp: p0_def inv_defs connsAt_def)
  have "pool_inv p" if new: "NewConnPool e initEndpoints cpe sz d lg lt hb = Inr p" for p
  proof -
    obtain dl where d: "d = Some dl" "lg"
      using new assms by (cases d; cases lg) (simp_all add: NewConnPool_def Let_def)
    obtain p' conns er where i: "initConns_dial e dl 0 (nat n) [] None p0 = (p', conns, er)"
      by (metis prod.exhaust)
    have "good e p'" using i p0 by (rule good_initConns_dial)
    then have "good e p" using new N [of dl] d i
      by (auto simp: initConns_def split: if_splits option.splits intro: puts.keeps_fold)
    then show ?thesis by (simp add: good_def)
  qed
  moreover have "\<exists>p. NewConnPool e initEndpoints cpe sz (Some dial) True lt hb = Inr p"
    if ok: "snd (dial 0 (hd initEndpoints)) = None"
  proof -
    obtain q where "getEndpoint p0 = (q, Inr (hd initEndpoints))"
      using getEndpoint_first [of p0] assms by (auto simp: p0_def)
    then have "newConn e dial 0 p0 = (q, Inr (fst (dial 0 (hd initEndpoints))))"
      using ok by (cases "dial 0 (hd initEndpoints)") (simp add: newConn_def dialNewConn_def)
    then have "fst (snd (initConns_dial e dial 0 (nat n) [] None p0)) \<noteq> []"
      using initConns_dial_keeps [of "[fst (dial 0 (hd initEndpoints))]" e dial 1 m None q] m by auto
    then show ?thesis by (auto simp: N initConns_def split: prod.splits)
  qed
  moreover have "\<exists>er. NewConnPool e initEndpoints cpe sz (Some dial) True lt hb = Inl er"
    if "\<forall>i ep. snd (dial i ep) \<noteq> None"
    using initConns_dial_fails [of dial e 0 "nat n" "[]" None p0] that n
    by (auto simp: N initConns_def split: prod.splits)
  ultimately show ?thesis using assms by (simp add: NewConnPool_def Let_def)
qed

theorem NewConnPool_spec_witness:
  "\<exists>p. NewConnPool sample_env [''a'', ''b''] 1 0
     (Some (\<lambda>i ep. if i = 0 then (Some 1, None) else (None, Some ''refused''))) True 0 False = Inr p"
  using NewConnPool_spec [of "[''a'', ''b'']" sample_env 1 0 None True 0 False
      "\<lambda>i ep. if i = 0 then (Some 1, None) else (None, Some ''refused'')"]
  by auto

end
