(* ===== verification/ConnPool_Conc.thy ===== *)
theory ConnPool_Conc
  imports ConnPool_Props "HOL-Library.Sublist"
begin

text \<open>
  The connection pool with its callers: every exported method of \<^verbatim>\<open>connPool\<close> and the goroutine of
  \<^verbatim>\<open>startDial\<close> as a thread that moves in small steps (one channel operation, one look at
  the atomic flag or one critical section at a time), interleaved with each other and with the
  actor. The actor takes one command or one timer tick per step and runs the handler of
  \<open>ConnPool\<close> to its end. A Go \<^verbatim>\<open>select\<close> with several ready cases picks any of them, so each case is a
  rule of its own. The log \<open>acts\<close> of the pool holds the replies sent, the connections closed
  and the channels closed, whoever did it.
\<close>

section \<open>Threads\<close>

datatype once_state = OnceNew | OnceRunning | OnceDone

datatype pc =
    GetCall
  | GetSend reply
  | GetWait reply
  | GetRet getResult
  | PutCall "conn option" goerr
  | ConnClosedCall "conn option" goerr
  | Enqueue poolCmd "pool_act option"
  | EnqueueTry poolCmd "pool_act option"
  | EnqueueGo poolCmd "pool_act option"
  | EnqueueDone
  | UpdateCall "string list" "string list" "string list"
  | UpdateSend "string list" "string list" "string list"
  | NumCall
  | NumSend reply
  | NumWait reply
  | NumRet int
  | CloseCall
  | CloseWaitEnqueues
  | CloseSend reply
  | CloseWaitDone reply
  | CloseWaitDials
  | DialCheck string "reply option"
  | Dialing string "reply option"
  | DialReturned string "conn option" goerr "reply option"
  | DialSend string "conn option" goerr "reply option"
  | DialExit
  | Ret

record pool_sys =
  pool :: connPool
  exited :: bool
  enqueueWG :: int
  dialWG :: int
  closeOnce :: once_state
  nextCh :: reply
  thr :: "pc list"

definition can_send :: "pool_sys \<Rightarrow> bool" where
  "can_send s \<longleftrightarrow> length (cmdCh (pool s)) < defaultCmdChanSize"

definition send :: "poolCmd \<Rightarrow> pool_sys \<Rightarrow> pool_sys" where
  "send cmd s = s\<lparr>pool := (pool s)\<lparr>cmdCh := cmdCh (pool s) @ [cmd]\<rparr>\<rparr>"

definition onDrop :: "pool_act option \<Rightarrow> pool_sys \<Rightarrow> pool_sys" where
  "onDrop d s = (case d of None \<Rightarrow> s | Some a \<Rightarrow> s\<lparr>pool := act a (pool s)\<rparr>)"

text \<open>A dial goroutine that finds the pool closed: the connection, if any, is closed and the
  caller, if any, is told.\<close>

definition dial_abort :: "conn option \<Rightarrow> reply option \<Rightarrow> pool_sys \<Rightarrow> pool_sys" where
  "dial_abort c r s =
     s\<lparr>pool := reply_to r (Inl ErrPoolClosed) (case c of None \<Rightarrow> pool s | Some x \<Rightarrow> CloseConn x 0 (pool s))\<rparr>"

inductive tstep :: "pool_sys \<Rightarrow> pc \<Rightarrow> pool_sys \<Rightarrow> pc \<Rightarrow> bool" where
  get_closed: "closed (pool s) \<Longrightarrow> tstep s GetCall s (GetRet (Inl ErrPoolClosed))"
| get_open: "\<not> closed (pool s) \<Longrightarrow> tstep s GetCall (s\<lparr>nextCh := Suc (nextCh s)\<rparr>) (GetSend (nextCh s))"
| get_send: "can_send s \<Longrightarrow> tstep s (GetSend r) (send (CmdGet r) s) (GetWait r)"
| get_send_done: "closeDone (pool s) \<Longrightarrow> tstep s (GetSend r) s (GetRet (Inl ErrPoolClosed))"
| get_reply: "Reply r x \<in> set (acts (pool s)) \<Longrightarrow> tstep s (GetWait r) s (GetRet x)"
| get_wait_done: "closeDone (pool s) \<Longrightarrow> tstep s (GetWait r) s (GetRet (Inl ErrPoolClosed))"
| put_nil: "tstep s (PutCall None er) s Ret"
| put_closed: "closed (pool s) \<Longrightarrow>
    tstep s (PutCall (Some c) er) (s\<lparr>pool := CloseConn c 0 (pool s)\<rparr>) Ret"
| put_open: "\<not> closed (pool s) \<Longrightarrow>
    tstep s (PutCall (Some c) er) s (Enqueue (CmdPut c er) (Some (CloseLater c defaultConnCloseDelay)))"
| conn_closed_nil: "tstep s (ConnClosedCall None er) s Ret"
| conn_closed_closed: "closed (pool s) \<Longrightarrow> tstep s (ConnClosedCall (Some c) er) s Ret"
| conn_closed_open: "\<not> closed (pool s) \<Longrightarrow>
    tstep s (ConnClosedCall (Some c) er) s (Enqueue (CmdConnClosed c (GetRemoteAddr e c) er) None)"
| enqueue_closed: "closed (pool s) \<Longrightarrow> tstep s (Enqueue cmd d) (onDrop d s) Ret"
| enqueue_admit: "\<not> closed (pool s) \<Longrightarrow>
    tstep s (Enqueue cmd d) (s\<lparr>enqueueWG := enqueueWG s + 1\<rparr>) (EnqueueTry cmd d)"
| enqueue_try: "can_send s \<Longrightarrow> tstep s (EnqueueTry cmd d) (send cmd s) EnqueueDone"
| enqueue_full: "\<not> can_send s \<Longrightarrow> tstep s (EnqueueTry cmd d) s (EnqueueGo cmd d)"
| enqueue_go: "can_send s \<Longrightarrow> tstep s (EnqueueGo cmd d) (send cmd s) EnqueueDone"
| enqueue_drop: "closeDone (pool s) \<Longrightarrow> tstep s (EnqueueGo cmd d) (onDrop d s) EnqueueDone"
| enqueue_done: "tstep s EnqueueDone (s\<lparr>enqueueWG := enqueueWG s - 1\<rparr>) Ret"
| update_skip: "alls = [] \<or> closed (pool s) \<Longrightarrow> tstep s (UpdateCall alls adds dels) s Ret"
| update_open: "alls \<noteq> [] \<Longrightarrow> \<not> closed (pool s) \<Longrightarrow>
    tstep s (UpdateCall alls adds dels) s (UpdateSend alls adds dels)"
| update_send: "can_send s \<Longrightarrow>
    tstep s (UpdateSend alls adds dels) (send (CmdUpdateEndpoints alls adds dels) s) Ret"
| update_done: "closeDone (pool s) \<Longrightarrow> tstep s (UpdateSend alls adds dels) s Ret"
| num_closed: "closed (pool s) \<Longrightarrow> tstep s NumCall s (NumRet 0)"
| num_open: "\<not> closed (pool s) \<Longrightarrow> tstep s NumCall (s\<lparr>nextCh := Suc (nextCh s)\<rparr>) (NumSend (nextCh s))"
| num_send: "can_send s \<Longrightarrow> tstep s (NumSend r) (send (CmdNumPooled r) s) (NumWait r)"
| num_send_done: "closeDone (pool s) \<Longrightarrow> tstep s (NumSend r) s (NumRet 0)"
| num_reply: "ReplyInt r n \<in> set (acts (pool s)) \<Longrightarrow> tstep s (NumWait r) s (NumRet n)"
| num_wait_done: "closeDone (pool s) \<Longrightarrow> tstep s (NumWait r) s (NumRet 0)"
| close_first: "closeOnce s = OnceNew \<Longrightarrow>
    tstep s CloseCall (s\<lparr>closeOnce := OnceRunning, pool := (pool s)\<lparr>closed := True\<rparr>\<rparr>) CloseWaitEnqueues"
| close_again: "closeOnce s = OnceDone \<Longrightarrow> tstep s CloseCall s Ret"
| close_waited: "enqueueWG s = 0 \<Longrightarrow>
    tstep s CloseWaitEnqueues (s\<lparr>nextCh := Suc (nextCh s)\<rparr>) (CloseSend (nextCh s))"
| close_send: "can_send s \<Longrightarrow> tstep s (CloseSend d) (send (CmdClose d) s) (CloseWaitDone d)"
| close_send_done: "closeDone (pool s) \<Longrightarrow> tstep s (CloseSend d) s CloseWaitDials"
| close_done: "CloseDoneCh d \<in> set (acts (pool s)) \<Longrightarrow> tstep s (CloseWaitDone d) s CloseWaitDials"
| close_dials: "dialWG s = 0 \<Longrightarrow> tstep s CloseWaitDials (s\<lparr>closeOnce := OnceDone\<rparr>) Ret"
| close_timeout: "tstep s CloseWaitDials (s\<lparr>closeOnce := OnceDone\<rparr>) Ret"
| dial_closed: "closed (pool s) \<Longrightarrow> tstep s (DialCheck addr r) (dial_abort None r s) DialExit"
| dial_open: "\<not> closed (pool s) \<Longrightarrow> tstep s (DialCheck addr r) s (Dialing addr r)"
| dial_returns: "tstep s (Dialing addr r) s (DialReturned addr c er r)"
| dial_returned_closed: "closed (pool s) \<Longrightarrow>
    tstep s (DialReturned addr c er r) (dial_abort c r s) DialExit"
| dial_returned_open: "\<not> closed (pool s) \<Longrightarrow>
    tstep s (DialReturned addr c er r) s (DialSend addr c er r)"
| dial_send: "can_send s \<Longrightarrow>
    tstep s (DialSend addr c er r) (send (CmdDialResult addr c er r) s) DialExit"
| dial_send_done: "closeDone (pool s) \<Longrightarrow>
    tstep s (DialSend addr c er r) (dial_abort c r s) DialExit"
| dial_exit: "tstep s DialExit (s\<lparr>dialWG := dialWG s - 1\<rparr>) Ret"

inductive_cases tstepE: "tstep s pc s' pc'"

text \<open>What a caller may start at any time, and the goroutines the actor's handler started: those
  of the actions logged since \<open>p\<close>.\<close>

fun entry :: "pc \<Rightarrow> bool" where
  "entry GetCall = True"
| "entry (PutCall c er) = True"
| "entry (ConnClosedCall c er) = True"
| "entry (UpdateCall alls adds dels) = True"
| "entry NumCall = True"
| "entry CloseCall = True"
| "entry _ = False"

definition dial_threads :: "pool_act list \<Rightarrow> pc list" where
  "dial_threads as = List.map_filter (\<lambda>a. case a of GoDial addr r \<Rightarrow> Some (DialCheck addr r) | _ \<Rightarrow> None) as"

definition actor_did :: "pool_sys \<Rightarrow> connPool \<Rightarrow> bool \<Rightarrow> pool_sys" where
  "actor_did s p' stop =
     (let new = dial_threads (drop (length (acts (pool s))) (acts p'))
      in s\<lparr>pool := p', exited := stop, dialWG := dialWG s + int (length new), thr := thr s @ new\<rparr>)"

fun tick_enabled :: "connPool \<Rightarrow> pool_tick \<Rightarrow> bool" where
  "tick_enabled p HeartbeatTick = heartbeatFunc p"
| "tick_enabled p CleanExpiredTick = (0 < maxConnLifetime p)"
| "tick_enabled p _ = True"

inductive pool_step :: "pool_sys \<Rightarrow> pool_sys \<Rightarrow> bool" where
  thread: "i < length (thr s) \<Longrightarrow> tstep s (thr s ! i) s' pc' \<Longrightarrow> pool_step s (s'\<lparr>thr := (thr s)[i := pc']\<rparr>)"
| caller: "entry pc \<Longrightarrow> pool_step s (s\<lparr>thr := thr s @ [pc]\<rparr>)"
| actor_cmd: "\<not> exited s \<Longrightarrow> cmdCh (pool s) = cmd # cmds \<Longrightarrow>
    handleCmd e cmd ((pool s)\<lparr>cmdCh := cmds\<rparr>) = (p', stop) \<Longrightarrow> pool_step s (actor_did s p' stop)"
| actor_tick: "\<not> exited s \<Longrightarrow> tick_enabled (pool s) t \<Longrightarrow>
    pool_step s (actor_did s (handleTick e t (pool s)) False)"

inductive_cases pool_stepE: "pool_step s s'"

text \<open>A freshly built pool: open, with nothing queued; the dials its construction started are
  threads.\<close>

definition started :: "connPool \<Rightarrow> pool_sys" where
  "started p = \<lparr>pool = p, exited = False, enqueueWG = 0, dialWG = int (length (dial_threads (acts p))),
     closeOnce = OnceNew, nextCh = 0, thr = dial_threads (acts p)\<rparr>"

definition pool_init :: "pool_sys \<Rightarrow> bool" where
  "pool_init s \<longleftrightarrow> (\<exists>p. s = started p \<and> \<not> closed p \<and> \<not> closeDone p \<and> cmdCh p = [] \<and>
     (\<forall>r. owed_in r (acts p) = 0))"

section \<open>What a handler leaves alone\<close>

text \<open>No handler but the one of the close command touches the queue or the two closing flags, and the
  log only grows.\<close>

definition frame :: "connPool \<Rightarrow> connPool \<Rightarrow> bool" where
  "frame p q \<longleftrightarrow> cmdCh q = cmdCh p \<and> closed q = closed p \<and> closeDone q = closeDone p \<and> prefix (acts p) (acts q)"

lemma frame_refl [simp]: "frame p p"
  by (simp add: frame_def)

lemma frame_trans: "frame p q \<Longrightarrow> frame q r \<Longrightarrow> frame p r"
  by (auto simp: frame_def)

named_theorems framed \<open>steps that keep the frame\<close>

lemma frame_act [framed]: "frame p q \<Longrightarrow> frame p (act a q)"
  by (auto simp: frame_def)

lemma frame_acts: "frame p q \<Longrightarrow> prefix (acts p) l \<Longrightarrow> frame p (q\<lparr>acts := l\<rparr>)"
  by (auto simp: frame_def)

lemma frame_prefix: "frame p q \<Longrightarrow> prefix (acts p) (acts q)"
  by (auto simp: frame_def)

lemma frame_fields [framed]:
  "frame p q \<Longrightarrow> frame p (q\<lparr>idleConns := x1\<rparr>)"
  "frame p q \<Longrightarrow> frame p (q\<lparr>countedConns := x2\<rparr>)"
  "frame p q \<Longrightarrow> frame p (q\<lparr>endpointConnCounts := x3\<rparr>)"
  "frame p q \<Longrightarrow> frame p (q\<lparr>pendingDials := x4\<rparr>)"
  "frame p q \<Longrightarrow> frame p (q\<lparr>unavailable := x5\<rparr>)"
  "frame p q \<Longrightarrow> frame p (q\<lparr>retryCounts := x6\<rparr>)"
  "frame p q \<Longrightarrow> frame p (q\<lparr>poolIndex := x7\<rparr>)"
  "frame p q \<Longrightarrow> frame p (q\<lparr>endpoints := x8\<rparr>)"
  "frame p q \<Longrightarrow> frame p (q\<lparr>endpointMap := x9\<rparr>)"
  by (auto simp: frame_def)

lemma frame_CloseConn [framed]: "frame p q \<Longrightarrow> frame p (CloseConn c d q)"
  by (simp add: CloseConn_def framed)

lemma frame_reply_to [framed]: "frame p q \<Longrightarrow> frame p (reply_to r x q)"
  by (simp add: reply_to_def framed split: option.split)

lemma frame_dec [framed]: "frame p q \<Longrightarrow> frame p (decEndpointConnCount c a q)"
  by (simp add: decEndpointConnCount_def Let_def framed split: option.split)

lemma frame_inc [framed]: "frame p q \<Longrightarrow> frame p (incEndpointConnCount c a q)"
  by (auto simp: incEndpointConnCount_def frame_def)

lemma frame_closeCounted [framed]: "frame p q \<Longrightarrow> frame p (closeCountedConn c a d q)"
  by (simp add: closeCountedConn_def framed)

lemma frame_markUnavailable [framed]: "frame p q \<Longrightarrow> frame p (markUnavailable e a q)"
  by (auto simp: markUnavailable_def Let_def frame_def)

lemma frame_storeIdle [framed]: "frame p q \<Longrightarrow> frame p (storeIdleConn c a q)"
  by (simp add: storeIdleConn_def framed)

lemma frame_removeIdle [framed]: "frame p q \<Longrightarrow> frame p (removeIdleConn c q)"
  by (simp add: removeIdleConn_def framed)

lemma frame_startDial [framed]: "frame p q \<Longrightarrow> frame p (startDial a r q)"
  by (simp add: startDial_def frame_acts frame_prefix framed)

lemma frame_getEndpoint: "frame p q \<Longrightarrow> getEndpoint q = (q', x) \<Longrightarrow> frame p q'"
  by (drule getEndpoint_fields) (metis frame_fields(7))

lemma frame_handleGet_loop: "frame p q \<Longrightarrow> frame p (fst (handleGet_loop e q))"
proof (induction e q rule: handleGet_loop.induct)
  case (1 e q)
  then show ?case by (subst handleGet_loop.simps) (simp add: Let_def framed split: list.splits)
qed

lemma frame_handleGet [framed]: "frame p q \<Longrightarrow> frame p (handleGet e r q)"
proof -
  assume f: "frame p q"
  obtain q' c where l: "handleGet_loop e q = (q', c)" by (cases "handleGet_loop e q")
  obtain q'' x where g: "getEndpoint q' = (q'', x)" by (cases "getEndpoint q'")
  have q': "frame p q'" using frame_handleGet_loop [OF f, of e] l by simp
  have "frame p q''" using frame_getEndpoint [OF q' g] .
  then show ?thesis
    using f l g q' by (simp add: handleGet_def framed split: option.split sum.split)
qed

lemma frame_putConn [framed]: "frame p q \<Longrightarrow> frame p (putConn e c er b q)"
  by (simp add: putConn_def Let_def framed split: option.split)

lemma frame_LetI: "frame p x \<Longrightarrow> (\<And>y. frame p y \<Longrightarrow> frame p (f y)) \<Longrightarrow> frame p (Let x f)"
  by (simp add: Let_def)

lemma frame_clear: "frame p q \<Longrightarrow> frame p (q\<lparr>unavailable := x, retryCounts := y\<rparr>)"
  by (simp add: frame_def)

lemma frame_retryGet [framed]: "frame p q \<Longrightarrow> frame p (retryGetFromCurrentEndpoints e r q)"
  by (simp add: retryGetFromCurrentEndpoints_def framed)

lemma frame_handleDialResult [framed]: "frame p q \<Longrightarrow> frame p (handleDialResult e a c er r q)"
  unfolding handleDialResult_def
  by (rule frame_LetI, simp add: framed)
    (simp add: Let_def frame_clear frame_acts frame_prefix framed split: option.split)

lemma frame_sweepIdle [framed]:
  "(\<And>c q. frame p q \<Longrightarrow> frame p (close_it c q)) \<Longrightarrow> frame p q \<Longrightarrow>
   frame p (sweepIdle drop_it close_it cs left q)"
  by (induction cs arbitrary: left q) (simp_all add: framed)

lemma frame_removeEndpointConn_loop [framed]:
  "frame p q \<Longrightarrow> frame p (removeEndpointConn_loop e a n k cs left q)"
  by (induction cs arbitrary: k left q) (simp_all add: framed)

interpretation frame_dials: keeps_invariant "frame p" "\<lambda>a q. startDial a r q" for p r
  by unfold_locales (rule framed)

interpretation frame_reb1: keeps_invariant "frame p" "rebalance_counted e ex" for p e ex
  by unfold_locales
    (simp add: rebalance_counted_def removeEndpointConn_def startDials_def Let_def framed
      frame_dials.keeps_funpow)

interpretation frame_reb2: keeps_invariant "frame p" "rebalance_missing ex" for p ex
  by unfold_locales (simp add: rebalance_missing_def startDials_def frame_dials.keeps_funpow)

lemma frame_rebalance [framed]: "frame p q \<Longrightarrow> frame p (rebalance e q)"
  by (simp add: rebalance_def Let_def frame_reb1.keeps_fold frame_reb2.keeps_fold)

interpretation frame_gone: keeps_invariant "frame p" drop_gone for p
  by unfold_locales (simp add: drop_gone_def framed)

lemma frame_update [framed]: "frame p q \<Longrightarrow> frame p (handleUpdateEndpoints e alls adds dels q)"
  by (simp add: handleUpdateEndpoints_def Let_def drop_gone_def [symmetric, abs_def]
      removeDeletedEndpointConns_def framed frame_gone.keeps_fold)

interpretation frame_recover: keeps_invariant "\<lambda>pr. frame p (fst pr)" "recover_one e" for p e
  by unfold_locales (auto simp: recover_one_spec framed)

interpretation frame_heartbeat: keeps_invariant "frame p" "\<lambda>c q. act (SendHeartbeatTo c) q" for p
  by unfold_locales (rule framed)

lemma frame_handleCmd:
  "(\<And>d. cmd \<noteq> CmdClose d) \<Longrightarrow> frame p (fst (handleCmd e cmd p)) \<and> \<not> snd (handleCmd e cmd p)"
  by (cases cmd) (auto simp: handleCmd_def handleConnClosed_def framed)

lemma frame_recover: "recover e p = (q, b) \<Longrightarrow> frame p q"
  using frame_recover.keeps_fold [of p "(p, False)" e] by (metis frame_refl fst_conv recover_def)

lemma frame_handleTick: "frame p (handleTick e t p)"
proof (cases t)
  case RecoverTick
  then show ?thesis by (auto simp: handleTick_def framed dest: frame_recover split: prod.split)
next
  case CleanExpiredTick
  have "frame p (sweepIdle (\<lambda>c q. expired e q c)
       (\<lambda>c q. startDial (GetRemoteAddr e c) None
                (closeCountedConn c (GetRemoteAddr e c) defaultConnCloseDelay q)) (idleConns p) [] p)"
    by (rule frame_sweepIdle) (simp_all add: framed)
  then show ?thesis by (simp add: CleanExpiredTick handleTick_def cleanExpiredConns_def)
qed (simp_all add: handleTick_def sendHeartbeat_def framed frame_heartbeat.keeps_fold)

section \<open>The admission gate of the queue\<close>

text \<open>Threads that hold \<^verbatim>\<open>enqueueWG\<close>, threads inside \<^verbatim>\<open>Close\<close>, and those of them past its wait.\<close>

fun admitted :: "pc \<Rightarrow> bool" where
  "admitted (EnqueueTry cmd d) = True"
| "admitted (EnqueueGo cmd d) = True"
| "admitted EnqueueDone = True"
| "admitted _ = False"

fun closing :: "pc \<Rightarrow> bool" where
  "closing CloseWaitEnqueues = True"
| "closing (CloseSend d) = True"
| "closing (CloseWaitDone d) = True"
| "closing CloseWaitDials = True"
| "closing _ = False"

fun past_gate :: "pc \<Rightarrow> bool" where
  "past_gate (CloseSend d) = True"
| "past_gate (CloseWaitDone d) = True"
| "past_gate CloseWaitDials = True"
| "past_gate _ = False"

text \<open>The commands that go through \<^verbatim>\<open>enqueue\<close>, and the threads that carry one.\<close>

fun queued_via_gate :: "poolCmd \<Rightarrow> bool" where
  "queued_via_gate (CmdPut c er) = True"
| "queued_via_gate (CmdConnClosed c a er) = True"
| "queued_via_gate _ = False"

fun carries_ok :: "pc \<Rightarrow> bool" where
  "carries_ok (Enqueue cmd d) = queued_via_gate cmd"
| "carries_ok (EnqueueTry cmd d) = queued_via_gate cmd"
| "carries_ok (EnqueueGo cmd d) = queued_via_gate cmd"
| "carries_ok _ = True"

definition late :: "pool_sys \<Rightarrow> bool" where
  "late s \<longleftrightarrow> closeOnce s = OnceDone \<or> 0 < cnt past_gate (thr s) \<or> exited s \<or> closeDone (pool s) \<or>
     (\<exists>d. CmdClose d \<in> set (cmdCh (pool s)))"

definition gate_inv :: "pool_sys \<Rightarrow> bool" where
  "gate_inv s \<longleftrightarrow>
     enqueueWG s = cnt admitted (thr s) \<and>
     (closed (pool s) \<longleftrightarrow> closeOnce s \<noteq> OnceNew) \<and>
     cnt closing (thr s) = of_bool (closeOnce s = OnceRunning) \<and>
     (late s \<longrightarrow> closed (pool s) \<and> cnt admitted (thr s) = 0) \<and>
     (exited s \<longleftrightarrow> closeDone (pool s)) \<and>
     (exited s \<longrightarrow> (\<forall>cmd \<in> set (cmdCh (pool s)). \<not> queued_via_gate cmd)) \<and>
     (\<forall>pc \<in> set (thr s). carries_ok pc)"

lemma pool_helpers [simp]:
  "closed (pool (onDrop d s)) = closed (pool s)" "closeDone (pool (onDrop d s)) = closeDone (pool s)"
  "cmdCh (pool (onDrop d s)) = cmdCh (pool s)" "exited (onDrop d s) = exited s"
  "closeOnce (onDrop d s) = closeOnce s" "enqueueWG (onDrop d s) = enqueueWG s" "thr (onDrop d s) = thr s"
  "nextCh (onDrop d s) = nextCh s"
  "closed (pool (send cmd s)) = closed (pool s)" "closeDone (pool (send cmd s)) = closeDone (pool s)"
  "cmdCh (pool (send cmd s)) = cmdCh (pool s) @ [cmd]" "exited (send cmd s) = exited s"
  "closeOnce (send cmd s) = closeOnce s" "enqueueWG (send cmd s) = enqueueWG s" "thr (send cmd s) = thr s"
  "nextCh (send cmd s) = nextCh s" "acts (pool (send cmd s)) = acts (pool s)"
  by (simp_all add: onDrop_def send_def split: option.split)

lemma abort_helpers [simp]:
  "closed (pool (dial_abort c r s)) = closed (pool s)"
  "closeDone (pool (dial_abort c r s)) = closeDone (pool s)"
  "cmdCh (pool (dial_abort c r s)) = cmdCh (pool s)" "exited (dial_abort c r s) = exited s"
  "closeOnce (dial_abort c r s) = closeOnce s" "enqueueWG (dial_abort c r s) = enqueueWG s"
  "thr (dial_abort c r s) = thr s" "nextCh (dial_abort c r s) = nextCh s"
  by (simp_all add: dial_abort_def reply_to_def CloseConn_def split: option.split)

text \<open>What one step of a thread does to each part of the gate.\<close>

lemma tstep_wg:
  "tstep s pc s' pc' \<Longrightarrow> enqueueWG s' - of_bool (admitted pc') = enqueueWG s - of_bool (admitted pc)"
  by (induction rule: tstep.induct) simp_all

lemma tstep_frame:
  "tstep s pc s' pc' \<Longrightarrow> thr s' = thr s \<and> exited s' = exited s \<and> closeDone (pool s') = closeDone (pool s)"
  by (induction rule: tstep.induct) (simp_all add: CloseConn_def)

lemma tstep_once:
  "tstep s pc s' pc' \<Longrightarrow>
     closeOnce s' = closeOnce s \<and> closed (pool s') = closed (pool s) \<and> closing pc' = closing pc
   \<or> closeOnce s = OnceNew \<and> closeOnce s' = OnceRunning \<and> closed (pool s') \<and> \<not> closing pc \<and> closing pc'
       \<and> \<not> past_gate pc' \<and> \<not> admitted pc \<and> \<not> admitted pc' \<and> cmdCh (pool s') = cmdCh (pool s)
   \<or> closed (pool s') = closed (pool s) \<and> closeOnce s' = OnceDone \<and> past_gate pc \<and> closing pc \<and> \<not> closing pc'"
  by (induction rule: tstep.induct) (simp_all add: CloseConn_def)

lemma tstep_admits: "tstep s pc s' pc' \<Longrightarrow> admitted pc' \<Longrightarrow> admitted pc \<or> \<not> closed (pool s) \<and> \<not> closed (pool s')"
  by (induction rule: tstep.induct) simp_all

lemma tstep_passes:
  "tstep s pc s' pc' \<Longrightarrow> past_gate pc' \<Longrightarrow>
     past_gate pc \<or> enqueueWG s = 0 \<and> closing pc \<and> \<not> admitted pc"
  by (induction rule: tstep.induct) simp_all

lemma tstep_queue:
  "tstep s pc s' pc' \<Longrightarrow> cmdCh (pool s') = cmdCh (pool s) \<or>
     (\<exists>cmd. cmdCh (pool s') = cmdCh (pool s) @ [cmd] \<and>
       (carries_ok pc \<longrightarrow> queued_via_gate cmd \<longrightarrow> admitted pc) \<and>
       (\<forall>d. carries_ok pc \<longrightarrow> cmd = CmdClose d \<longrightarrow> past_gate pc))"
  by (induction rule: tstep.induct) (auto simp: CloseConn_def)

lemma tstep_carries: "tstep s pc s' pc' \<Longrightarrow> carries_ok pc \<Longrightarrow> carries_ok pc'"
  by (induction rule: tstep.induct) simp_all

lemma gate_late_thread:
  assumes g: "gate_inv s" and i: "i < length (thr s)" and t: "tstep s (thr s ! i) s' pc'"
    and l: "late (s'\<lparr>thr := (thr s)[i := pc']\<rparr>)"
  shows "closed (pool s') \<and> cnt admitted ((thr s)[i := pc']) = 0"
proof -
  let ?pc = "thr s ! i"
  have mem: "?pc \<in> set (thr s)" using i by simp
  have ok: "carries_ok ?pc" using g mem by (simp add: gate_inv_def)
  note f = tstep_frame [OF t] and o = tstep_once [OF t]
  have run: "closing ?pc \<Longrightarrow> closed (pool s)"
    using g cnt_pos [OF mem, of closing] by (auto simp: gate_inv_def split: if_splits)
  have pg: "past_gate ?pc \<Longrightarrow> late s" using cnt_pos [OF mem, of past_gate] by (simp add: late_def)
  have "late s \<or> enqueueWG s = 0 \<and> closing ?pc \<and> \<not> admitted ?pc"
  proof -
    consider "closeOnce s' = OnceDone" | "0 < cnt past_gate ((thr s)[i := pc'])" | "exited s \<or> closeDone (pool s)"
      | d where "CmdClose d \<in> set (cmdCh (pool s'))"
      using l f by (auto simp: late_def)
    then show ?thesis
    proof cases
      case 1
      then show ?thesis using o pg by (auto simp: late_def)
    next
      case 2
      then have "0 < cnt past_gate (thr s) \<or> past_gate pc'" using cnt_update [OF i, of past_gate pc']
        by (cases "past_gate ?pc") auto
      then show ?thesis using tstep_passes [OF t] pg by (auto simp: late_def)
    next
      case 3
      then show ?thesis by (auto simp: late_def)
    next
      case 4
      then show ?thesis using tstep_queue [OF t] ok pg by (auto simp: late_def)
    qed
  qed
  then have "closed (pool s) \<and> cnt admitted (thr s) = 0" using g run by (auto simp: gate_inv_def)
  moreover from this have "\<not> admitted ?pc" using cnt_pos [OF mem, of admitted] by auto
  ultimately show ?thesis
    using tstep_admits [OF t] cnt_update [OF i, of admitted pc'] o by auto
qed

lemma gate_thread:
  assumes g: "gate_inv s" and i: "i < length (thr s)" and t: "tstep s (thr s ! i) s' pc'"
  shows "gate_inv (s'\<lparr>thr := (thr s)[i := pc']\<rparr>)"
proof -
  let ?pc = "thr s ! i" and ?s = "s'\<lparr>thr := (thr s)[i := pc']\<rparr>"
  have mem: "?pc \<in> set (thr s)" using i by simp
  have ok: "carries_ok ?pc" using g mem by (simp add: gate_inv_def)
  note f = tstep_frame [OF t] and o = tstep_once [OF t] and q = tstep_queue [OF t]
  note late = gate_late_thread [OF g i t]
  have wg: "enqueueWG ?s = cnt admitted (thr ?s)"
    using g tstep_wg [OF t] cnt_update [OF i, of admitted pc'] by (simp add: gate_inv_def)
  have run: "closing ?pc \<Longrightarrow> closeOnce s = OnceRunning"
    using g cnt_pos [OF mem, of closing] by (auto simp: gate_inv_def split: if_splits)
  have past: "past_gate x \<Longrightarrow> closing x" for x by (cases x) simp_all
  have once: "closed (pool ?s) = (closeOnce ?s \<noteq> OnceNew)"
    "cnt closing (thr ?s) = of_bool (closeOnce ?s = OnceRunning)"
    using g o run cnt_update [OF i, of closing pc'] past [of ?pc] by (auto simp: gate_inv_def)
  have adm: "exited s \<Longrightarrow> \<not> admitted ?pc"
    using g cnt_pos [OF mem, of admitted] by (auto simp: gate_inv_def late_def)
  have queue: "\<forall>cmd \<in> set (cmdCh (pool ?s)). \<not> queued_via_gate cmd" if "exited ?s"
    using that g f q ok adm by (auto simp: gate_inv_def)
  have carry: "\<forall>pc \<in> set (thr ?s). carries_ok pc"
    using g tstep_carries [OF t ok] by (auto simp: gate_inv_def dest: set_update_subset_insert [THEN subsetD])
  have ex: "exited ?s = closeDone (pool ?s)" using g f by (simp add: gate_inv_def)
  show ?thesis unfolding gate_inv_def using wg once late queue carry ex by auto
qed

text \<open>The actor's part: the goroutines it starts hold nothing, and only the close command stops it.\<close>

lemma dial_threads_plain:
  "pc \<in> set (dial_threads as) \<Longrightarrow> \<not> admitted pc \<and> \<not> closing pc \<and> \<not> past_gate pc \<and> carries_ok pc"
  by (auto simp: dial_threads_def List.map_filter_def split: pool_act.splits option.splits)

lemma dial_threads_cnt [simp]:
  "cnt admitted (dial_threads as) = 0" "cnt closing (dial_threads as) = 0"
  "cnt past_gate (dial_threads as) = 0"
  using dial_threads_plain by (blast intro: cnt_zero)+

lemma actor_did_fields [simp]:
  "pool (actor_did s p stop) = p" "exited (actor_did s p stop) = stop"
  "enqueueWG (actor_did s p stop) = enqueueWG s" "closeOnce (actor_did s p stop) = closeOnce s"
  "nextCh (actor_did s p stop) = nextCh s"
  "thr (actor_did s p stop) = thr s @ dial_threads (drop (length (acts (pool s))) (acts p))"
  by (simp_all add: actor_did_def Let_def)

lemma gate_actor_frame:
  assumes "gate_inv s" and "\<not> exited s" and "closed p' = closed (pool s)" and "closeDone p' = closeDone (pool s)"
    and "set (cmdCh p') \<subseteq> set (cmdCh (pool s))"
  shows "gate_inv (actor_did s p' False)"
  using assms dial_threads_plain by (auto simp: gate_inv_def late_def)

lemma close_fields:
  "closed (fst (handleCmd e (CmdClose d) p)) = closed p" "closeDone (fst (handleCmd e (CmdClose d) p))"
  "cmdCh (fst (handleCmd e (CmdClose d) p)) = []" "snd (handleCmd e (CmdClose d) p)"
proof -
  have "closed (fold (\<lambda>c q. closeCountedConn c (GetRemoteAddr e c) 0 q) cs q) = closed q" for cs q
    by (induction cs arbitrary: q) simp_all
  then have c: "closed (closeIdleConns e q) = closed q" for q by (simp add: closeIdleConns_def)
  have "closed (drain_cmd cmd q) = closed q" for cmd q
    by (simp add: drain_cmd_def split: poolCmd.split option.split)
  then have "closed (fold drain_cmd cs q) = closed q" for cs q
    by (induction cs arbitrary: q) simp_all
  with c show "closed (fst (handleCmd e (CmdClose d) p)) = closed p"
    by (simp add: handleCmd_def drainCmdChOnClose_def)
qed (simp_all add: handleCmd_def drainCmdChOnClose_def drain_fields closeIdleConns_def close_idle_fields)

lemma gate_cmd:
  assumes g: "gate_inv s" and ne: "\<not> exited s" and q: "cmdCh (pool s) = cmd # cmds"
    and h: "handleCmd e cmd ((pool s)\<lparr>cmdCh := cmds\<rparr>) = (p', stop)"
  shows "gate_inv (actor_did s p' stop)"
proof (cases "\<exists>d. cmd = CmdClose d")
  case True
  then obtain d where d: "cmd = CmdClose d" by blast
  have "late s" using d q by (auto simp: late_def)
  then show ?thesis
    using g h d close_fields [of e d "(pool s)\<lparr>cmdCh := cmds\<rparr>"] dial_threads_plain
    by (auto simp: gate_inv_def)
next
  case False
  then have "frame ((pool s)\<lparr>cmdCh := cmds\<rparr>) p' \<and> \<not> stop"
    using frame_handleCmd [of cmd "(pool s)\<lparr>cmdCh := cmds\<rparr>" e] h by auto
  then show ?thesis using gate_actor_frame [OF g ne, of p'] q by (auto simp: frame_def)
qed

lemma gate_init: "pool_init s \<Longrightarrow> gate_inv s"
  using dial_threads_plain by (auto simp: pool_init_def started_def gate_inv_def late_def)

interpretation gate: inductive_invariant pool_init pool_step gate_inv
proof unfold_locales
  show "pool_init s \<Longrightarrow> gate_inv s" for s by (rule gate_init)
  show "gate_inv t" if g: "gate_inv s" and "pool_step s t" for s t
    using that(2)
  proof cases
    case (thread i s' pc')
    then show ?thesis using gate_thread [OF g] by simp
  next
    case (caller pc)
    have "\<not> admitted pc \<and> \<not> closing pc \<and> \<not> past_gate pc \<and> carries_ok pc" using \<open>entry pc\<close> by (cases pc) simp_all
    then show ?thesis using g caller by (auto simp: gate_inv_def late_def)
  next
    case (actor_cmd cmd cmds e p' stop)
    then show ?thesis using gate_cmd [OF g] by simp
  next
    case (actor_tick tk e)
    have "frame (pool s) (handleTick e tk (pool s))" by (rule frame_handleTick)
    then show ?thesis using gate_actor_frame [OF g] actor_tick by (simp add: frame_def)
  qed
qed

text \<open>
  C5. The admission gate of \<^verbatim>\<open>enqueue\<close> works in every interleaving of any number of callers: once
  the actor has stopped, no returned connection and no close notice is left in the command queue
  and none can still arrive, because \<^verbatim>\<open>Close\<close> first stops admission and waits for every
  admitted sender. So no connection given back with \<^verbatim>\<open>Put\<close> is lost in a queue nobody reads.
\<close>

theorem no_put_left_behind:
  assumes "reach pool_init pool_step s" and "exited s"
  shows "(\<forall>cmd \<in> set (cmdCh (pool s)). \<not> queued_via_gate cmd) \<and>
    (\<forall>pc \<in> set (thr s). \<not> admitted pc) \<and> closed (pool s)"
proof -
  have g: "gate_inv s" using assms(1) by (rule gate.reach_inv)
  then have "cnt admitted (thr s) = 0" using assms(2) by (simp add: gate_inv_def late_def)
  then have "\<not> admitted pc" if "pc \<in> set (thr s)" for pc
    using cnt_pos [OF that, of admitted] by auto
  then show ?thesis using g assms(2) by (auto simp: gate_inv_def late_def)
qed

section \<open>One reply per request\<close>

fun reply_token :: "pc \<Rightarrow> reply option" where
  "reply_token (GetSend r) = Some r"
| "reply_token (DialCheck a r) = r"
| "reply_token (Dialing a r) = r"
| "reply_token (DialReturned a c er r) = r"
| "reply_token (DialSend a c er r) = r"
| "reply_token _ = None"

fun sent_reply :: "reply \<Rightarrow> pool_act \<Rightarrow> bool" where
  "sent_reply r (Reply r' x) = (r' = r)"
| "sent_reply r _ = False"

definition sent :: "reply \<Rightarrow> pool_act list \<Rightarrow> int" where
  "sent r as = cnt (sent_reply r) as"

definition queued :: "reply \<Rightarrow> poolCmd list \<Rightarrow> int" where
  "queued r cmds = cnt (\<lambda>cmd. cmd_reply cmd = Some r) cmds"

definition held :: "reply \<Rightarrow> pc list \<Rightarrow> int" where
  "held r pcs = cnt (\<lambda>pc. reply_token pc = Some r) pcs"

definition tokens :: "reply \<Rightarrow> pool_sys \<Rightarrow> int" where
  "tokens r s = sent r (acts (pool s)) + queued r (cmdCh (pool s)) + held r (thr s)"

lemmas token_defs = tokens_def sent_def queued_def held_def

lemma owed_split: "int (owed_in r as) = sent r as + held r (dial_threads as)"
proof (induction as)
  case Nil
  then show ?case by (simp add: token_defs dial_threads_def List.map_filter_def)
next
  case (Cons a as)
  then show ?case
    by (cases a) (auto simp: token_defs dial_threads_def List.map_filter_simps owed_def split: option.splits)
qed

lemma sent_act [simp]: "sent r (as @ bs) = sent r as + sent r bs" "sent r [] = 0"
  "sent r [a] = of_bool (sent_reply r a)"
  by (simp_all add: sent_def)

lemma sent_helpers [simp]:
  "sent r (acts (CloseConn c d p)) = sent r (acts p)"
  "sent r (acts (reply_to ro x p)) = sent r (acts p) + of_bool (ro = Some r)"
  by (simp_all add: CloseConn_def reply_to_def split: option.split)

fun drop_ok :: "pc \<Rightarrow> bool" where
  "drop_ok (Enqueue cmd d) = (cmd_reply cmd = None \<and> (\<forall>r x. d \<noteq> Some (Reply r x)))"
| "drop_ok (EnqueueTry cmd d) = (cmd_reply cmd = None \<and> (\<forall>r x. d \<noteq> Some (Reply r x)))"
| "drop_ok (EnqueueGo cmd d) = (cmd_reply cmd = None \<and> (\<forall>r x. d \<noteq> Some (Reply r x)))"
| "drop_ok _ = True"

definition getter :: "reply \<Rightarrow> pc \<Rightarrow> bool" where
  "getter r pc \<longleftrightarrow> pc = GetSend r \<or> pc = GetWait r"

text \<open>How one step of a thread moves the token of a request: only a new \<^verbatim>\<open>Get\<close> creates one, only a
  \<^verbatim>\<open>Get\<close> that gives up before it queued its request drops one.\<close>

abbreviation local_tokens :: "reply \<Rightarrow> pool_sys \<Rightarrow> pc \<Rightarrow> int" where
  "local_tokens r s pc \<equiv>
     sent r (acts (pool s)) + queued r (cmdCh (pool s)) + of_bool (reply_token pc = Some r)"

lemma queued_simps [simp]:
  "queued r (cs @ ds) = queued r cs + queued r ds" "queued r [cmd] = of_bool (cmd_reply cmd = Some r)"
  "queued r [] = 0" "queued r (cmd # cs) = of_bool (cmd_reply cmd = Some r) + queued r cs"
  by (simp_all add: queued_def)

lemma cmd_reply_simps [simp]:
  "cmd_reply (CmdGet r) = Some r" "cmd_reply (CmdDialResult a c er ro) = ro" "cmd_reply (CmdPut x er) = None"
  "cmd_reply (CmdUpdateEndpoints alls adds dels) = None" "cmd_reply (CmdConnClosed x a er) = None"
  "cmd_reply (CmdNumPooled r) = None" "cmd_reply (CmdClose r) = None"
  by (simp_all add: cmd_reply_def)

lemma sent_onDrop: "(\<forall>r x. d \<noteq> Some (Reply r x)) \<Longrightarrow> sent r (acts (pool (onDrop d s))) = sent r (acts (pool s))"
  by (cases d) (auto simp: onDrop_def split: option.splits elim: sent_reply.elims)

lemma sent_abort: "sent r (acts (pool (dial_abort c ro s))) = sent r (acts (pool s)) + of_bool (ro = Some r)"
  by (simp add: dial_abort_def split: option.split)

lemma tstep_tokens:
  "tstep s pc s' pc' \<Longrightarrow> drop_ok pc \<Longrightarrow>
     local_tokens r s' pc' = local_tokens r s pc +
       of_bool (pc = GetCall \<and> pc' = GetSend r) - of_bool (pc = GetSend r \<and> pc' \<noteq> GetWait r)"
  by (induction rule: tstep.induct) (simp_all add: sent_onDrop sent_abort)

lemma tstep_nextCh:
  "tstep s pc s' pc' \<Longrightarrow> nextCh s \<le> nextCh s' \<and> (pc = GetCall \<and> pc' = GetSend r \<longrightarrow> r = nextCh s \<and> nextCh s' = Suc r)"
  by (induction rule: tstep.induct) auto

lemma tstep_getter:
  "tstep s pc s' pc' \<Longrightarrow> getter r pc' \<Longrightarrow>
     pc = GetCall \<and> pc' = GetSend r \<or> pc = GetSend r \<and> pc' = GetWait r"
  by (induction rule: tstep.induct) (auto simp: getter_def)

lemma tstep_drop_ok: "tstep s pc s' pc' \<Longrightarrow> drop_ok pc \<Longrightarrow> drop_ok pc'"
  by (induction rule: tstep.induct) simp_all

definition token_inv :: "pool_sys \<Rightarrow> bool" where
  "token_inv s \<longleftrightarrow>
     (\<forall>r. tokens r s \<le> 1 \<and> cnt (getter r) (thr s) \<le> 1 \<and>
        (nextCh s \<le> r \<longrightarrow> tokens r s = 0 \<and> cnt (getter r) (thr s) = 0) \<and>
        (GetWait r \<in> set (thr s) \<longrightarrow> tokens r s = 1)) \<and>
     (\<forall>pc \<in> set (thr s). drop_ok pc)"

lemma held_le_tokens: "held r (thr s) \<le> tokens r s"
  by (simp add: token_defs add_nonneg_nonneg)

lemma getter_pair:
  assumes "i < length xs" and "GetWait r \<in> set (xs[i := y])" and "y \<noteq> GetWait r" and "xs ! i = GetSend r"
  shows "1 < cnt (getter r) xs"
proof -
  have "0 < cnt (getter r) (xs[i := y]) - of_bool (getter r y)"
  proof -
    have "GetWait r \<in> set (xs[i := Ret])"
      using assms(1, 2, 3) by (metis in_set_conv_nth length_list_update nth_list_update)
    then have "0 < cnt (getter r) (xs[i := Ret])" by (rule cnt_pos) (simp add: getter_def)
    then show ?thesis
      using cnt_update [OF assms(1), of "getter r" Ret] cnt_update [OF assms(1), of "getter r" y]
      by (simp add: getter_def)
  qed
  then show ?thesis using cnt_update [OF assms(1), of "getter r" y] assms(4) by (simp add: getter_def)
qed

lemma token_thread:
  assumes g: "token_inv s" and i: "i < length (thr s)" and t: "tstep s (thr s ! i) s' pc'"
  shows "token_inv (s'\<lparr>thr := (thr s)[i := pc']\<rparr>)"
proof -
  let ?pc = "thr s ! i" and ?s = "s'\<lparr>thr := (thr s)[i := pc']\<rparr>"
  have mem: "?pc \<in> set (thr s)" using i by simp
  have ok: "drop_ok ?pc" using g mem by (simp add: token_inv_def)
  have tok: "tokens r ?s = tokens r s +
      of_bool (?pc = GetCall \<and> pc' = GetSend r) - of_bool (?pc = GetSend r \<and> pc' \<noteq> GetWait r)" for r
    using tstep_tokens [OF t ok, of r] cnt_update [OF i, of "\<lambda>pc. reply_token pc = Some r" pc']
    by (simp add: tokens_def held_def)
  have get: "cnt (getter r) (thr ?s) = cnt (getter r) (thr s) - of_bool (getter r ?pc) + of_bool (getter r pc')" for r
    using cnt_update [OF i] by simp
  note n = tstep_nextCh [OF t] and gt = tstep_getter [OF t]
  have inv: "tokens r s \<le> 1" "cnt (getter r) (thr s) \<le> 1"
    "nextCh s \<le> r \<Longrightarrow> tokens r s = 0 \<and> cnt (getter r) (thr s) = 0"
    "GetWait r \<in> set (thr s) \<Longrightarrow> tokens r s = 1" for r
    using g by (auto simp: token_inv_def)
  have fresh: "\<not> getter r ?pc" if "nextCh s \<le> r" for r
    using inv(3) [OF that] cnt_pos [OF mem, of "getter r"] by auto
  have one: "tokens r ?s \<le> 1 \<and> cnt (getter r) (thr ?s) \<le> 1 \<and>
      (nextCh ?s \<le> r \<longrightarrow> tokens r ?s = 0 \<and> cnt (getter r) (thr ?s) = 0)" for r
    using inv [of r] tok [of r] get [of r] n [of r] gt [of r] fresh [of r]
    by (auto simp: getter_def split: if_splits)
  moreover have "tokens r ?s = 1" if w: "GetWait r \<in> set (thr ?s)" for r
  proof (cases "pc' = GetWait r")
    case True
    then have "?pc = GetSend r" using gt [of r] by (simp add: getter_def)
    then have "0 < held r (thr s)"
      unfolding held_def by (intro cnt_pos [OF mem]) simp
    then have "1 \<le> tokens r s" using held_le_tokens [of r s] by linarith
    then show ?thesis using tok [of r] inv(1) [of r] True \<open>?pc = GetSend r\<close> by simp
  next
    case False
    with w have old: "GetWait r \<in> set (thr s)" and two: "?pc \<noteq> GetSend r"
      using getter_pair [OF i, of r pc'] inv(2) [of r] by (auto dest: set_update_subset_insert [THEN subsetD])
    have "r < nextCh s" using inv(3) [of r] cnt_pos [OF old, of "getter r"] by (force simp: getter_def)
    then show ?thesis using tok [of r] inv(4) [OF old] n [of r] two by auto
  qed
  moreover have "\<forall>pc \<in> set (thr ?s). drop_ok pc"
    using g tstep_drop_ok [OF t ok] by (auto simp: token_inv_def dest: set_update_subset_insert [THEN subsetD])
  ultimately show ?thesis unfolding token_inv_def by auto
qed

lemma held_append [simp]: "held r (xs @ ys) = held r xs + held r ys"
  by (simp add: held_def)

text \<open>The actor only moves tokens: from the command it takes to a reply or to the dial it starts.\<close>

lemma token_actor:
  assumes g: "token_inv s" and pre: "prefix (acts (pool s)) (acts p')"
    and o: "\<And>r. int (answers r p') + queued r (cmdCh p') = int (answers r (pool s)) + queued r (cmdCh (pool s))"
  shows "token_inv (actor_did s p' stop)"
proof -
  obtain as where as: "acts p' = acts (pool s) @ as" using pre by (auto elim: prefixE)
  have "tokens r (actor_did s p' stop) = tokens r s" for r
    using o [of r] as by (simp add: tokens_def owed_split)
  moreover have "getter r pc = False" "drop_ok pc" if "pc \<in> set (dial_threads as)" for r pc
    using that by (auto simp: dial_threads_def List.map_filter_def getter_def split: pool_act.splits option.splits)
  moreover from this have "cnt (getter r) (dial_threads as) = 0" for r by (blast intro: cnt_zero)
  ultimately show ?thesis using g as by (auto simp: token_inv_def getter_def)
qed

lemma dial_threads_append: "dial_threads (as @ bs) = dial_threads as @ dial_threads bs"
  by (simp add: dial_threads_def List.map_filter_def)

lemma answers_handleTick: "answers r (handleTick e t p) = answers r p"
proof -
  have one: "answers r (fst (recover_one e ep q)) = answers r (fst q)" for ep q
    by (cases q) (simp add: recover_one_spec)
  have "answers r (fst (fold (recover_one e) ks q)) = answers r (fst q)" for ks q
    by (induction ks arbitrary: q) (simp_all add: one)
  from this [of "rangeOrd e (mkeys (unavailable p))" "(p, False)"]
  have rec: "answers r q = answers r p" if "recover e p = (q, b)" for q b
    using that by (simp add: recover_def)
  have beat: "answers r (fold (\<lambda>c q. act (SendHeartbeatTo c) q) xs q) = answers r q" for xs q
    by (induction xs arbitrary: q) simp_all
  have sweep: "answers r (cleanExpiredConns e p) = answers r p"
    unfolding cleanExpiredConns_def by (rule answers_sweepIdle) simp
  show ?thesis
    by (cases t) (auto simp: handleTick_def sendHeartbeat_def beat sweep rec split: prod.split)
qed

lemma close_prefix:
  "acts p = acts q \<Longrightarrow> prefix (acts q) (acts (fst (handleCmd e (CmdClose d) p)))"
proof -
  assume eq: "acts p = acts q"
  let ?q = "closeIdleConns e (p\<lparr>closeDone := True\<rparr>)"
  have "acts ?q = acts p @ map CloseNow (idleConns p)" by (simp add: closeIdleConns_def close_idle_acts)
  moreover obtain as where "acts (fold drain_cmd (cmdCh ?q) ?q) = acts ?q @ as" using drain_prefix by blast
  ultimately have "acts (fst (handleCmd e (CmdClose d) p)) =
      acts q @ map CloseNow (idleConns p) @ as @ [CloseDoneCh d]"
    using eq by (simp add: handleCmd_def drainCmdChOnClose_def)
  then show ?thesis by simp
qed

lemma token_cmd:
  assumes g: "token_inv s" and q: "cmdCh (pool s) = cmd # cmds"
    and h: "handleCmd e cmd ((pool s)\<lparr>cmdCh := cmds\<rparr>) = (p', stop)"
  shows "token_inv (actor_did s p' stop)"
proof (rule token_actor [OF g])
  let ?p = "(pool s)\<lparr>cmdCh := cmds\<rparr>"
  have p': "p' = fst (handleCmd e cmd ?p)" using h by simp
  note a = answers_handleCmd [where e = e and cmd = cmd and p = ?p, folded p']
  show "prefix (acts (pool s)) (acts p')"
    using frame_handleCmd [of cmd ?p e] close_prefix [of ?p "pool s" e] p' by (cases cmd) (auto simp: frame_def)
  show "int (answers r p') + queued r (cmdCh p') = int (answers r (pool s)) + queued r (cmdCh (pool s))" for r
  proof (cases "\<exists>d. cmd = CmdClose d")
    case True
    then show ?thesis
      using a [of r] q close_fields(3) [of e _ ?p] p' by (auto simp: queued_def cnt_def)
  next
    case False
    then have "cmdCh p' = cmds" using frame_handleCmd [of cmd ?p e] p' by (auto simp: frame_def)
    then show ?thesis using a [of r] q False by (cases cmd) auto
  qed
qed

lemma token_init: "pool_init s \<Longrightarrow> token_inv s"
proof -
  assume "pool_init s"
  then obtain p where p: "s = started p" "cmdCh p = []" "owed_in r (acts p) = 0" for r
    by (auto simp: pool_init_def)
  have "getter r pc = False" "drop_ok pc" if "pc \<in> set (dial_threads as)" for r pc as
    using that by (auto simp: dial_threads_def List.map_filter_def getter_def split: pool_act.splits option.splits)
  moreover from this have "cnt (getter r) (dial_threads as) = 0" for r as by (blast intro: cnt_zero)
  ultimately show ?thesis
    using p owed_split [of _ "acts p"] by (auto simp: token_inv_def tokens_def started_def getter_def)
qed

interpretation tokens: inductive_invariant pool_init pool_step token_inv
proof unfold_locales
  show "pool_init s \<Longrightarrow> token_inv s" for s by (rule token_init)
  show "token_inv t" if g: "token_inv s" and "pool_step s t" for s t
    using that(2)
  proof cases
    case (thread i s' pc')
    then show ?thesis using token_thread [OF g] by simp
  next
    case (caller pc)
    have "reply_token pc = None" "\<not> getter r pc" "drop_ok pc" for r
      using \<open>entry pc\<close> by (cases pc; simp add: getter_def)+
    then show ?thesis using g caller by (auto simp: token_inv_def tokens_def held_def getter_def)
  next
    case (actor_cmd cmd cmds e p' stop)
    then show ?thesis using token_cmd [OF g] by simp
  next
    case (actor_tick tk e)
    have "frame (pool s) (handleTick e tk (pool s))" by (rule frame_handleTick)
    then show ?thesis
      using token_actor [OF g] actor_tick answers_handleTick by (simp add: frame_def)
  qed
qed

text \<open>
  C6. In every interleaving a caller's reply channel receives at most one reply, so the one-place
  channel never blocks the actor; and a caller that waits in \<^verbatim>\<open>Get\<close> always has exactly one answer
  under way: its reply has been sent, or its request is in the queue, or a single dial goroutine
  carries it. No request is lost or answered twice.
\<close>

theorem get_reply_exactly_once:
  assumes "reach pool_init pool_step s"
  shows "sent r (acts (pool s)) \<le> 1 \<and> (GetWait r \<in> set (thr s) \<longrightarrow> tokens r s = 1)"
proof -
  have t: "token_inv s" using assms by (rule tokens.reach_inv)
  have "0 \<le> queued r (cmdCh (pool s))" "0 \<le> held r (thr s)" by (simp_all add: queued_def held_def)
  then have "sent r (acts (pool s)) \<le> tokens r s" unfolding tokens_def by linarith
  moreover have "tokens r s \<le> 1" using t by (simp add: token_inv_def)
  ultimately have "sent r (acts (pool s)) \<le> 1" by (rule order_trans)
  then show ?thesis using t by (simp add: token_inv_def)
qed

section \<open>A run to the end\<close>

text \<open>A concrete run on a pool with one endpoint and no connection: rebalancing starts a dial, the
  dial succeeds while the pool is still open, the pool is closed, and the dial goroutine then
  finds room in the queue and \<^verbatim>\<open>closeDone\<close> closed at the same time.\<close>

definition run_pool :: connPool where
  "run_pool = sample_pool\<lparr>endpoints := [''a''], endpointMap := [''a''], idleConns := [],
     endpointConnCounts := [], countedConns := []\<rparr>"

definition run_pool1 :: connPool where
  "run_pool1 = run_pool\<lparr>pendingDials := [(''a'', 1)], acts := [GoDial ''a'' None]\<rparr>"

definition run_closed :: connPool where
  "run_closed = run_pool1\<lparr>closed := True, closeDone := True, acts := [GoDial ''a'' None, CloseDoneCh 0]\<rparr>"

definition run_state :: "connPool \<Rightarrow> bool \<Rightarrow> int \<Rightarrow> once_state \<Rightarrow> reply \<Rightarrow> pc list \<Rightarrow> pool_sys" where
  "run_state p ex dw o' n ts = \<lparr>pool = p, exited = ex, enqueueWG = 0, dialWG = dw, closeOnce = o', nextCh = n, thr = ts\<rparr>"

lemma run_state_simps [simp]:
  "pool (run_state p ex dw o' n ts) = p" "exited (run_state p ex dw o' n ts) = ex"
  "enqueueWG (run_state p ex dw o' n ts) = 0" "dialWG (run_state p ex dw o' n ts) = dw"
  "closeOnce (run_state p ex dw o' n ts) = o'" "nextCh (run_state p ex dw o' n ts) = n"
  "thr (run_state p ex dw o' n ts) = ts"
  "(run_state p ex dw o' n ts)\<lparr>thr := us\<rparr> = run_state p ex dw o' n us"
  "(run_state p ex dw o' n ts)\<lparr>pool := p2\<rparr> = run_state p2 ex dw o' n ts"
  "(run_state p ex dw o' n ts)\<lparr>nextCh := m\<rparr> = run_state p ex dw o' m ts"
  "(run_state p ex dw o' n ts)\<lparr>dialWG := k\<rparr> = run_state p ex k o' n ts"
  "(run_state p ex dw o' n ts)\<lparr>closeOnce := o2\<rparr> = run_state p ex dw o2 n ts"
  "send cmd (run_state p ex dw o' n ts) = run_state (p\<lparr>cmdCh := cmdCh p @ [cmd]\<rparr>) ex dw o' n ts"
  by (simp_all add: run_state_def send_def)

lemma thread_reach:
  assumes "reach pool_init pool_step s" and "i < length (thr s)" and "tstep s (thr s ! i) s' pc'"
    and "t = s'\<lparr>thr := (thr s)[i := pc']\<rparr>"
  shows "reach pool_init pool_step t"
  using reach_step [OF assms(1) pool_step.thread [OF assms(2, 3)]] assms(4) by simp

lemma run_init: "reach pool_init pool_step (run_state run_pool False 0 OnceNew 0 [])"
  by (rule reach_init)
    (auto simp: pool_init_def started_def run_state_def run_pool_def sample_pool_def dial_threads_def
      List.map_filter_def owed_in_def intro!: exI [of _ run_pool])

lemma run_tick: "handleTick sample_env ReBalanceTick run_pool = run_pool1"
  by (simp add: handleTick_def rebalance_def getExpectedConnPerEndpoint_def getConnCount_def
      run_pool_def run_pool1_def sample_pool_def sample_env_def rebalance_missing_def startDials_def
      startDial_def mhas_def mget0_def Let_def)

lemma run_acts: "acts run_pool = []" "acts run_pool1 = [GoDial ''a'' None]"
  by (simp_all add: run_pool1_def run_pool_def sample_pool_def)

lemma run_dialling: "reach pool_init pool_step (run_state run_pool1 False 1 OnceNew 0 [DialCheck ''a'' None])"
proof (rule reach_step [OF run_init])
  have "pool_step (run_state run_pool False 0 OnceNew 0 [])
      (actor_did (run_state run_pool False 0 OnceNew 0 []) (handleTick sample_env ReBalanceTick run_pool) False)"
    using actor_tick [of "run_state run_pool False 0 OnceNew 0 []" ReBalanceTick sample_env] by simp
  then show "pool_step (run_state run_pool False 0 OnceNew 0 [])
      (run_state run_pool1 False 1 OnceNew 0 [DialCheck ''a'' None])"
    unfolding run_tick by (simp add: actor_did_def run_state_def run_acts dial_threads_def List.map_filter_def)
qed

lemma run_flags [simp]:
  "closed run_pool1 = False" "closeDone run_pool1 = False" "cmdCh run_pool1 = []"
  "idleConns run_pool1 = []" "acts run_pool1 = [GoDial ''a'' None]"
  "closed run_closed" "closeDone run_closed" "cmdCh run_closed = []"
  "acts run_closed = [GoDial ''a'' None, CloseDoneCh 0]"
  by (simp_all add: run_closed_def run_pool1_def run_pool_def sample_pool_def)

lemma run_dialled:
  "reach pool_init pool_step (run_state run_pool1 False 1 OnceNew 0 [DialSend ''a'' (Some 9) None None])"
proof -
  have "reach pool_init pool_step (run_state run_pool1 False 1 OnceNew 0 [Dialing ''a'' None])"
    by (rule thread_reach [OF run_dialling, of 0]) (simp, simp, rule dial_open, simp_all)
  then have "reach pool_init pool_step (run_state run_pool1 False 1 OnceNew 0 [DialReturned ''a'' (Some 9) None None])"
    by (rule thread_reach [of _ 0]) (simp, simp, rule dial_returns, simp)
  then show ?thesis
    by (rule thread_reach [of _ 0]) (simp, simp, rule dial_returned_open, simp_all)
qed

lemma run_exited:
  "reach pool_init pool_step
     (run_state run_closed True 1 OnceRunning 1 [DialSend ''a'' (Some 9) None None, CloseWaitDone 0])"
proof -
  let ?d = "DialSend ''a'' (Some 9) None None"
  let ?c = "run_pool1\<lparr>closed := True\<rparr>"
  let ?q = "?c\<lparr>cmdCh := [CmdClose 0]\<rparr>"
  have "reach pool_init pool_step (run_state run_pool1 False 1 OnceNew 0 [?d, CloseCall])"
    using reach_step [OF run_dialled caller [of CloseCall]] by simp
  then have "reach pool_init pool_step (run_state ?c False 1 OnceRunning 0 [?d, CloseWaitEnqueues])"
    by (rule thread_reach [of _ 1]) (simp, simp, rule close_first, simp_all)
  then have "reach pool_init pool_step (run_state ?c False 1 OnceRunning 1 [?d, CloseSend 0])"
    by (rule thread_reach [of _ 1]) (simp, simp, rule close_waited, simp_all)
  then have r: "reach pool_init pool_step (run_state ?q False 1 OnceRunning 1 [?d, CloseWaitDone 0])"
    by (rule thread_reach [of _ 1])
      (simp, simp, rule close_send, simp_all add: can_send_def defaultCmdChanSize_def)
  have h: "handleCmd sample_env (CmdClose 0) (?q\<lparr>cmdCh := []\<rparr>) = (run_closed, True)"
    by (simp add: handleCmd_def closeIdleConns_def drainCmdChOnClose_def run_closed_def run_pool1_def
        run_pool_def sample_pool_def)
  show ?thesis
  proof (rule reach_step [OF r])
    have "pool_step (run_state ?q False 1 OnceRunning 1 [?d, CloseWaitDone 0])
        (actor_did (run_state ?q False 1 OnceRunning 1 [?d, CloseWaitDone 0]) run_closed True)"
      by (rule actor_cmd [where cmd = "CmdClose 0" and cmds = "[]" and e = sample_env]) (use h in simp_all)
    then show "pool_step (run_state ?q False 1 OnceRunning 1 [?d, CloseWaitDone 0])
        (run_state run_closed True 1 OnceRunning 1 [?d, CloseWaitDone 0])"
      by (simp add: actor_did_def run_state_def dial_threads_def List.map_filter_def)
  qed
qed

theorem no_put_left_behind_witness:
  "\<exists>s. reach pool_init pool_step s \<and> exited s \<and> (\<forall>pc \<in> set (thr s). \<not> admitted pc) \<and> closed (pool s)"
  using run_exited no_put_left_behind [OF run_exited] by force

theorem get_reply_exactly_once_witness:
  "\<exists>s. reach pool_init pool_step s \<and> sent 0 (acts (pool s)) \<le> 1 \<and> exited s"
  using run_exited get_reply_exactly_once [OF run_exited, of 0] by force

text \<open>
  C39. Closing \<^verbatim>\<open>closeDone\<close> before the queue is drained does not keep a dial goroutine from queueing
  its result afterwards: there is a run after which the actor has stopped, every call has returned
  (\<^verbatim>\<open>Close\<close> included, having waited for the dial), and a successfully dialled connection sits in the
  queue of the stopped actor, neither closed nor ever to be closed.
\<close>

theorem dial_result_leaks_after_close:
  "\<exists>s c. reach pool_init pool_step s \<and> exited s \<and> closeOnce s = OnceDone \<and> dialWG s = 0 \<and>
     set (thr s) = {Ret} \<and> CmdDialResult ''a'' (Some c) None None \<in> set (cmdCh (pool s)) \<and>
     CloseNow c \<notin> set (acts (pool s)) \<and> (\<nexists>d. CloseLater c d \<in> set (acts (pool s)))"
proof -
  let ?p = "run_closed\<lparr>cmdCh := [CmdDialResult ''a'' (Some 9) None None]\<rparr>"
  have "reach pool_init pool_step (run_state ?p True 1 OnceRunning 1 [DialExit, CloseWaitDone 0])"
    by (rule thread_reach [OF run_exited, of 0])
      (simp, simp, rule dial_send, simp_all add: can_send_def defaultCmdChanSize_def)
  then have "reach pool_init pool_step (run_state ?p True 0 OnceRunning 1 [Ret, CloseWaitDone 0])"
    by (rule thread_reach [of _ 0]) (simp, simp, rule dial_exit, simp)
  then have "reach pool_init pool_step (run_state ?p True 0 OnceRunning 1 [Ret, CloseWaitDials])"
    by (rule thread_reach [of _ 1]) (simp, simp, rule close_done, simp_all)
  then have "reach pool_init pool_step (run_state ?p True 0 OnceDone 1 [Ret, Ret])"
    by (rule thread_reach [of _ 1]) (simp, simp, rule close_dials, simp_all)
  then show ?thesis
    by (intro exI [of _ "run_state ?p True 0 OnceDone 1 [Ret, Ret]"] exI [of _ 9]) simp
qed

end
