(* ===== verification/Client.thy ===== *)
theory Client
  imports Worker_Props Metrics Discoverer Framer ConnPool_Conc
begin

text \<open>
  \<^verbatim>\<open>tglog/client.go\<close>: the client that owns the workers, the discoverer, the connection pool and the metrics,
  and connects them. Its initialisation and the callbacks gnet, the discoverer and the user run are
  functions on the client; calls on the pool start threads of the pool's interleaving model
  (\<open>ConnPool_Conc\<close>), and what a worker logs (connections put back, metrics) is passed on to the pool and
  the metrics. gnet and the network are outside: what their calls return are arguments.
\<close>

section \<open>Data\<close>

datatype client_err =
    EMetrics metrics_err
  | EDns dns_err
  | EGnet string
  | ENoEndpoint
  | EPool pool_err
  | EFramer framer_err
  | EWorker string

text \<open>How far \<^verbatim>\<open>Close\<close> has come: it closes one worker after the other and waits for each, then closes
  the pool and waits, then stops gnet.\<close>

datatype closing = NotClosing | CloseWorkers nat | WaitWorker nat | WaitPool nat | ClosedAll

record client =
  coptions :: Options
  cmetrics :: "metrics option"
  discoverer :: "dnsDiscoverer option"
  netClient :: bool
  cpool :: "pool_sys option"
  cframer :: "lengthFieldBased option"
  workers :: "worker list"
  curWorkerIndex :: "64 word"
  cclosing :: closing
  refused :: "nat list"     \<comment> \<open>requests told \<^verbatim>\<open>ErrNoAvailableWorker\<close>\<close>

text \<open>What initialisation needs from outside: the registries, the resolver and the IP pattern, gnet, and
  what \<^verbatim>\<open>getConn\<close> gives each new worker with the unique parts of its batch identifiers.\<close>

record gnet_env =
  DialTimeout :: "string \<Rightarrow> string \<Rightarrow> duration \<Rightarrow> string + nat"
  EnrollContext :: "nat \<Rightarrow> string + nat"
  DialContext :: "string \<Rightarrow> string \<Rightarrow> string + nat"

record init_env =
  defaultRegistry :: prometheus
  registryOf :: "nat \<Rightarrow> prometheus"
  dnsEnv :: dns_env
  isIP :: "string \<Rightarrow> bool"
  ipString :: "string \<Rightarrow> string"
  gnetStart :: "string option"
  poolEnv :: pool_env
  gnetDial :: "nat \<Rightarrow> gnet_env"
  firstConn :: "nat \<Rightarrow> string + nat"
  workerUuid :: "nat \<Rightarrow> nat \<Rightarrow> string"
  firstSeq :: "64 word"

section \<open>Initialisation\<close>

definition newClient :: "Options \<Rightarrow> client" where
  "newClient o' = \<lparr>coptions = o', cmetrics = None, discoverer = None, netClient = False, cpool = None, cframer = None,
     workers = [], curWorkerIndex = 0, cclosing = NotClosing, refused = []\<rparr>"

definition initMetrics :: "init_env \<Rightarrow> client \<Rightarrow> client \<times> client_err option" where
  "initMetrics e c =
     (case newMetrics (defaultRegistry e) (map_option (registryOf e) (MetricsRegistry (coptions c))) (MetricsName (coptions c)) of
        Inl er \<Rightarrow> (c, Some (EMetrics er))
      | Inr m \<Rightarrow> (c\<lparr>cmetrics := Some m\<rparr>, None))"

text \<open>The client is the discoverer's handler number 0.\<close>

definition initDiscoverer :: "init_env \<Rightarrow> client \<Rightarrow> client \<times> client_err option" where
  "initDiscoverer e c =
     (case NewDNS (dnsEnv e) (isIP e) (ipString e) (Host (coptions c)) (Port (coptions c)) (UpdateInterval (coptions c)) of
        Inl er \<Rightarrow> (c, Some (EDns er))
      | Inr dis \<Rightarrow> (c\<lparr>discoverer := Some (AddEventHandler 0 dis)\<rparr>, None))"

definition initNetClient :: "init_env \<Rightarrow> client \<Rightarrow> client \<times> client_err option" where
  "initNetClient e c =
     (case gnetStart e of Some er \<Rightarrow> (c, Some (EGnet er)) | None \<Rightarrow> (c\<lparr>netClient := True\<rparr>, None))"

definition Dial :: "gnet_env \<Rightarrow> Options \<Rightarrow> string \<Rightarrow> string + nat" where
  "Dial g o' addr =
     (if ConnTimeout o' > 0
      then case DialTimeout g (Network o') addr (ConnTimeout o') of Inl e \<Rightarrow> Inl e | Inr conn \<Rightarrow> EnrollContext g conn
      else DialContext g (Network o') addr)"

definition poolDialer :: "init_env \<Rightarrow> Options \<Rightarrow> dialer" where
  "poolDialer e o' = (\<lambda>i ep. case Dial (gnetDial e i) o' ep of Inl er \<Rightarrow> (None, Some er) | Inr conn \<Rightarrow> (Some conn, None))"

text \<open>\<^verbatim>\<open>math.Ceil(float64(WorkerNum) * 1.2 / float64(epLen))\<close>, over exact rationals.\<close>

definition connsPerEndpointOf :: "int \<Rightarrow> int \<Rightarrow> int" where
  "connsPerEndpointOf workerNum epLen = \<lceil>of_int workerNum * 6 / 5 / (of_int epLen :: rat)\<rceil>"

definition client_initConns :: "init_env \<Rightarrow> client \<Rightarrow> client \<times> client_err option" where
  "client_initConns e c =
     (let epList = (case discoverer c of None \<Rightarrow> [] | Some d \<Rightarrow> GetEndpoints d); epLen = length epList
      in if epLen = 0 then (c, Some ENoEndpoint)
         else case NewConnPool (poolEnv e) (map epAddr epList) (connsPerEndpointOf (WorkerNum (coptions c)) (int epLen)) 2048
                     (Some (poolDialer e (coptions c))) (Logger (coptions c) \<noteq> None) (MaxConnLifetime (coptions c)) True of
                Inl er \<Rightarrow> (c, Some (EPool er))
              | Inr p \<Rightarrow> (c\<lparr>cpool := Some (started p)\<rparr>, None))"

definition framerCfg :: "Options \<Rightarrow> LengthFieldCfg" where
  "framerCfg o' = \<lparr>cfgLittleEndian = Options.LittleEndian o', Framer.LengthFieldCfg.MaxFrameLen = Options.MaxFrameLen o',
     FieldOffset = LenFieldOffset o', FieldLength = LenFieldLength o', Adjustment = LenAdjustment o',
     BytesToStrip = FrameBytesToStrip o'\<rparr>"

definition initFramer :: "client \<Rightarrow> client \<times> client_err option" where
  "initFramer c =
     (if \<not> isV3 (coptions c) \<or> \<not> isTCP (coptions c) then (c, None)
      else case NewLengthField (framerCfg (coptions c)) of
             Inl er \<Rightarrow> (c, Some (EFramer er))
           | Inr fr \<Rightarrow> (c\<lparr>cframer := Some fr\<rparr>, None))"

fun initWorkers_loop :: "init_env \<Rightarrow> nat \<Rightarrow> client \<Rightarrow> client \<times> client_err option" where
  "initWorkers_loop e 0 c = (c, None)"
| "initWorkers_loop e (Suc n) c =
     (let i = length (workers c)
      in case newWorker (int i) (coptions c) (workerUuid e i) (firstSeq e) (firstConn e i) of
           Inl er \<Rightarrow> (c, Some (EWorker er))
         | Inr w \<Rightarrow> initWorkers_loop e n (c\<lparr>workers := workers c @ [w]\<rparr>))"

definition initWorkers :: "init_env \<Rightarrow> client \<Rightarrow> client \<times> client_err option" where
  "initWorkers e c = initWorkers_loop e (nat (WorkerNum (coptions c))) (c\<lparr>workers := []\<rparr>)"

definition andThen :: "client \<times> client_err option \<Rightarrow> (client \<Rightarrow> client \<times> client_err option) \<Rightarrow> client \<times> client_err option" where
  "andThen r f = (case r of (c, Some er) \<Rightarrow> (c, Some er) | (c, None) \<Rightarrow> f c)"

definition initAll :: "init_env \<Rightarrow> client \<Rightarrow> client \<times> client_err option" where
  "initAll e c =
     andThen (andThen (andThen (andThen (andThen (initMetrics e c) (initDiscoverer e)) (initNetClient e))
       (client_initConns e)) initFramer) (initWorkers e)"

section \<open>Metrics, the pool, the workers\<close>

definition clientError :: "prometheus \<Rightarrow> errNo \<Rightarrow> client \<Rightarrow> client" where
  "clientError pr er c = c\<lparr>cmetrics := map_option (incError pr (strCode er)) (cmetrics c)\<rparr>"

text \<open>A call of an exported method of the pool: a new thread.\<close>

definition poolCalls :: "pc list \<Rightarrow> client \<Rightarrow> client" where
  "poolCalls pcs c = c\<lparr>cpool := map_option (\<lambda>s. s\<lparr>thr := thr s @ pcs\<rparr>) (cpool c)\<rparr>"

definition errText :: "goerror option \<Rightarrow> goerr" where
  "errText er = map_option (\<lambda>x. getErrorCode (Some x)) er"

fun putCalls :: "act list \<Rightarrow> pc list" where
  "putCalls [] = []"
| "putCalls (PutConn conn er # as) = PutCall (Some conn) (errText er) # putCalls as"
| "putCalls (a # as) = putCalls as"

text \<open>A worker has moved: what it logged goes to the pool (\<^verbatim>\<open>putConn\<close>) and to the metrics.\<close>

definition worker_did :: "prometheus \<Rightarrow> nat \<Rightarrow> worker \<Rightarrow> client \<Rightarrow> client" where
  "worker_did pr k w' c =
     (let new = drop (length (log (workers c ! k))) (log w')
      in poolCalls (putCalls new)
           (c\<lparr>workers := (workers c)[k := w'], cmetrics := map_option (fold (record_act pr (indexStr w')) new) (cmetrics c)\<rparr>))"

section \<open>Sending\<close>

text \<open>\<^verbatim>\<open>getWorker\<close>: the next worker in rotation, or \<^verbatim>\<open>workerBusy\<close>. The counter wraps at \<open>2\<^sup>64\<close>.\<close>

definition getWorker :: "prometheus \<Rightarrow> client \<Rightarrow> client \<times> nat option" where
  "getWorker pr c =
     (let index = curWorkerIndex c; c' = c\<lparr>curWorkerIndex := index + 1\<rparr>;
          k = unat (index mod word_of_nat (length (workers c)))
      in if available (workers c ! k) then (c', Some k) else (clientError pr workerBusy c', None))"

definition submit :: "prometheus \<Rightarrow> gotime \<Rightarrow> bool \<Rightarrow> nat \<Rightarrow> Message \<Rightarrow> bool \<Rightarrow> bool \<Rightarrow> client \<Rightarrow> client" where
  "submit pr t acquired i m callback flush c =
     (case getWorker pr c of
        (c', None) \<Rightarrow> if callback then c'\<lparr>refused := refused c' @ [i]\<rparr> else c'
      | (c', Some k) \<Rightarrow> worker_did pr k (doSendAsync t acquired i m callback flush (workers c' ! k)) c')"

text \<open>\<^verbatim>\<open>SendAsync\<close> does not flush; \<^verbatim>\<open>Send\<close> flushes and waits for a callback of its own, and when no worker is
  available returns the error itself.\<close>

definition SendAsync :: "prometheus \<Rightarrow> gotime \<Rightarrow> bool \<Rightarrow> nat \<Rightarrow> Message \<Rightarrow> bool \<Rightarrow> client \<Rightarrow> client" where
  "SendAsync pr t acquired i m callback c = submit pr t acquired i m callback False c"

definition Send_sync :: "prometheus \<Rightarrow> gotime \<Rightarrow> bool \<Rightarrow> nat \<Rightarrow> Message \<Rightarrow> client \<Rightarrow> client" where
  "Send_sync pr t acquired i m c = submit pr t acquired i m True True c"

section \<open>Callbacks\<close>

definition OnEndpointUpdate :: "EndpointList \<Rightarrow> EndpointList \<Rightarrow> EndpointList \<Rightarrow> client \<Rightarrow> client" where
  "OnEndpointUpdate alls adds dels c = poolCalls [UpdateCall (Addresses alls) (Addresses adds) (Addresses dels)] c"

text \<open>gnet closes connection \<open>conn\<close>; the workers that use it ask for another one.\<close>

definition OnClose :: "prometheus \<Rightarrow> nat \<Rightarrow> goerror option \<Rightarrow> client \<Rightarrow> client" where
  "OnClose pr conn er c =
     (let c1 = (if er \<noteq> None then clientError pr errConnClosedByPeer c else c);
          c2 = poolCalls [ConnClosedCall (Some conn) (errText er)] c1
      in if er \<noteq> None then c2\<lparr>workers := map (onConnClosed conn er) (workers c2)\<rparr> else c2)"

text \<open>\<open>None\<close> is a panic: a malformed frame, or a response without a header.\<close>

definition onResponse :: "v3_ext \<Rightarrow> bytes \<Rightarrow> client \<Rightarrow> client option" where
  "onResponse ext data c =
     (case DecodeV3Rsp ext data (NoFrameHeader (coptions c)) False (nat (PayloadBytesToTrip (coptions c)))
             (EncryptKey (coptions c)) of
        Inl CodecPanic \<Rightarrow> None
      | Inl er \<Rightarrow> Some c
      | Inr rsp \<Rightarrow>
          (case rspBody rsp of
             Rsp_HeartbeatRsp \<Rightarrow> Some c
           | Rsp_Other \<Rightarrow> Some c
           | Rsp_LogRsp seqs \<Rightarrow>
               (case rspHeader rsp of
                  None \<Rightarrow> None
                | Some h \<Rightarrow>
                    let index = getWorkerIndex (rspReqID h)
                    in if index < 0 \<or> index \<ge> int (length (workers c)) then Some c
                       else let k = nat index;
                                r = \<lparr>rspBatchID = rspReqID h, rspCode = Code h, rspMsg = Msg h, rspSeqs = seqs\<rparr>
                            in Some (c\<lparr>workers := (workers c)[k := onRsp r (workers c ! k)]\<rparr>))))"

section \<open>Incoming data\<close>

datatype action = ActNone | ActClose

datatype traffic = Crash | Went client bytes action

text \<open>The inbound buffer of a gnet connection and whether its \<open>n\<close>-th \<^verbatim>\<open>Peek\<close> or \<^verbatim>\<open>Discard\<close> fails.\<close>

record gnet_io =
  peekFails :: "nat \<Rightarrow> bool"
  discardFails :: "nat \<Rightarrow> bool"

definition udp_traffic :: "v3_ext \<Rightarrow> prometheus \<Rightarrow> gnet_io \<Rightarrow> bytes \<Rightarrow> client \<Rightarrow> traffic" where
  "udp_traffic ext pr io buf c =
     (if buf = [] then Went c buf ActNone
      else if peekFails io 0 then Went (clientError pr errConnReadFailed c) buf ActClose
      else case onResponse ext buf c of
             None \<Rightarrow> Crash
           | Some c' \<Rightarrow>
               if discardFails io 0 then Went (clientError pr errConnReadFailed c') buf ActClose
               else Went c' [] ActNone)"

text \<open>The loop over the frames in the buffer; a framer that reports an empty frame would keep it going for
  ever, which is the value \<open>None\<close>.\<close>

partial_function (option) tcp_loop ::
    "v3_ext \<Rightarrow> prometheus \<Rightarrow> gnet_io \<Rightarrow> lengthFieldBased \<Rightarrow> nat \<Rightarrow> bytes \<Rightarrow> client \<Rightarrow> traffic option" where
  "tcp_loop ext pr io fr n buf c =
     (if buf = [] then Some (Went c buf ActNone)
      else if peekFails io n then Some (Went (clientError pr errConnReadFailed c) buf ActClose)
      else case ReadFrame fr buf of
             Inl er \<Rightarrow>
               if er = ErrIncompleteFrame then Some (Went c buf ActNone)
               else if er = FramerPanic then Some Crash
               else Some (Went (clientError pr errConnReadFailed c) buf ActClose)
           | Inr (len, payloadOffset, payloadOffsetEnd) \<Rightarrow>
               if peekFails io (n + 1) then Some (Went (clientError pr errConnReadFailed c) buf ActClose)
               else case goslice (take (nat len) buf) payloadOffset payloadOffsetEnd of
                      None \<Rightarrow> Some Crash
                    | Some payload \<Rightarrow>
                        (case onResponse ext payload c of
                           None \<Rightarrow> Some Crash
                         | Some c' \<Rightarrow>
                             if discardFails io n then Some (Went (clientError pr errConnReadFailed c') buf ActClose)
                             else tcp_loop ext pr io fr (n + 2) (drop (nat len) buf) c'))"

text \<open>A V3 TCP client without a framer (initialisation makes one) would call a nil interface.\<close>

definition OnTraffic :: "v3_ext \<Rightarrow> prometheus \<Rightarrow> gnet_io \<Rightarrow> bytes \<Rightarrow> client \<Rightarrow> traffic option" where
  "OnTraffic ext pr io buf c =
     (if \<not> isV3 (coptions c) then Some (Went c buf ActNone)
      else if isUDP (coptions c) then Some (udp_traffic ext pr io buf c)
      else case cframer c of
             None \<Rightarrow> (if buf = [] then Some (Went c buf ActNone)
                      else if peekFails io 0 then Some (Went (clientError pr errConnReadFailed c) buf ActClose)
                      else Some Crash)
           | Some fr \<Rightarrow> tcp_loop ext pr io fr 0 buf c)"

section \<open>Heartbeats\<close>

datatype hb_act = HbGetBuffer | HbWrite nat bytes | HbError | HbPutBuffer

definition heartbeatReq :: "codec_env \<Rightarrow> Options \<Rightarrow> string \<Rightarrow> ReqHeader option \<times> Req" where
  "heartbeatReq env o' uniq =
     BuildV3HeartbeatReq env (AppID o') (AppName o') (AppVer o') (Network o') (buildBatchID ''0'' uniq) (Token o') (TokenType o')
       [] False"

text \<open>What a heartbeat does, in order; \<open>res\<close> is what \<^verbatim>\<open>AsyncWrite\<close> returns. When the request cannot be
  encoded the buffer is not put back.\<close>

definition SendHeartbeat :: "v3_ext \<Rightarrow> codec_env \<Rightarrow> Options \<Rightarrow> string \<Rightarrow> nat \<Rightarrow> string option \<Rightarrow> hb_act list" where
  "SendHeartbeat ext env o' uniq conn res =
     (if isV1 o' then []
      else case heartbeatReq env o' uniq of (header, body) \<Rightarrow>
        (case EncodeV3Req ext header (Some body) (NoFrameHeader o') False False False False [] [] (Options.LittleEndian o') of
           Inl er \<Rightarrow> [HbGetBuffer]
         | Inr bs \<Rightarrow>
             [HbGetBuffer, HbWrite conn bs] @
             (if res \<noteq> None then [HbError, HbPutBuffer] else if isUDP o' then [HbPutBuffer] else [])))"

text \<open>The callback gnet runs when the write is over.\<close>

definition heartbeatCallback :: "Options \<Rightarrow> string option \<Rightarrow> hb_act list" where
  "heartbeatCallback o' er = (if isUDP o' then [] else (if er \<noteq> None then [HbError] else []) @ [HbPutBuffer])"

definition heartbeat_did :: "prometheus \<Rightarrow> hb_act list \<Rightarrow> client \<Rightarrow> client" where
  "heartbeat_did pr as c = (if HbError \<in> set as then clientError pr errConnWriteFailed c else c)"

section \<open>Discovery and closing\<close>

definition dns_did :: "dnsDiscoverer \<Rightarrow> dnsDiscoverer \<Rightarrow> client \<Rightarrow> client" where
  "dns_did d d' c =
     fold (\<lambda>n. OnEndpointUpdate (nAll n) (nAdd n) (nDel n))
       (filter (\<lambda>n. nHandler n = 0) (drop (length (notified d)) (notified d'))) (c\<lparr>discoverer := Some d'\<rparr>)"

text \<open>The start of \<^verbatim>\<open>Close\<close>, run once; \<open>None\<close> is the panic of a discoverer closed twice.\<close>

definition close_begin :: "client \<Rightarrow> client option" where
  "close_begin c =
     (if cclosing c \<noteq> NotClosing then Some c
      else case discoverer c of
             None \<Rightarrow> Some (c\<lparr>cclosing := CloseWorkers 0\<rparr>)
           | Some d \<Rightarrow>
               (case dns_Close d of
                  None \<Rightarrow> None
                | Some d' \<Rightarrow> Some (c\<lparr>discoverer := Some d', cclosing := CloseWorkers 0\<rparr>)))"

section \<open>Constructors\<close>

datatype construct_err = EOptions opt_err | EInit client_err

text \<open>A constructor that fails after the options were accepted closes what it had built: the client it gives
  up is returned with \<^verbatim>\<open>Close\<close> begun.\<close>

definition construct :: "init_env \<Rightarrow> opt_err + Options \<Rightarrow> (construct_err \<times> client option) + client" where
  "construct e r =
     (case r of
        Inl er \<Rightarrow> Inl (EOptions er, None)
      | Inr o' \<Rightarrow>
          (case initAll e (newClient o') of
             (c, None) \<Rightarrow> Inr c
           | (c, Some er) \<Rightarrow> Inl (EInit er, close_begin c)))"

definition NewV1Client :: "init_env \<Rightarrow> (Options \<Rightarrow> Options) list \<Rightarrow> (construct_err \<times> client option) + client" where
  "NewV1Client e opts = construct e (buildOptions v1Defaults opts)"

definition NewV3Client :: "init_env \<Rightarrow> (Options \<Rightarrow> Options) list \<Rightarrow> (construct_err \<times> client option) + client" where
  "NewV3Client e opts = construct e (buildOptions v3Defaults opts)"

section \<open>The running client\<close>

fun own_event :: "event \<Rightarrow> bool" where
  "own_event (Send t acq i m cb fl) = False"
| "own_event CloseCmd = False"
| "own_event (RspArrives r) = False"
| "own_event (ConnLost conn er) = False"
| "own_event _ = True"

text \<open>A step of the pool that is not a new call from outside.\<close>

definition pool_moves :: "pool_sys \<Rightarrow> pool_sys \<Rightarrow> bool" where
  "pool_moves s s' \<longleftrightarrow> pool_step s s' \<and> (\<forall>pc. entry pc \<longrightarrow> s' \<noteq> s\<lparr>thr := thr s @ [pc]\<rparr>)"

text \<open>The state of a run carries the identifiers of the requests submitted with a callback.\<close>

inductive cstep :: "v3_ext \<Rightarrow> prometheus \<Rightarrow> nat list \<times> client \<Rightarrow> nat list \<times> client \<Rightarrow> bool" for ext pr where
  send: "cstep ext pr (subs, c) ((if cb then [i] else []) @ subs, submit pr t acq i m cb fl c)"
| worker: "k < length (workers c) \<Longrightarrow> own_event ev \<Longrightarrow> range_order (wOrd e) \<Longrightarrow>
    wstep e ev (workers c ! k) = Some w' \<Longrightarrow> cstep ext pr (subs, c) (subs, worker_did pr k w' c)"
| pool: "cpool c = Some s \<Longrightarrow> pool_moves s s' \<Longrightarrow> cstep ext pr (subs, c) (subs, c\<lparr>cpool := Some s'\<rparr>)"
| heartbeat: "as = SendHeartbeat ext env (coptions c) uniq conn res \<or> as = heartbeatCallback (coptions c) er \<Longrightarrow>
    cstep ext pr (subs, c) (subs, heartbeat_did pr as c)"
| incoming: "OnTraffic ext pr io buf c = Some (Went c' rest a) \<Longrightarrow> cstep ext pr (subs, c) (subs, c')"
| conn_closed: "cstep ext pr (subs, c) (subs, OnClose pr conn er c)"
| dns: "discoverer c = Some d \<Longrightarrow> dns_env_ok e \<Longrightarrow> dns_tick e d = Some d' \<Longrightarrow> cstep ext pr (subs, c) (subs, dns_did d d' c)"
| close_call: "close_begin c = Some c' \<Longrightarrow> cstep ext pr (subs, c) (subs, c')"
| close_skip: "cclosing c = CloseWorkers k \<Longrightarrow> k < length (workers c) \<Longrightarrow> wstate (workers c ! k) \<noteq> stateReady \<Longrightarrow>
    cstep ext pr (subs, c) (subs, c\<lparr>cclosing := CloseWorkers (Suc k)\<rparr>)"
| close_worker: "cclosing c = CloseWorkers k \<Longrightarrow> k < length (workers c) \<Longrightarrow> wstate (workers c ! k) = stateReady \<Longrightarrow>
    range_order (wOrd e) \<Longrightarrow> wstep e CloseCmd (workers c ! k) = Some w' \<Longrightarrow>
    cstep ext pr (subs, c) (subs, (worker_did pr k w' c)\<lparr>cclosing := WaitWorker k\<rparr>)"
| close_waited: "cclosing c = WaitWorker k \<Longrightarrow> wstate (workers c ! k) = stateClosed \<Longrightarrow>
    cstep ext pr (subs, c) (subs, c\<lparr>cclosing := CloseWorkers (Suc k)\<rparr>)"
| close_pool: "cclosing c = CloseWorkers (length (workers c)) \<Longrightarrow> cpool c = Some s \<Longrightarrow>
    cstep ext pr (subs, c) (subs, (poolCalls [CloseCall] c)\<lparr>cclosing := WaitPool (length (thr s))\<rparr>)"
| close_no_pool: "cclosing c = CloseWorkers (length (workers c)) \<Longrightarrow> cpool c = None \<Longrightarrow>
    cstep ext pr (subs, c) (subs, c\<lparr>netClient := False, cclosing := ClosedAll\<rparr>)"
| close_net: "cclosing c = WaitPool i \<Longrightarrow> cpool c = Some s \<Longrightarrow> thr s ! i = Ret \<Longrightarrow>
    cstep ext pr (subs, c) (subs, c\<lparr>netClient := False, cclosing := ClosedAll\<rparr>)"

definition cinit :: "nat list \<times> client \<Rightarrow> bool" where
  "cinit s \<longleftrightarrow> fst s = [] \<and> (\<exists>e o'. initAll e (newClient o') = (snd s, None) \<and> options_ok o' \<and>
     (\<forall>i. inj (workerUuid e i)) \<and> dns_env_ok (dnsEnv e) \<and> 0 \<le> MaxRetries o' \<and> WorkerNum o' < 2 ^ 63)"

abbreviation creachable :: "v3_ext \<Rightarrow> prometheus \<Rightarrow> nat list \<times> client \<Rightarrow> bool" where
  "creachable ext pr \<equiv> reach cinit (cstep ext pr)"

end
