(* ===== verification/Client_Run.thy ===== *)
theory Client_Run
  imports Client
begin

text \<open>
  The client as a composition: every step of a running client is, seen from each worker, from the
  connection pool and from the discoverer, a sequence of steps of that component's own model. So what was
  proved of the components alone holds of the components of every running client.
\<close>

section \<open>The pool\<close>

definition pool_ok :: "client \<Rightarrow> bool" where
  "pool_ok c \<longleftrightarrow> (\<exists>s. cpool c = Some s \<and> reach pool_init pool_step s)"

lemma reach_pool_calls:
  "reach pool_init pool_step s \<Longrightarrow> list_all entry pcs \<Longrightarrow> reach pool_init pool_step (s\<lparr>thr := thr s @ pcs\<rparr>)"
proof (induction pcs arbitrary: s)
  case (Cons pc pcs)
  have "reach pool_init pool_step (s\<lparr>thr := thr s @ [pc]\<rparr>)"
    using Cons.prems by (auto intro: reach_step pool_step.caller)
  from Cons.IH [OF this] Cons.prems(2) show ?case by simp
qed simp

lemma pool_ok_calls [simp]: "pool_ok c \<Longrightarrow> list_all entry pcs \<Longrightarrow> pool_ok (poolCalls pcs c)"
  by (auto simp: pool_ok_def poolCalls_def reach_pool_calls)

lemma putCalls_entry [simp]: "list_all entry (putCalls as)"
  by (induction as rule: putCalls.induct) simp_all

lemma new_pool_frame:
  assumes "initConns_dial e dl i n conns er p = (p', conns', er')" and "frame q p"
  shows "frame q p' \<and> answers r p' = answers r p"
  using assms
proof (induction e dl i n conns er p rule: initConns_dial.induct)
  case (2 e dl i n conns er p)
  obtain p1 x where nc: "newConn e dl i p = (p1, x)" by (cases "newConn e dl i p")
  obtain p2 y where g: "getEndpoint p = (p2, y)" by (cases "getEndpoint p")
  have p2: "frame q p2" "answers r p2 = answers r p"
    using frame_getEndpoint [OF 2(4) g] answers_getEndpoint [OF g] by simp_all
  have "p1 = p2 \<or> (\<exists>ep. p1 = markUnavailable e ep p2)"
    using nc g by (auto simp: newConn_def dialNewConn_def split: sum.splits prod.splits option.splits)
  moreover have "acts (markUnavailable e ep p2) = acts p2" for ep by (simp add: markUnavailable_def Let_def)
  ultimately have p1: "frame q p1 \<and> answers r p1 = answers r p" using p2 frame_markUnavailable by auto
  show ?case
  proof (cases x)
    case (Inl a)
    with 2 nc p1 show ?thesis by simp
  next
    case (Inr b)
    with 2 nc p1 show ?thesis by simp
  qed
qed simp

lemma new_pool_init:
  assumes "NewConnPool e eps cpe sz d lg lt hb = Inr p"
  shows "pool_init (started p)"
proof -
  obtain dl where d: "d = Some dl" "lg" "eps \<noteq> []"
    using assms by (cases d; cases lg) (simp_all add: NewConnPool_def Let_def split: if_splits)
  let ?c = "if cpe \<le> 0 then 1 else cpe"
  define n where "n = int (length eps) * ?c"
  define p0 where "p0 = \<lparr>cmdCh = [], closeDone = False, closed = False, poolSize = (if sz \<le> 0 then max 1024 n else sz),
     poolIndex = 0, connsPerEndpoint = ?c, requiredConnNum = n, backoff = pool_backoff, maxConnLifetime = lt, idleConns = [],
     endpoints = eps, endpointMap = remdups eps, unavailable = [], retryCounts = [], endpointConnCounts = [],
     pendingDials = [], countedConns = [], heartbeatFunc = hb, acts = []\<rparr>"
  have "NewConnPool e eps cpe sz d lg lt hb = (case initConns e dl n p0 of (p', Some er) \<Rightarrow> Inl er | (p', None) \<Rightarrow> Inr p')"
    using d by (simp add: NewConnPool_def Let_def n_def p0_def)
  then have i: "initConns e dl n p0 = (p, None)" using assms by (auto split: prod.splits option.splits)
  have p0: "\<not> connPool.closed p0" "\<not> closeDone p0" "cmdCh p0 = []" "acts p0 = []" by (simp_all add: p0_def)
  obtain p1 conns er where i1: "initConns_dial e dl 0 (nat n) [] None p0 = (p1, conns, er)"
    by (metis prod.exhaust)
  have p1: "frame p0 p1 \<and> answers r p1 = 0" for r
    using new_pool_frame [OF i1 frame_refl] p0 by simp
  have "frame p0 (fold (\<lambda>c q. putConn e c None True q) cs p1)" for cs
    by (induction cs rule: rev_induct) (use p1 in \<open>simp_all add: framed\<close>)
  moreover have "answers r (fold (\<lambda>c q. putConn e c None True q) cs p1) = 0" for cs r
    using p1 by (induction cs rule: rev_induct) simp_all
  moreover have "conns \<noteq> [] \<and> p = fold (\<lambda>c q. putConn e c None True q) conns p1 \<or> p = p1"
    using i i1 by (auto simp: initConns_def split: if_splits)
  ultimately have "frame p0 p \<and> (\<forall>r. answers r p = 0)" using p1 by auto
  then show ?thesis using p0 by (auto simp: pool_init_def frame_def)
qed

section \<open>The workers\<close>

text \<open>Each worker of the list is a worker of its own model that was given the requests \<open>ss ! k\<close>, and its
  index is its place.\<close>

definition works :: "nat list list \<Rightarrow> Options \<Rightarrow> worker list \<Rightarrow> bool" where
  "works ss o' ws \<longleftrightarrow> length ss = length ws \<and>
     (\<forall>k < length ws. reachable (ss ! k, ws ! k) \<and> windex (ws ! k) = int k \<and> wopts (ws ! k) = o')"

lemma worksD:
  "works ss o' ws \<Longrightarrow> k < length ws \<Longrightarrow> reachable (ss ! k, ws ! k) \<and> windex (ws ! k) = int k \<and> wopts (ws ! k) = o'"
  "works ss o' ws \<Longrightarrow> length ss = length ws"
  by (simp_all add: works_def)

lemma wstep_same: "wstep e ev w = Some w' \<Longrightarrow> windex w' = windex w \<and> wopts w' = wopts w"
  using grows_wstep [of e ev w w'] by (simp add: grows_def)

lemma reachable_wstep:
  assumes "reachable (subs, w)" "wstep e ev w = Some w'" "range_order (wOrd e)"
  shows "reachable (submitted ev @ subs, w')"
  by (rule reach_step [OF assms(1)]) (rule wtransI [OF assms(2,3)])

lemma works_step:
  assumes "works ss o' ws" "k < length ws" "wstep e ev (ws ! k) = Some w'" "range_order (wOrd e)"
  shows "works (ss[k := submitted ev @ ss ! k]) o' (ws[k := w'])"
proof -
  from worksD [OF assms(1)] assms(2) have "reachable (ss ! k, ws ! k)" by blast
  from reachable_wstep [OF this assms(3,4)] have "reachable (submitted ev @ ss ! k, w')" .
  then show ?thesis using assms(1,2) wstep_same [OF assms(3)] by (auto simp: works_def nth_list_update)
qed

lemma works_quiet:
  assumes "works ss o' ws" "k < length ws" "wstep e ev (ws ! k) = Some w'" "range_order (wOrd e)" "submitted ev = []"
  shows "works ss o' (ws[k := w'])"
  using works_step [OF assms(1-4)] assms(5) by simp

lemma works_rsp: "works ss o' ws \<Longrightarrow> k < length ws \<Longrightarrow> works ss o' (ws[k := onRsp r (ws ! k)])"
  by (rule works_quiet [where e = run_env and ev = "RspArrives r"]) (simp_all add: submitted_def run_env_order)

lemma works_conn_lost:
  assumes "works ss o' ws"
  shows "works ss o' (map (onConnClosed conn er) ws)"
  unfolding works_def
proof (intro conjI allI impI)
  fix k assume k: "k < length (map (onConnClosed conn er) ws)"
  have s: "wstep run_env (ConnLost conn er) (ws ! k) = Some (onConnClosed conn er (ws ! k))" by simp
  show "reachable (ss ! k, map (onConnClosed conn er) ws ! k)"
    using reachable_wstep [OF _ s run_env_order, of "ss ! k"] worksD(1) [OF assms, of k] k by (simp add: submitted_def)
  show "windex (map (onConnClosed conn er) ws ! k) = int k" "wopts (map (onConnClosed conn er) ws ! k) = o'"
    using wstep_same [OF s] worksD(1) [OF assms, of k] k by simp_all
qed (use assms in \<open>simp add: works_def\<close>)

lemma mset_concat_update:
  "k < length ss \<Longrightarrow> mset (concat (ss[k := new @ ss ! k])) = mset new + mset (concat ss)"
  by (induction ss arbitrary: k) (auto split: nat.split simp: ac_simps)

section \<open>The invariant\<close>

definition dns_ok :: "client \<Rightarrow> bool" where
  "dns_ok c \<longleftrightarrow> (\<exists>d. discoverer c = Some d \<and> eventHandlers d = [0] \<and> (closeFunc d \<longrightarrow> dns_inv d))"

definition framer_ok :: "client \<Rightarrow> bool" where
  "framer_ok c \<longleftrightarrow> (isV3 (coptions c) \<and> isTCP (coptions c) \<longrightarrow> cframer c \<noteq> None)"

definition cinv :: "nat list \<times> client \<Rightarrow> bool" where
  "cinv s \<longleftrightarrow> (case s of (subs, c) \<Rightarrow> pool_ok c \<and> dns_ok c \<and> framer_ok c \<and> workers c \<noteq> [] \<and> length (workers c) < 2 ^ 63 \<and>
     (\<exists>ss. works ss (coptions c) (workers c) \<and> mset subs = mset (refused c) + mset (concat ss)))"

text \<open>What the callbacks leave alone.\<close>

lemma poolCalls_simps [simp]:
  "coptions (poolCalls pcs c) = coptions c" "workers (poolCalls pcs c) = workers c" "refused (poolCalls pcs c) = refused c"
  "discoverer (poolCalls pcs c) = discoverer c" "cframer (poolCalls pcs c) = cframer c" "cclosing (poolCalls pcs c) = cclosing c"
  "curWorkerIndex (poolCalls pcs c) = curWorkerIndex c" "netClient (poolCalls pcs c) = netClient c"
  by (simp_all add: poolCalls_def)

lemma clientError_simps [simp]:
  "coptions (clientError pr er c) = coptions c" "workers (clientError pr er c) = workers c" "refused (clientError pr er c) = refused c"
  "discoverer (clientError pr er c) = discoverer c" "cframer (clientError pr er c) = cframer c" "cclosing (clientError pr er c) = cclosing c"
  "cpool (clientError pr er c) = cpool c" "netClient (clientError pr er c) = netClient c"
  by (simp_all add: clientError_def)

lemma worker_did_simps [simp]:
  "coptions (worker_did pr k w c) = coptions c" "workers (worker_did pr k w c) = (workers c)[k := w]"
  "refused (worker_did pr k w c) = refused c" "discoverer (worker_did pr k w c) = discoverer c"
  "cframer (worker_did pr k w c) = cframer c" "cclosing (worker_did pr k w c) = cclosing c"
  by (simp_all add: worker_did_def Let_def)

lemma pool_ok_cong: "cpool c = cpool c' \<Longrightarrow> pool_ok c = pool_ok c'"
  by (simp add: pool_ok_def)

lemma pool_ok_worker_did [simp]: "pool_ok c \<Longrightarrow> pool_ok (worker_did pr k w c)"
  unfolding worker_did_def Let_def by (rule pool_ok_calls) (simp_all add: pool_ok_def)

lemma parts_cong:
  "discoverer c = discoverer c' \<Longrightarrow> dns_ok c = dns_ok c'"
  "cframer c = cframer c' \<Longrightarrow> coptions c = coptions c' \<Longrightarrow> framer_ok c = framer_ok c'"
  by (simp_all add: dns_ok_def framer_ok_def)

text \<open>A step that keeps the parts and moves the workers by steps of their own.\<close>

lemma cinv_moved:
  assumes "cinv (subs, c)" "pool_ok c'" "discoverer c' = discoverer c" "cframer c' = cframer c" "coptions c' = coptions c"
    "refused c' = refused c" "\<And>ss. works ss (coptions c) (workers c) \<Longrightarrow> works ss (coptions c) (workers c')"
  shows "cinv (subs, c')"
proof -
  from assms(1) obtain ss where ss: "works ss (coptions c) (workers c)" "mset subs = mset (refused c) + mset (concat ss)"
    and "workers c \<noteq> []" by (auto simp: cinv_def)
  moreover have "length (workers c') = length (workers c)" using worksD(2) [OF ss(1)] worksD(2) [OF assms(7) [OF ss(1)]] by simp
  ultimately show ?thesis using assms by (auto simp: cinv_def dns_ok_def framer_ok_def)
qed

section \<open>Every step keeps it\<close>

lemma rotation_in_range:
  assumes "0 < n" "n < 2 ^ 64"
  shows "unat (i mod word_of_nat n :: 64 word) = unat i mod n"
proof -
  have "unat (word_of_nat n :: 64 word) = n" using assms(2) by (simp add: unat_of_nat)
  then show ?thesis by (simp add: unat_mod)
qed

lemma getWorker_spec:
  assumes "workers c \<noteq> []" "length (workers c) < 2 ^ 63"
  defines "k \<equiv> unat (curWorkerIndex c) mod length (workers c)"
  shows "getWorker pr c =
    (let c' = c\<lparr>curWorkerIndex := curWorkerIndex c + 1\<rparr>
     in if available (workers c ! k) then (c', Some k) else (clientError pr workerBusy c', None))"
    and "k < length (workers c)"
  using assms rotation_in_range [of "length (workers c)" "curWorkerIndex c"] by (simp_all add: getWorker_def Let_def)

lemma cinv_sizes: "cinv (subs, c) \<Longrightarrow> workers c \<noteq> [] \<and> length (workers c) < 2 ^ 63"
  by (simp add: cinv_def)

lemma cinv_worker:
  assumes "cinv (subs, c)" "k < length (workers c)" "wstep e ev (workers c ! k) = Some w'" "range_order (wOrd e)"
  shows "cinv (submitted ev @ subs, worker_did pr k w' c)"
proof -
  from assms(1) obtain ss where ss: "works ss (coptions c) (workers c)" "mset subs = mset (refused c) + mset (concat ss)"
    by (auto simp: cinv_def)
  have "works (ss[k := submitted ev @ ss ! k]) (coptions c) ((workers c)[k := w'])" by (rule works_step [OF ss(1) assms(2-)])
  moreover have "mset (submitted ev @ subs) = mset (refused c) + mset (concat (ss[k := submitted ev @ ss ! k]))"
    using mset_concat_update [of k ss] assms(2) ss worksD(2) [OF ss(1)] by (simp add: ac_simps)
  ultimately show ?thesis using assms(1) by (auto simp: cinv_def dns_ok_def framer_ok_def)
qed

lemma cinv_send:
  assumes c: "cinv (subs, c)"
  shows "cinv ((if cb then [i] else []) @ subs, submit pr t acq i m cb fl c)"
proof -
  note sz = cinv_sizes [OF c]
  let ?k = "unat (curWorkerIndex c) mod length (workers c)" and ?c = "c\<lparr>curWorkerIndex := curWorkerIndex c + 1\<rparr>"
  note g = getWorker_spec(1) [of c pr] getWorker_spec(2) [of c] sz
  show ?thesis
  proof (cases "available (workers c ! ?k)")
    case True
    have c': "cinv (subs, ?c)" by (rule cinv_moved [OF c]) (use c in \<open>simp_all add: cinv_def pool_ok_def\<close>)
    have "wstep run_env (Send t acq i m cb fl) (workers ?c ! ?k) = Some (doSendAsync t acq i m cb fl (workers c ! ?k))" by simp
    from cinv_worker [OF c' _ this run_env_order, of pr] True g show ?thesis by (simp add: submit_def submitted_def Let_def)
  next
    case False
    let ?d = "clientError pr workerBusy ?c"
    have "cinv (subs, ?d)" by (rule cinv_moved [OF c]) (use c in \<open>simp_all add: cinv_def pool_ok_def\<close>)
    then have "cinv (i # subs, ?d\<lparr>refused := refused ?d @ [i]\<rparr>)"
      by (auto simp: cinv_def pool_ok_def dns_ok_def framer_ok_def)
    with \<open>cinv (subs, ?d)\<close> False g show ?thesis by (simp add: submit_def Let_def)
  qed
qed

lemma own_event_quiet: "own_event ev \<Longrightarrow> submitted ev = []"
  by (cases ev) (simp_all add: submitted_def)

text \<open>Incoming data only moves the workers.\<close>

definition data_moved :: "client \<Rightarrow> client \<Rightarrow> bool" where
  "data_moved c c' \<longleftrightarrow> coptions c' = coptions c \<and> discoverer c' = discoverer c \<and> cpool c' = cpool c \<and> cframer c' = cframer c \<and>
     refused c' = refused c \<and> cclosing c' = cclosing c \<and> netClient c' = netClient c \<and>
     (\<forall>ss. works ss (coptions c) (workers c) \<longrightarrow> works ss (coptions c) (workers c')) \<and>
     length (workers c') = length (workers c) \<and>
     (\<forall>k < length (workers c). wstate (workers c' ! k) = wstate (workers c ! k))"

lemma onRsp_state [simp]: "wstate (onRsp r w) = wstate w"
  by (simp add: onRsp_def)

lemma data_moved_refl [simp]: "data_moved c c"
  by (simp add: data_moved_def)

lemma data_moved_trans: "data_moved c c' \<Longrightarrow> data_moved c' c'' \<Longrightarrow> data_moved c c''"
  by (simp add: data_moved_def)

lemma onResponse_moved:
  assumes "onResponse ext d c = Some c'"
  shows "data_moved c c'"
proof -
  have "c' = c \<or> (\<exists>j r. \<not> j < 0 \<and> \<not> int (length (workers c)) \<le> j \<and>
      c' = c\<lparr>workers := (workers c)[nat j := onRsp r (workers c ! nat j)]\<rparr>)"
    using assms unfolding onResponse_def Let_def
    by (auto split: sum.splits codec_err.splits rsp_body.splits option.splits if_splits)
  then show ?thesis by (auto simp: data_moved_def works_rsp nth_list_update)
qed

lemma clientError_moved [simp]: "data_moved c c' \<Longrightarrow> data_moved c (clientError pr er c')"
  by (simp add: data_moved_def)

lemma onResponse_error_moved: "onResponse ext d c = Some c' \<Longrightarrow> data_moved c (clientError pr er c')"
  by (simp add: onResponse_moved)

lemma tcp_loop_moved:
  assumes "tcp_loop ext pr io fr n buf c = Some t"
  shows "case t of Crash \<Rightarrow> True | Went c' rest a \<Rightarrow> data_moved c c'"
  using assms
proof (rule tcp_loop.raw_induct [rotated, where P = "\<lambda>ext pr io fr n buf c t. case t of Crash \<Rightarrow> True | Went c' rest a \<Rightarrow> data_moved c c'"])
  fix loop ext pr io fr n buf c t
  assume IH: "\<And>ext pr io fr n buf c t. loop ext pr io fr n buf c = Some t \<Longrightarrow>
      case t of Crash \<Rightarrow> True | Went c' rest a \<Rightarrow> data_moved c c'"
    and t: "(if buf = [] then Some (Went c buf ActNone)
      else if peekFails io n then Some (Went (clientError pr errConnReadFailed c) buf ActClose)
      else case ReadFrame fr buf of
             Inl er \<Rightarrow>
               if er = ErrIncompleteFrame then Some (Went c buf ActNone)
               else if er = FramerPanic then Some Crash
               else Some (Went (clientError pr errConnReadFailed c) buf ActClose)
           | Inr (len, lo, hi) \<Rightarrow>
               if peekFails io (n + 1) then Some (Went (clientError pr errConnReadFailed c) buf ActClose)
               else case goslice (take (nat len) buf) lo hi of
                      None \<Rightarrow> Some Crash
                    | Some payload \<Rightarrow>
                        (case onResponse ext payload c of
                           None \<Rightarrow> Some Crash
                         | Some c' \<Rightarrow>
                             if discardFails io n then Some (Went (clientError pr errConnReadFailed c') buf ActClose)
                             else loop ext pr io fr (n + 2) (drop (nat len) buf) c')) = Some t"
  have "case t of Crash \<Rightarrow> True | Went c'' rest a \<Rightarrow> data_moved c c''"
    if "onResponse ext payload c = Some c'" "loop ext pr io fr (n + 2) rest c' = Some t" for payload c' rest
    using IH [OF that(2)] onResponse_moved [OF that(1)] by (auto intro: data_moved_trans split: traffic.splits)
  with t show "case t of Crash \<Rightarrow> True | Went c' rest a \<Rightarrow> data_moved c c'"
    by (auto simp: onResponse_error_moved split: if_splits sum.splits prod.splits option.splits)
qed

lemma OnTraffic_moved:
  assumes "OnTraffic ext pr io buf c = Some (Went c' rest a)"
  shows "data_moved c c'"
proof -
  have udp: "data_moved c c'" if "udp_traffic ext pr io buf c = Went c' rest a"
    using that by (auto simp: udp_traffic_def simp: onResponse_error_moved intro: onResponse_moved split: if_splits option.splits)
  show ?thesis
    using assms tcp_loop_moved [of ext pr io _ 0 buf c "Went c' rest a"] udp
    by (auto simp: OnTraffic_def split: if_splits option.splits)
qed

section \<open>The order of closing\<close>

text \<open>The thread that runs the pool's \<^verbatim>\<open>Close\<close> for the client.\<close>

fun closing_pc :: "pc \<Rightarrow> bool" where
  "closing_pc CloseCall = True"
| "closing_pc CloseWaitEnqueues = True"
| "closing_pc (CloseSend d) = True"
| "closing_pc (CloseWaitDone d) = True"
| "closing_pc CloseWaitDials = True"
| "closing_pc _ = False"

definition close_thread :: "pool_sys \<Rightarrow> nat \<Rightarrow> bool" where
  "close_thread s i \<longleftrightarrow> i < length (thr s) \<and> (closing_pc (thr s ! i) \<or> thr s ! i = Ret \<and> closeOnce s = OnceDone)"

lemma tstep_once_done: "tstep s pc s' pc' \<Longrightarrow> closeOnce s = OnceDone \<Longrightarrow> closeOnce s' = OnceDone"
  by (induction rule: tstep.induct) (auto simp: send_def onDrop_def dial_abort_def split: option.split)

lemma tstep_closing: "tstep s pc s' pc' \<Longrightarrow> closing_pc pc \<Longrightarrow> closing_pc pc' \<or> pc' = Ret \<and> closeOnce s' = OnceDone"
  by (induction rule: tstep.induct) auto

lemma tstep_ret: "\<not> tstep s Ret s' pc'"
  by (auto elim: tstepE)

lemma close_thread_step:
  assumes "close_thread s i" "pool_step s t"
  shows "close_thread t i"
  using assms(2)
proof cases
  case (thread j s' pc')
  then show ?thesis using assms(1) tstep_once_done [OF thread(3)] tstep_closing [OF thread(3)] tstep_ret [of s s' pc']
    by (cases "j = i") (auto simp: close_thread_def)
next
  case (caller pc)
  then show ?thesis using assms(1) by (simp add: close_thread_def nth_append)
next
  case (actor_cmd cmd cmds e p' stop)
  then show ?thesis using assms(1) by (simp add: close_thread_def actor_did_def Let_def nth_append)
next
  case (actor_tick tk e)
  then show ?thesis using assms(1) by (simp add: close_thread_def actor_did_def Let_def nth_append)
qed

lemma close_thread_steps: "pool_step\<^sup>*\<^sup>* s t \<Longrightarrow> close_thread s i \<Longrightarrow> close_thread t i"
  by (induction rule: rtranclp_induct) (auto intro: close_thread_step)

definition dns_stopped :: "client \<Rightarrow> bool" where
  "dns_stopped c \<longleftrightarrow> (\<forall>d. discoverer c = Some d \<longrightarrow> closeFunc d \<longrightarrow> stopped d)"

text \<open>The workers before place \<open>k\<close> are closed and those from \<open>m\<close> on still ready.\<close>

definition closed_upto :: "nat \<Rightarrow> nat \<Rightarrow> client \<Rightarrow> bool" where
  "closed_upto k m c \<longleftrightarrow> k \<le> length (workers c) \<and> (\<forall>j < k. wstate (workers c ! j) = stateClosed) \<and>
     (\<forall>j < length (workers c). m \<le> j \<longrightarrow> wstate (workers c ! j) = stateReady)"

definition close_ok :: "client \<Rightarrow> bool" where
  "close_ok c \<longleftrightarrow>
     (case cclosing c of
        NotClosing \<Rightarrow> netClient c \<and> closed_upto 0 0 c \<and> (\<forall>d. discoverer c = Some d \<longrightarrow> \<not> stopped d)
      | CloseWorkers k \<Rightarrow> netClient c \<and> dns_stopped c \<and> closed_upto k k c
      | WaitWorker k \<Rightarrow> netClient c \<and> dns_stopped c \<and> k < length (workers c) \<and> closed_upto k (Suc k) c \<and>
          stateClosing \<le> wstate (workers c ! k)
      | WaitPool i \<Rightarrow> netClient c \<and> dns_stopped c \<and> closed_upto (length (workers c)) (length (workers c)) c \<and>
          (\<exists>s. cpool c = Some s \<and> close_thread s i)
      | ClosedAll \<Rightarrow> \<not> netClient c \<and> dns_stopped c \<and> closed_upto (length (workers c)) (length (workers c)) c \<and>
          (\<exists>s. cpool c = Some s \<and> closeOnce s = OnceDone))"

definition calm :: "client \<Rightarrow> client \<Rightarrow> bool" where
  "calm c c' \<longleftrightarrow> cclosing c' = cclosing c \<and> netClient c' = netClient c \<and>
     map_option (\<lambda>d. (closeFunc d, stopped d)) (discoverer c') = map_option (\<lambda>d. (closeFunc d, stopped d)) (discoverer c) \<and>
     length (workers c') = length (workers c) \<and>
     (\<forall>j < length (workers c). \<forall>st \<in> {stateReady, stateClosed}. wstate (workers c ! j) = st \<longrightarrow> wstate (workers c' ! j) = st) \<and>
     (\<forall>j < length (workers c). wstate (workers c ! j) \<le> wstate (workers c' ! j)) \<and>
     (\<forall>s. cpool c = Some s \<longrightarrow> (\<exists>s'. cpool c' = Some s' \<and> pool_step\<^sup>*\<^sup>* s s'))"

lemma calm_upto: "calm c c' \<Longrightarrow> closed_upto k m c \<Longrightarrow> closed_upto k m c'"
  by (simp add: closed_upto_def calm_def)

lemma calm_dns:
  assumes "calm c c'"
  shows "dns_stopped c' = dns_stopped c" "(\<forall>d. discoverer c' = Some d \<longrightarrow> \<not> stopped d) = (\<forall>d. discoverer c = Some d \<longrightarrow> \<not> stopped d)"
  using assms by (cases "discoverer c"; cases "discoverer c'"; simp add: calm_def dns_stopped_def)+

lemma steps_once: "pool_step\<^sup>*\<^sup>* s t \<Longrightarrow> closeOnce s = OnceDone \<Longrightarrow> closeOnce t = OnceDone"
proof (induction rule: rtranclp_induct)
  case (step t u)
  from step(2) show ?case
    by cases (use step tstep_once_done in \<open>auto simp: actor_did_def Let_def\<close>)
qed

lemma close_ok_calm:
  assumes "close_ok c" "calm c c'"
  shows "close_ok c'"
proof -
  have c: "cclosing c' = cclosing c" "netClient c' = netClient c" "length (workers c') = length (workers c)"
    using assms(2) by (simp_all add: calm_def)
  have p: "\<exists>s'. cpool c' = Some s' \<and> pool_step\<^sup>*\<^sup>* s s'" if "cpool c = Some s" for s
    using assms(2) that by (simp add: calm_def)
  note keep = calm_upto [OF assms(2)] calm_dns [OF assms(2)]
  show ?thesis
  proof (cases "cclosing c")
    case (WaitWorker k)
    have "wstate (workers c ! k) \<le> wstate (workers c' ! k)" if "k < length (workers c)"
      using assms(2) that by (simp add: calm_def)
    then show ?thesis using assms(1) keep WaitWorker by (auto simp: close_ok_def c intro: order_trans)
  next
    case (WaitPool i)
    then show ?thesis using assms(1) keep p close_thread_steps by (simp add: close_ok_def c) blast
  next
    case ClosedAll
    then show ?thesis using assms(1) keep p steps_once by (simp add: close_ok_def c) blast
  qed (use assms(1) keep in \<open>simp_all add: close_ok_def c\<close>)
qed

section \<open>The invariant of a running client\<close>

lemma calmI:
  assumes "cclosing c' = cclosing c" "netClient c' = netClient c"
    "map_option (\<lambda>d. (closeFunc d, stopped d)) (discoverer c') = map_option (\<lambda>d. (closeFunc d, stopped d)) (discoverer c)"
    "length (workers c') = length (workers c)" "cpool c' = cpool c"
    "\<And>j. j < length (workers c) \<Longrightarrow> wstate (workers c ! j) \<in> {stateReady, stateClosed} \<Longrightarrow> wstate (workers c' ! j) = wstate (workers c ! j)"
    "\<And>j. j < length (workers c) \<Longrightarrow> wstate (workers c ! j) \<le> wstate (workers c' ! j)"
  shows "calm c c'"
  using assms by (auto simp: calm_def)

lemma calm_refl [simp]: "calm c c"
  by (rule calmI) simp_all

lemma calm_trans: "calm c c' \<Longrightarrow> calm c' c'' \<Longrightarrow> calm c c''"
proof -
  assume c: "calm c c'" "calm c' c''"
  have "\<exists>s''. cpool c'' = Some s'' \<and> pool_step\<^sup>*\<^sup>* s s''" if s: "cpool c = Some s" for s
  proof -
    from c(1) s obtain s' where s': "cpool c' = Some s'" "pool_step\<^sup>*\<^sup>* s s'" by (auto simp: calm_def)
    with c(2) obtain s'' where "cpool c'' = Some s''" "pool_step\<^sup>*\<^sup>* s' s''" by (auto simp: calm_def)
    with s'(2) show ?thesis by (auto intro: rtranclp_trans)
  qed
  moreover have "\<forall>j < length (workers c). wstate (workers c ! j) \<le> wstate (workers c'' ! j)"
    using c by (auto simp: calm_def intro: order_trans)
  ultimately show "calm c c''" using c by (simp add: calm_def)
qed

lemma pool_calls_steps: "list_all entry pcs \<Longrightarrow> pool_step\<^sup>*\<^sup>* s (s\<lparr>thr := thr s @ pcs\<rparr>)"
proof (induction pcs arbitrary: s)
  case (Cons pc pcs)
  have "pool_step s (s\<lparr>thr := thr s @ [pc]\<rparr>)" using Cons.prems by (auto intro: pool_step.caller)
  with Cons.IH [of "s\<lparr>thr := thr s @ [pc]\<rparr>"] Cons.prems show ?case by (simp add: converse_rtranclp_into_rtranclp)
qed simp

lemma calm_poolCalls: "list_all entry pcs \<Longrightarrow> calm c (poolCalls pcs c)"
  using pool_calls_steps by (auto simp: calm_def poolCalls_def)

lemma calm_error: "calm c (clientError pr er c)"
  by (rule calmI) simp_all

lemma calm_worker:
  assumes "cinv (subs, c)" "k < length (workers c)" "wstep e ev (workers c ! k) = Some w'" "range_order (wOrd e)" "ev \<noteq> CloseCmd"
  shows "calm c (worker_did pr k w' c)"
proof -
  obtain ss where "works ss (coptions c) (workers c)" using assms(1) by (auto simp: cinv_def)
  then have r: "reachable (ss ! k, workers c ! k)" using worksD(1) assms(2) by blast
  let ?c = "c\<lparr>workers := (workers c)[k := w'],
      cmetrics := map_option (fold (record_act pr (indexStr w')) (drop (length (log (workers c ! k))) (log w'))) (cmetrics c)\<rparr>"
  have "calm c ?c"
    using assms(2,5) reachable_ready [OF r _ assms(3)] reachable_closed [OF r _ assms(3,4)] moves_up [OF assms(3)]
    by (intro calmI) (auto simp: nth_list_update)
  from calm_trans [OF this calm_poolCalls [OF putCalls_entry]] show ?thesis by (simp add: worker_did_def Let_def)
qed

lemma calm_submit:
  assumes "cinv (subs, c)"
  shows "calm c (submit pr t acq i m cb fl c)"
proof -
  note sz = cinv_sizes [OF assms]
  let ?k = "unat (curWorkerIndex c) mod length (workers c)" and ?c = "c\<lparr>curWorkerIndex := curWorkerIndex c + 1\<rparr>"
  note g = getWorker_spec(1) [of c pr] getWorker_spec(2) [of c] sz
  have c0: "calm c ?c" by (rule calmI) simp_all
  have c': "cinv (subs, ?c)" by (rule cinv_moved [OF assms]) (use assms in \<open>simp_all add: cinv_def pool_ok_def\<close>)
  have "wstep run_env (Send t acq i m cb fl) (workers ?c ! ?k) = Some (doSendAsync t acq i m cb fl (workers c ! ?k))" by simp
  from calm_worker [OF c' _ this run_env_order, of pr] g
  have "calm ?c (worker_did pr ?k (doSendAsync t acq i m cb fl (workers c ! ?k)) ?c)" by simp
  moreover have "calm ?c (clientError pr workerBusy ?c)" by (rule calm_error)
  moreover have "calm (clientError pr workerBusy ?c) ((clientError pr workerBusy ?c)\<lparr>refused := rs\<rparr>)" for rs by (rule calmI) simp_all
  ultimately show ?thesis using g c0 by (auto simp: submit_def Let_def intro: calm_trans)
qed

lemma calm_data: "data_moved c c' \<Longrightarrow> calm c c'"
  by (rule calmI) (auto simp: data_moved_def)

lemma OnClose_moved:
  assumes "cinv (subs, c)"
  shows "cinv (subs, OnClose pr conn er c) \<and> calm c (OnClose pr conn er c)"
proof -
  let ?c1 = "if er \<noteq> None then clientError pr errConnClosedByPeer c else c"
  let ?c2 = "poolCalls [ConnClosedCall (Some conn) (errText er)] ?c1"
  have st: "wstate (onConnClosed conn er w) = wstate w" for w by (simp add: onConnClosed_def updateConnAsync_def)
  have "calm c ?c1" by (simp add: calm_error)
  moreover have "calm ?c1 ?c2" by (rule calm_poolCalls) simp
  ultimately have c2: "calm c ?c2" by (rule calm_trans)
  have "calm ?c2 (?c2\<lparr>workers := map (onConnClosed conn er) (workers ?c2)\<rparr>)" by (rule calmI) (simp_all add: st)
  from calm_trans [OF c2 this] c2 have "calm c (OnClose pr conn er c)" by (cases er) (simp_all add: OnClose_def Let_def)
  moreover have "pool_ok ?c2" using assms by (intro pool_ok_calls) (simp_all add: cinv_def pool_ok_def)
  then have "cinv (subs, OnClose pr conn er c)"
    by (intro cinv_moved [OF assms]; cases er) (simp_all add: OnClose_def Let_def pool_ok_def works_conn_lost)
  ultimately show ?thesis by simp
qed

text \<open>A notification reaches the pool as a call; the discoverer keeps its own invariant.\<close>

lemma updates_moved:
  "cinv (subs, c) \<Longrightarrow>
   cinv (subs, fold (\<lambda>n. OnEndpointUpdate (nAll n) (nAdd n) (nDel n)) ns c) \<and>
   calm c (fold (\<lambda>n. OnEndpointUpdate (nAll n) (nAdd n) (nDel n)) ns c)"
proof (induction ns arbitrary: c)
  case (Cons n ns)
  let ?c = "OnEndpointUpdate (nAll n) (nAdd n) (nDel n) c"
  have "cinv (subs, ?c)"
    by (rule cinv_moved [OF Cons.prems]) (use Cons.prems in \<open>simp_all add: OnEndpointUpdate_def cinv_def\<close>)
  moreover have "calm c ?c" unfolding OnEndpointUpdate_def by (rule calm_poolCalls) simp
  ultimately show ?case using Cons.IH [of ?c] calm_trans [of c ?c] by simp
qed simp

lemma lookup_fields [simp]:
  "closeFunc (lookup e d) = closeFunc d" "stopped (lookup e d) = stopped d"
  by (simp_all add: lookup_def Let_def)

lemma dns_moved:
  assumes c: "cinv (subs, c)" and d: "discoverer c = Some d" "dns_env_ok e" "dns_tick e d = Some d'"
  shows "cinv (subs, dns_did d d' c) \<and> calm c (dns_did d d' c)"
proof -
  have t: "closeFunc d" "d' = lookup e d" using d(3) by (auto simp: dns_tick_def split: if_splits)
  have ok: "eventHandlers d = [0]" "dns_inv d" using c d(1) t(1) by (auto simp: cinv_def dns_ok_def)
  have "dns_inv d' \<and> eventHandlers d' = eventHandlers d" using lookup_spec [OF ok(2) d(2)] t(2) by blast
  then have "cinv (subs, c\<lparr>discoverer := Some d'\<rparr>)"
    using c ok by (auto simp: cinv_def dns_ok_def pool_ok_def framer_ok_def)
  moreover have "calm c (c\<lparr>discoverer := Some d'\<rparr>)" using d(1) t by (intro calmI) simp_all
  ultimately show ?thesis using updates_moved [of subs "c\<lparr>discoverer := Some d'\<rparr>"] calm_trans unfolding dns_did_def by blast
qed

section \<open>A new client\<close>

lemma newClient_options [simp]: "coptions (newClient o') = o'"
  by (simp add: newClient_def)

lemma andThen_None: "andThen r f = (c, None) \<longleftrightarrow> (\<exists>c'. r = (c', None) \<and> f c' = (c, None))"
  by (cases r; cases "snd r") (auto simp: andThen_def split: option.splits)

lemma NewDNS_ok:
  assumes "NewDNS e isIP' ips h p i = Inr d" "dns_env_ok e"
  shows "eventHandlers d = [] \<and> \<not> stopped d \<and> (closeFunc d \<longrightarrow> dns_inv d)"
proof -
  let ?d = "\<lparr>domain = h, dPort = p, lookupInterval = (if i = 0 then 30 * second else i), endpointList = [], hostListStr = [],
    hostListMap = [], eventHandlers = [], closeFunc = False, stopped = False, notified = []\<rparr>"
  have "dns_inv ?d" by (simp add: dns_inv_def)
  from lookup_spec [OF this assms(2)] have l: "dns_inv (lookup e ?d)" "eventHandlers (lookup e ?d) = []" by (simp_all add: Let_def)
  then have "dns_inv ((lookup e ?d)\<lparr>closeFunc := True\<rparr>)" by (simp add: dns_inv_def)
  with l assms(1) show ?thesis by (auto simp: NewDNS_def Let_def split: if_splits)
qed

lemma new_worker_works:
  assumes "works ss o' ws" "concat ss = []" "newWorker (int (length ws)) o' uuids sq (Inr conn) = Inr w"
    "inj uuids" "one_version o'" "0 \<le> MaxRetries o'"
  shows "works (ss @ [[]]) o' (ws @ [w])"
proof -
  have "winit ([], w)" unfolding winit_def using assms(3-) by (metis fst_conv snd_conv)
  then have "reachable ([], w)" by (rule reach_init)
  moreover have "windex w = int (length ws)" "wopts w = o'" using assms(3) by (auto simp: newWorker_def)
  ultimately show ?thesis using assms(1) by (auto simp: works_def nth_append less_Suc_eq)
qed

lemma initWorkers_loop_ok:
  assumes "initWorkers_loop e n c = (c', None)" "works ss (coptions c) (workers c)" "concat ss = []"
    "\<forall>w \<in> set (workers c). wstate w = stateReady" "\<forall>i. inj (workerUuid e i)" "one_version (coptions c)" "0 \<le> MaxRetries (coptions c)"
  shows "\<exists>ss'. works ss' (coptions c) (workers c') \<and> concat ss' = [] \<and> (\<forall>w \<in> set (workers c'). wstate w = stateReady) \<and>
    c' = c\<lparr>workers := workers c'\<rparr> \<and> length (workers c') = length (workers c) + n"
  using assms
proof (induction e n c arbitrary: ss rule: initWorkers_loop.induct)
  case (2 e n c)
  let ?i = "length (workers c)"
  obtain w where w: "newWorker (int ?i) (coptions c) (workerUuid e ?i) (firstSeq e) (firstConn e ?i) = Inr w"
    "initWorkers_loop e n (c\<lparr>workers := workers c @ [w]\<rparr>) = (c', None)"
    using 2(2) by (auto simp: Let_def split: sum.splits)
  obtain conn where conn: "firstConn e ?i = Inr conn" using w(1) by (auto simp: newWorker_def split: sum.splits)
  have new: "works (ss @ [[]]) (coptions c) (workers c @ [w])"
    by (rule new_worker_works [OF 2(3,4) w(1) [unfolded conn]]) (use 2(6-8) in auto)
  have "wstate w = stateReady" using w(1) conn by (auto simp: newWorker_def)
  with 2 new show ?case
    using "2.IH" [OF refl w(1), of "ss @ [[]]"] w(2) by auto
qed auto

lemma initFramer_ok:
  assumes "initFramer c = (c', None)" "cframer c = None"
  shows "\<exists>fr. c' = c\<lparr>cframer := fr\<rparr> \<and>
    (isV3 (coptions c) \<and> isTCP (coptions c) \<longrightarrow> (\<exists>f. fr = Some f \<and> NewLengthField (framerCfg (coptions c)) = Inr f))"
proof (cases "isV3 (coptions c) \<and> isTCP (coptions c)")
  case True
  with assms(1) show ?thesis by (auto simp: initFramer_def split: sum.splits)
next
  case False
  with assms have "c' = c\<lparr>cframer := None\<rparr>" by (cases c) (auto simp: initFramer_def)
  with False show ?thesis by blast
qed

text \<open>What initialisation has built when it succeeds.\<close>

lemma initAll_built:
  assumes "initAll e (newClient o') = (c, None)"
  obtains m d p fr c1 where "NewDNS (dnsEnv e) (isIP e) (ipString e) (Host o') (Port o') (UpdateInterval o') = Inr d"
    "NewConnPool (poolEnv e) (map epAddr (GetEndpoints (AddEventHandler 0 d)))
       (connsPerEndpointOf (WorkerNum o') (int (length (GetEndpoints (AddEventHandler 0 d))))) 2048
       (Some (poolDialer e o')) (Logger o' \<noteq> None) (MaxConnLifetime o') True = Inr p"
    "isV3 o' \<and> isTCP o' \<Longrightarrow> \<exists>f. fr = Some f \<and> NewLengthField (framerCfg o') = Inr f"
    "initWorkers_loop e (nat (WorkerNum o')) c1 = (c, None)"
    "c1 = (newClient o')\<lparr>cmetrics := Some m, discoverer := Some (AddEventHandler 0 d), netClient := True,
       cpool := Some (started p), cframer := fr\<rparr>"
proof -
  let ?c0 = "newClient o'"
  obtain m where 1: "initMetrics e ?c0 = (?c0\<lparr>cmetrics := Some m\<rparr>, None)"
    using assms by (auto simp: initAll_def andThen_None initMetrics_def split: sum.splits)
  let ?c1 = "?c0\<lparr>cmetrics := Some m\<rparr>"
  obtain d where d: "NewDNS (dnsEnv e) (isIP e) (ipString e) (Host o') (Port o') (UpdateInterval o') = Inr d"
    and 2: "initDiscoverer e ?c1 = (?c1\<lparr>discoverer := Some (AddEventHandler 0 d)\<rparr>, None)"
    using assms by (auto simp: initAll_def andThen_None 1 initDiscoverer_def split: sum.splits)
  let ?c2 = "?c1\<lparr>discoverer := Some (AddEventHandler 0 d)\<rparr>"
  have 3: "initNetClient e ?c2 = (?c2\<lparr>netClient := True\<rparr>, None)"
    using assms by (auto simp: initAll_def andThen_None 1 2 initNetClient_def split: option.splits)
  let ?c3 = "?c2\<lparr>netClient := True\<rparr>"
  let ?new = "NewConnPool (poolEnv e) (map epAddr (GetEndpoints (AddEventHandler 0 d)))
       (connsPerEndpointOf (WorkerNum o') (int (length (GetEndpoints (AddEventHandler 0 d))))) 2048
       (Some (poolDialer e o')) (Logger o' \<noteq> None) (MaxConnLifetime o') True"
  have "client_initConns e ?c3 = (if length (GetEndpoints (AddEventHandler 0 d)) = 0 then (?c3, Some ENoEndpoint)
      else case ?new of Inl er \<Rightarrow> (?c3, Some (EPool er)) | Inr p \<Rightarrow> (?c3\<lparr>cpool := Some (started p)\<rparr>, None))"
    by (simp add: client_initConns_def Let_def)
  then obtain p where p: "?new = Inr p" and 4: "client_initConns e ?c3 = (?c3\<lparr>cpool := Some (started p)\<rparr>, None)"
    using assms by (auto simp: initAll_def andThen_None 1 2 3 split: sum.splits if_splits)
  let ?c4 = "?c3\<lparr>cpool := Some (started p)\<rparr>"
  have c4: "cframer ?c4 = None" "coptions ?c4 = o'" by (simp_all add: newClient_def)
  obtain c5 where c5: "initFramer ?c4 = (c5, None)" using assms by (auto simp: initAll_def andThen_None 1 2 3 4)
  from initFramer_ok [OF this c4(1)] obtain fr where "c5 = ?c4\<lparr>cframer := fr\<rparr>"
    and fr: "isV3 o' \<and> isTCP o' \<Longrightarrow> \<exists>f. fr = Some f \<and> NewLengthField (framerCfg o') = Inr f" unfolding c4(2) by blast
  with c5 have 5: "initFramer ?c4 = (?c4\<lparr>cframer := fr\<rparr>, None)" by simp
  let ?c5 = "?c4\<lparr>cframer := fr\<rparr>"
  have "coptions ?c5 = o'" "?c5\<lparr>workers := []\<rparr> = ?c5" by (simp_all add: newClient_def)
  then have "initWorkers_loop e (nat (WorkerNum o')) ?c5 = (c, None)"
    using assms by (auto simp: initAll_def andThen_None 1 2 3 4 5 initWorkers_def)
  from that [OF d p fr this] show thesis by simp
qed

section \<open>Running clients\<close>

definition client_inv :: "nat list \<times> client \<Rightarrow> bool" where
  "client_inv s \<longleftrightarrow> cinv s \<and> close_ok (snd s)"

lemma client_inv_init:
  assumes "cinit s"
  shows "client_inv s"
proof -
  obtain c e o' where s: "s = ([], c)" and i: "initAll e (newClient o') = (c, None)" and o': "options_ok o'" "0 \<le> MaxRetries o'"
    and u: "\<forall>i. inj (workerUuid e i)" and de: "dns_env_ok (dnsEnv e)" and n: "WorkerNum o' < 2 ^ 63"
    using assms by (cases s) (auto simp: cinit_def)
  have ov: "one_version o'" using o'(1) by (auto simp: options_ok_def one_version_def)
  from i show ?thesis
  proof (rule initAll_built)
    fix m d p fr c1
    assume d: "NewDNS (dnsEnv e) (isIP e) (ipString e) (Host o') (Port o') (UpdateInterval o') = Inr d"
      and p: "NewConnPool (poolEnv e) (map epAddr (GetEndpoints (AddEventHandler 0 d)))
       (connsPerEndpointOf (WorkerNum o') (int (length (GetEndpoints (AddEventHandler 0 d))))) 2048
       (Some (poolDialer e o')) (Logger o' \<noteq> None) (MaxConnLifetime o') True = Inr p"
      and fr: "isV3 o' \<and> isTCP o' \<Longrightarrow> \<exists>f. fr = Some f \<and> NewLengthField (framerCfg o') = Inr f"
      and w: "initWorkers_loop e (nat (WorkerNum o')) c1 = (c, None)"
      and c1: "c1 = (newClient o')\<lparr>cmetrics := Some m, discoverer := Some (AddEventHandler 0 d), netClient := True,
       cpool := Some (started p), cframer := fr\<rparr>"
    have "works [] (coptions c1) (workers c1)" "coptions c1 = o'" "workers c1 = []" by (simp_all add: c1 newClient_def works_def)
    with initWorkers_loop_ok [OF w, of "[]"] u ov o'(2) obtain ss where
      ss: "works ss o' (workers c)" "concat ss = []" "\<forall>w \<in> set (workers c). wstate w = stateReady" "c = c1\<lparr>workers := workers c\<rparr>"
        "length (workers c) = nat (WorkerNum o')" by auto
    have f: "coptions c = o'" "cpool c = Some (started p)" "discoverer c = Some (AddEventHandler 0 d)" "cframer c = fr" "refused c = []"
      "netClient c" "cclosing c = NotClosing" by (subst ss(4), simp add: c1 newClient_def)+
    have "pool_ok c" using new_pool_init [OF p] by (simp add: pool_ok_def f reach_init)
    moreover have "dns_ok c" "\<not> stopped (AddEventHandler 0 d)"
      using NewDNS_ok [OF d de] dns_inv_ops(1) by (auto simp: dns_ok_def f AddEventHandler_def dns_inv_def)
    moreover have "framer_ok c" using fr by (auto simp: framer_ok_def f)
    moreover have "workers c \<noteq> [] \<and> length (workers c) < 2 ^ 63" using ss(5) o'(1) n by (auto simp: options_ok_def nat_less_iff)
    moreover have "close_ok c" using calculation(3) ss(3) by (simp add: close_ok_def f closed_upto_def)
    ultimately show ?thesis using ss by (auto simp: client_inv_def cinv_def s f)
  qed
qed

lemma close_begin_keeps:
  assumes "client_inv (subs, c)" "close_begin c = Some c'"
  shows "client_inv (subs, c')"
proof -
  have ci: "cinv (subs, c)" and co: "close_ok c" using assms(1) by (simp_all add: client_inv_def)
  obtain d where d: "discoverer c = Some d" "eventHandlers d = [0]" "closeFunc d \<longrightarrow> dns_inv d" using ci by (auto simp: cinv_def dns_ok_def)
  show ?thesis
  proof (cases "cclosing c = NotClosing")
    case True
    obtain d' where d': "dns_Close d = Some d'" "c' = c\<lparr>discoverer := Some d', cclosing := CloseWorkers 0\<rparr>"
      using assms(2) True d(1) by (auto simp: close_begin_def split: option.splits)
    have "eventHandlers d' = [0] \<and> (closeFunc d' \<longrightarrow> dns_inv d' \<and> stopped d')"
      using d'(1) d dns_inv_ops(3) [of d d'] by (auto simp: dns_Close_def split: if_splits)
    then show ?thesis using ci co True d'(2)
      by (auto simp: client_inv_def cinv_def pool_ok_def dns_ok_def framer_ok_def close_ok_def closed_upto_def dns_stopped_def)
  qed (use assms in \<open>simp add: close_begin_def\<close>)
qed

lemma cinv_closing [simp]: "cinv (subs, c\<lparr>cclosing := x, netClient := y\<rparr>) = cinv (subs, c)" "cinv (subs, c\<lparr>cclosing := x\<rparr>) = cinv (subs, c)"
  by (simp_all add: cinv_def pool_ok_def dns_ok_def framer_ok_def)

text \<open>\<^verbatim>\<open>Close\<close> never finds the discoverer closed already.\<close>

lemma close_no_panic: "client_inv (subs, c) \<Longrightarrow> close_begin c \<noteq> None"
  by (auto simp: client_inv_def close_ok_def close_begin_def dns_Close_def split: option.splits)

lemma close_worker_keeps:
  assumes i: "client_inv (subs, c)" and k: "cclosing c = CloseWorkers k" "k < length (workers c)" "wstate (workers c ! k) = stateReady"
    and e: "range_order (wOrd e)" "wstep e CloseCmd (workers c ! k) = Some w'"
  shows "client_inv (subs, (worker_did pr k w' c)\<lparr>cclosing := WaitWorker k\<rparr>)"
proof -
  let ?c = "worker_did pr k w' c"
  have ci: "cinv (subs, c)" and co: "close_ok c" using i by (simp_all add: client_inv_def)
  have cw: "cinv (subs, ?c)" using cinv_worker [OF ci k(2) e(2,1), of pr] by (simp add: submitted_def)
  obtain ss where "works ss (coptions c) (workers c)" using ci by (auto simp: cinv_def)
  then have "stateClosing \<le> wstate w'" using close_leaves_ready [OF _ k(3) e(2,1)] worksD(1) k(2) by blast
  moreover have "netClient ?c = netClient c" by (simp add: worker_did_def Let_def)
  ultimately have "close_ok (?c\<lparr>cclosing := WaitWorker k\<rparr>)"
    using co k by (auto simp: close_ok_def closed_upto_def dns_stopped_def nth_list_update)
  with cw show ?thesis by (simp add: client_inv_def)
qed

lemma client_inv_step:
  assumes i: "client_inv s" and step: "cstep ext pr s t"
  shows "client_inv t"
proof -
  obtain subs c where s: "s = (subs, c)" by (cases s)
  have ci: "cinv (subs, c)" and co: "close_ok c" using i by (simp_all add: client_inv_def s)
  note calm = close_ok_calm [OF co]
  from step [unfolded s] show ?thesis
  proof cases
    case (send cb i t acq m fl)
    then show ?thesis using cinv_send [OF ci] calm [OF calm_submit [OF ci]] by (simp add: client_inv_def)
  next
    case (worker k ev e w')
    then have "ev \<noteq> CloseCmd" by auto
    then show ?thesis using worker cinv_worker [OF ci worker(2,5,4), of pr] calm [OF calm_worker [OF ci worker(2,5,4)]] own_event_quiet
      by (simp add: client_inv_def)
  next
    case (pool s0 s')
    then have st: "pool_step s0 s'" by (simp add: pool_moves_def)
    then have "calm c (c\<lparr>cpool := Some s'\<rparr>)" using pool by (auto simp: calm_def)
    moreover have "cinv (subs, c\<lparr>cpool := Some s'\<rparr>)"
      using ci st pool(2) by (auto simp: cinv_def pool_ok_def dns_ok_def framer_ok_def intro: reach_step)
    ultimately show ?thesis using pool calm by (simp add: client_inv_def)
  next
    case (heartbeat as)
    have "cinv (subs, clientError pr errConnWriteFailed c)"
      by (rule cinv_moved [OF ci]) (use ci in \<open>simp_all add: cinv_def pool_ok_def\<close>)
    then show ?thesis using heartbeat ci co calm [OF calm_error] by (simp add: client_inv_def heartbeat_did_def)
  next
    case (incoming io buf c' rest a)
    note m = OnTraffic_moved [OF incoming(2)]
    have "cinv (subs, c')" by (rule cinv_moved [OF ci]) (use m ci in \<open>simp_all add: data_moved_def cinv_def pool_ok_def\<close>)
    then show ?thesis using incoming(1) calm [OF calm_data [OF m]] by (simp add: client_inv_def)
  next
    case (conn_closed conn er)
    then show ?thesis using OnClose_moved [OF ci] calm by (simp add: client_inv_def)
  next
    case (dns d e d')
    then show ?thesis using dns_moved [OF ci dns(2-4)] calm by (simp add: client_inv_def)
  next
    case (close_call c')
    then show ?thesis using close_begin_keeps [of subs c c'] i s by simp
  next
    case (close_skip k)
    then show ?thesis using co by (auto simp: close_ok_def closed_upto_def)
  next
    case (close_worker k e w')
    then show ?thesis using close_worker_keeps i s by simp
  next
    case (close_waited k)
    then show ?thesis using ci co by (auto simp: client_inv_def close_ok_def closed_upto_def dns_stopped_def less_Suc_eq)
  next
    case (close_pool s0)
    have "pool_ok (poolCalls [CloseCall] c)" using ci by (simp add: cinv_def)
    then have "cinv (subs, poolCalls [CloseCall] c)" by (rule cinv_moved [OF ci]) simp_all
    then show ?thesis using close_pool co
      by (auto simp: client_inv_def close_ok_def closed_upto_def dns_stopped_def poolCalls_def close_thread_def)
  next
    case close_no_pool
    then show ?thesis using ci by (simp add: cinv_def pool_ok_def)
  next
    case (close_net i s0)
    then show ?thesis using ci co
      by (auto simp: client_inv_def close_ok_def closed_upto_def dns_stopped_def close_thread_def)
        (simp_all add: cinv_def pool_ok_def dns_ok_def framer_ok_def)
  qed
qed

interpretation crun: inductive_invariant cinit "cstep ext pr" client_inv for ext pr
  by unfold_locales (erule client_inv_init, erule (1) client_inv_step)

end
