(* ===== verification/ConnPool_Live.thy ===== *)
theory ConnPool_Live
  imports ConnPool_Conc
begin

text \<open>
  Closing the connection pool comes to an end. \<open>pool_helped\<close> are the steps of the pool that do not depend on
  the outside: no new caller, and no dial that returns. From every state of every interleaving such steps bring a call
  of \<^verbatim>\<open>Close\<close> to its return, so neither callers in the middle of their calls, nor a full command queue,
  nor a dialer that hangs can block it for good.
\<close>

section \<open>The close command\<close>

fun before_send :: "pc \<Rightarrow> bool" where
  "before_send CloseWaitEnqueues = True"
| "before_send (CloseSend d) = True"
| "before_send _ = False"

definition has_close :: "pool_sys \<Rightarrow> bool" where
  "has_close s \<longleftrightarrow> (\<exists>d. CmdClose d \<in> set (cmdCh (pool s)))"

definition close_inv :: "pool_sys \<Rightarrow> bool" where
  "close_inv s \<longleftrightarrow>
     (closeOnce s = OnceNew \<or> 0 < cnt before_send (thr s) \<longrightarrow> \<not> exited s \<and> \<not> has_close s) \<and>
     (\<forall>d. CloseWaitDone d \<in> set (thr s) \<longrightarrow>
        CmdClose d \<in> set (cmdCh (pool s)) \<and> \<not> exited s \<or> CloseDoneCh d \<in> set (acts (pool s)))"

lemma tstep_acts: "tstep s pc s' pc' \<Longrightarrow> set (acts (pool s)) \<subseteq> set (acts (pool s'))"
  by (induction rule: tstep.induct)
    (auto simp: CloseConn_def onDrop_def dial_abort_def reply_to_def split: option.splits)

lemma tstep_keeps_queue: "tstep s pc s' pc' \<Longrightarrow> set (cmdCh (pool s)) \<subseteq> set (cmdCh (pool s'))"
  using tstep_queue by fastforce

lemma tstep_to_wait: "tstep s pc s' (CloseWaitDone d) \<Longrightarrow> pc = CloseSend d \<and> CmdClose d \<in> set (cmdCh (pool s'))"
  by (auto elim: tstepE)

lemma tstep_before_send:
  "tstep s pc s' pc' \<Longrightarrow> before_send pc' \<Longrightarrow>
     (before_send pc \<or> closeOnce s = OnceNew) \<and> (carries_ok pc \<longrightarrow> cmdCh (pool s') = cmdCh (pool s))"
  by (induction rule: tstep.induct) simp_all

lemma tstep_new: "tstep s pc s' pc' \<Longrightarrow> closeOnce s' = OnceNew \<Longrightarrow> closeOnce s = OnceNew"
  by (induction rule: tstep.induct) simp_all

lemma tstep_adds_close:
  "tstep s pc s' pc' \<Longrightarrow> carries_ok pc \<Longrightarrow> CmdClose d \<in> set (cmdCh (pool s')) \<Longrightarrow>
     CmdClose d \<in> set (cmdCh (pool s)) \<or> before_send pc \<and> \<not> before_send pc'"
  by (induction rule: tstep.induct) (auto simp: CloseConn_def)

lemma cnt_mono: "(\<And>x. P x \<Longrightarrow> Q x) \<Longrightarrow> cnt P xs \<le> cnt Q xs"
  by (induction xs) (auto simp: cnt_def)

lemma before_send_once: "gate_inv s \<Longrightarrow> cnt before_send (thr s) \<le> of_bool (closeOnce s = OnceRunning)"
proof -
  assume "gate_inv s"
  moreover have "before_send x \<Longrightarrow> closing x" for x by (cases x) simp_all
  ultimately show ?thesis using cnt_mono [of before_send closing "thr s"] by (auto simp: gate_inv_def)
qed

lemma close_inv_thread:
  assumes g: "gate_inv s" and c: "close_inv s" and i: "i < length (thr s)" and t: "tstep s (thr s ! i) s' pc'"
  shows "close_inv (s'\<lparr>thr := (thr s)[i := pc']\<rparr>)"
proof -
  let ?pc = "thr s ! i"
  have mem: "?pc \<in> set (thr s)" using i by simp
  have ok: "carries_ok ?pc" using g mem by (simp add: gate_inv_def)
  have ex: "exited s' = exited s" using tstep_frame [OF t] by simp
  note upd = cnt_update [OF i, of before_send pc'] and once = before_send_once [OF g]
  have pos: "before_send ?pc \<Longrightarrow> 0 < cnt before_send (thr s)" using cnt_pos [OF mem] by blast
  have "\<not> exited s \<and> \<not> has_close (s'\<lparr>thr := (thr s)[i := pc']\<rparr>)"
    if early: "closeOnce s' = OnceNew \<or> 0 < cnt before_send ((thr s)[i := pc'])"
  proof -
    have "closeOnce s = OnceNew \<or> 0 < cnt before_send (thr s)"
      using early upd tstep_new [OF t] tstep_before_send [OF t] pos
      by (cases "before_send pc'"; cases "before_send ?pc") auto
    then have old: "\<not> exited s" "\<not> has_close s" using c by (auto simp: close_inv_def)
    have "\<not> (before_send ?pc \<and> \<not> before_send pc')"
      using early upd once pos tstep_new [OF t] by (cases "before_send pc'"; cases "closeOnce s = OnceRunning") auto
    then show ?thesis using old tstep_adds_close [OF t ok] by (auto simp: has_close_def)
  qed
  moreover have "CmdClose d \<in> set (cmdCh (pool s')) \<and> \<not> exited s \<or> CloseDoneCh d \<in> set (acts (pool s'))"
    if "CloseWaitDone d \<in> set ((thr s)[i := pc'])" for d
  proof (cases "pc' = CloseWaitDone d")
    case True
    with tstep_to_wait t have "?pc = CloseSend d" "CmdClose d \<in> set (cmdCh (pool s'))" by blast+
    then show ?thesis using c pos by (simp add: close_inv_def)
  next
    case False
    with that have "CloseWaitDone d \<in> set (thr s)" using set_update_subset_insert [of "thr s" i pc'] by auto
    then show ?thesis using c tstep_acts [OF t] tstep_keeps_queue [OF t] by (auto simp: close_inv_def)
  qed
  ultimately show ?thesis using ex by (simp add: close_inv_def)
qed

lemma drain_answers_close:
  "CmdClose d \<in> set cs \<or> CloseDoneCh d \<in> set (acts p) \<Longrightarrow> CloseDoneCh d \<in> set (acts (fold drain_cmd cs p))"
proof (induction cs arbitrary: p)
  case (Cons c cs)
  have "set (acts p) \<subseteq> set (acts (drain_cmd c p))"
    by (auto simp: drain_cmd_def CloseConn_def reply_to_def split: poolCmd.split option.split)
  then show ?case using Cons by (auto simp: drain_cmd_def)
qed simp

lemma dial_threads_quiet: "cnt before_send (dial_threads as) = 0" "CloseWaitDone d \<notin> set (dial_threads as)"
  by (auto intro!: cnt_zero simp: dial_threads_def List.map_filter_def split: pool_act.splits option.splits)

lemma close_inv_frame:
  assumes c: "close_inv s" and "\<not> exited s" "set (acts (pool s)) \<subseteq> set (acts p')" "set (cmdCh p') \<subseteq> set (cmdCh (pool s))"
    and "\<And>d. CmdClose d \<in> set (cmdCh (pool s)) \<Longrightarrow> CmdClose d \<in> set (cmdCh p')"
  shows "close_inv (actor_did s p' False)"
  using assms dial_threads_quiet by (auto simp: close_inv_def has_close_def)

lemma close_answers:
  assumes "d' = d \<or> CmdClose d' \<in> set (cmdCh p) \<or> CloseDoneCh d' \<in> set (acts p)"
  shows "CloseDoneCh d' \<in> set (acts (fst (handleCmd e (CmdClose d) p)))"
proof -
  let ?q = "closeIdleConns e (p\<lparr>closeDone := True\<rparr>)"
  have "acts ?q = acts p @ map CloseNow (idleConns p)" by (simp add: closeIdleConns_def close_idle_acts)
  moreover have "cmdCh ?q = cmdCh p" by (simp add: cmdCh_closeIdleConns)
  ultimately show ?thesis using assms drain_answers_close [of d' "cmdCh ?q" ?q] by (auto simp: handleCmd_def drainCmdChOnClose_def)
qed

lemma close_inv_cmd:
  assumes c: "close_inv s" and ne: "\<not> exited s" and q: "cmdCh (pool s) = cmd # cmds"
    and h: "handleCmd e cmd ((pool s)\<lparr>cmdCh := cmds\<rparr>) = (p', stop)"
  shows "close_inv (actor_did s p' stop)"
proof (cases "\<exists>d. cmd = CmdClose d")
  case True
  then obtain d where d: "cmd = CmdClose d" by blast
  let ?p = "(pool s)\<lparr>cmdCh := cmds\<rparr>"
  have late: "closeOnce s \<noteq> OnceNew" "cnt before_send (thr s) = 0"
    using c q d cnt_nonneg [of before_send "thr s"] by (auto simp: close_inv_def has_close_def less_le)
  have "CloseDoneCh d' \<in> set (acts p')" if "CloseWaitDone d' \<in> set (thr s)" for d'
    using close_answers [of d' d ?p e] that c h d q by (auto simp: close_inv_def)
  then show ?thesis using late dial_threads_quiet by (auto simp: close_inv_def)
next
  case False
  then have "frame ((pool s)\<lparr>cmdCh := cmds\<rparr>) p' \<and> \<not> stop"
    using frame_handleCmd [of cmd "(pool s)\<lparr>cmdCh := cmds\<rparr>" e] h by auto
  then have f: "set (acts (pool s)) \<subseteq> set (acts p')" "cmdCh p' = cmds" "\<not> stop" by (auto simp: frame_def dest: set_mono_prefix)
  from close_inv_frame [OF c ne f(1)] f False q show ?thesis by auto
qed

definition live_inv :: "pool_sys \<Rightarrow> bool" where
  "live_inv s \<longleftrightarrow> gate_inv s \<and> close_inv s"

interpretation closes: inductive_invariant pool_init pool_step live_inv
proof unfold_locales
  show "pool_init s \<Longrightarrow> live_inv s" for s
    using gate_init dial_threads_quiet by (auto simp: live_inv_def pool_init_def started_def close_inv_def has_close_def)
  show "live_inv t" if l: "live_inv s" and st: "pool_step s t" for s t
  proof -
    have g: "gate_inv s" and c: "close_inv s" using l by (simp_all add: live_inv_def)
    have "close_inv t" using st
    proof cases
      case (thread i s' pc')
      then show ?thesis using close_inv_thread [OF g c] by simp
    next
      case (caller pc)
      then have "\<not> before_send pc" "pc \<noteq> CloseWaitDone d" for d by (auto elim: entry.elims)
      then show ?thesis using c caller by (auto simp: close_inv_def has_close_def)
    next
      case (actor_cmd cmd cmds e p' stop)
      then show ?thesis using close_inv_cmd [OF c] by simp
    next
      case (actor_tick tk e)
      have "frame (pool s) (handleTick e tk (pool s))" by (rule frame_handleTick)
      then show ?thesis using close_inv_frame [OF c] actor_tick by (auto simp: frame_def dest: set_mono_prefix)
    qed
    then show ?thesis using gate.inv_step [OF g st] by (simp add: live_inv_def)
  qed
qed

section \<open>Runs without help from outside\<close>

inductive pool_helped :: "pool_sys \<Rightarrow> pool_sys \<Rightarrow> bool" where
  thread: "i < length (thr s) \<Longrightarrow> (\<forall>addr r. thr s ! i \<noteq> Dialing addr r) \<Longrightarrow> tstep s (thr s ! i) s' pc' \<Longrightarrow>
    pool_helped s (s'\<lparr>thr := (thr s)[i := pc']\<rparr>)"
| actor: "\<not> exited s \<Longrightarrow> cmdCh (pool s) = cmd # cmds \<Longrightarrow>
    handleCmd e cmd ((pool s)\<lparr>cmdCh := cmds\<rparr>) = (p', stop) \<Longrightarrow> pool_helped s (actor_did s p' stop)"

lemma helped_step: "pool_helped s t \<Longrightarrow> pool_step s t"
  by (auto elim!: pool_helped.cases intro: pool_step.thread pool_step.actor_cmd)

lemma helped_live: "pool_helped\<^sup>*\<^sup>* s t \<Longrightarrow> live_inv s \<Longrightarrow> live_inv t"
  using closes.steps_inv mono_rtranclp [of pool_helped pool_step] helped_step by blast

text \<open>Runs in which only admitted senders and the actor move.\<close>

definition quiet_run :: "pool_sys \<Rightarrow> pool_sys \<Rightarrow> bool" where
  "quiet_run s t \<longleftrightarrow> pool_helped\<^sup>*\<^sup>* s t \<and> length (thr s) \<le> length (thr t) \<and>
     (\<forall>k < length (thr s). \<not> admitted (thr s ! k) \<longrightarrow> thr t ! k = thr s ! k)"

lemma quiet_refl [simp]: "quiet_run s s"
  by (simp add: quiet_run_def)

lemma quiet_trans: "quiet_run s t \<Longrightarrow> quiet_run t u \<Longrightarrow> quiet_run s u"
  by (auto simp: quiet_run_def)

lemma quiet_live: "quiet_run s t \<Longrightarrow> live_inv s \<Longrightarrow> live_inv t"
  using helped_live by (auto simp: quiet_run_def)

definition any_env :: pool_env where
  "any_env = \<lparr>now = 0, safeContext = \<lambda>_. None, rangeOrd = \<lambda>ks. ks, randOf = \<lambda>_. 0\<rparr>"

text \<open>The actor takes the next command.\<close>

lemma actor_takes:
  assumes "\<not> exited s" "cmdCh (pool s) = cmd # cmds" "\<forall>d. cmd \<noteq> CmdClose d"
  shows "\<exists>t. pool_helped s t \<and> prefix (thr s) (thr t) \<and> cnt admitted (thr t) = cnt admitted (thr s) \<and> closeOnce t = closeOnce s \<and>
    \<not> exited t \<and> cmdCh (pool t) = cmds \<and> set (acts (pool s)) \<subseteq> set (acts (pool t))"
proof -
  obtain p' stop where h: "handleCmd any_env cmd ((pool s)\<lparr>cmdCh := cmds\<rparr>) = (p', stop)" by fastforce
  have "frame ((pool s)\<lparr>cmdCh := cmds\<rparr>) p' \<and> \<not> stop"
    using frame_handleCmd [of cmd "(pool s)\<lparr>cmdCh := cmds\<rparr>" any_env] h assms(3) by auto
  then show ?thesis using pool_helped.actor [OF assms(1,2) h]
    by (intro exI [of _ "actor_did s p' stop"]) (auto simp: frame_def dest: set_mono_prefix)
qed

lemma actor_closes:
  assumes "\<not> exited s" "cmdCh (pool s) = CmdClose d # cmds" "CmdClose d' \<in> set (cmdCh (pool s))"
  shows "\<exists>t. pool_helped s t \<and> prefix (thr s) (thr t) \<and> CloseDoneCh d' \<in> set (acts (pool t))"
proof -
  obtain p' stop where h: "handleCmd any_env (CmdClose d) ((pool s)\<lparr>cmdCh := cmds\<rparr>) = (p', stop)" by fastforce
  have "CloseDoneCh d' \<in> set (acts p')" using close_answers [of d' d "(pool s)\<lparr>cmdCh := cmds\<rparr>" any_env] h assms(2,3) by auto
  then show ?thesis using pool_helped.actor [OF assms(1,2) h] by (intro exI [of _ "actor_did s p' stop"]) simp
qed

lemma helped_prefix_quiet: "pool_helped s t \<Longrightarrow> prefix (thr s) (thr t) \<Longrightarrow> quiet_run s t"
  by (auto simp: quiet_run_def prefix_def nth_append)

text \<open>As long as there is no close command, the actor can empty the queue.\<close>

definition undisturbed :: "pool_sys \<Rightarrow> pool_sys \<Rightarrow> bool" where
  "undisturbed s t \<longleftrightarrow> quiet_run s t \<and> \<not> exited t \<and> \<not> has_close t \<and> closeOnce t = closeOnce s"

lemma undisturbed_trans: "undisturbed s t \<Longrightarrow> undisturbed t u \<Longrightarrow> undisturbed s u"
  by (auto simp: undisturbed_def intro: quiet_trans)

lemma queue_drains:
  assumes "\<not> exited s" "\<not> has_close s"
  shows "\<exists>t. undisturbed s t \<and> prefix (thr s) (thr t) \<and> cnt admitted (thr t) = cnt admitted (thr s) \<and> cmdCh (pool t) = []"
  using assms
proof (induction "cmdCh (pool s)" arbitrary: s)
  case Nil
  then show ?case by (intro exI [of _ s]) (simp add: undisturbed_def)
next
  case (Cons cmd cmds)
  have "\<forall>d. cmd \<noteq> CmdClose d" using Cons(2,4) by (auto simp: has_close_def) (metis list.set_intros(1))
  from actor_takes [OF Cons(3) Cons(2) [symmetric] this] obtain t where
    t: "pool_helped s t" "prefix (thr s) (thr t)" "cnt admitted (thr t) = cnt admitted (thr s)" "closeOnce t = closeOnce s"
      "\<not> exited t" "cmdCh (pool t) = cmds" by blast
  have "\<not> has_close t" using Cons(2,4) t(6) by (auto simp: has_close_def) (metis list.set_intros(2))
  with Cons(1) [OF t(6) [symmetric] t(5)] obtain u where
    u: "undisturbed t u" "prefix (thr t) (thr u)" "cnt admitted (thr u) = cnt admitted (thr t)" "cmdCh (pool u) = []" by blast
  have "undisturbed s t" using t helped_prefix_quiet \<open>\<not> has_close t\<close> by (simp add: undisturbed_def)
  with u t show ?case using undisturbed_trans prefix_order.trans by metis
qed

text \<open>An admitted sender finishes.\<close>

lemma thread_moves:
  assumes "j < length (thr s)" "admitted (thr s ! j)" "tstep s (thr s ! j) s' pc'"
  shows "quiet_run s (s'\<lparr>thr := (thr s)[j := pc']\<rparr>)"
proof -
  have "\<forall>addr r. thr s ! j \<noteq> Dialing addr r" using assms(2) by auto
  from pool_helped.thread [OF assms(1) this assms(3)] show ?thesis
    using assms(1,2) by (auto simp: quiet_run_def nth_list_update)
qed

lemma sender_done:
  assumes "\<not> exited s" "\<not> has_close s" "j < length (thr s)" "thr s ! j = EnqueueDone"
  shows "\<exists>t. undisturbed s t \<and> cnt admitted (thr t) = cnt admitted (thr s) - 1"
proof -
  let ?t = "s\<lparr>enqueueWG := enqueueWG s - 1, thr := (thr s)[j := Ret]\<rparr>"
  have "quiet_run s ?t" using thread_moves [OF assms(3), of "s\<lparr>enqueueWG := enqueueWG s - 1\<rparr>" Ret] assms(4) tstep.enqueue_done by simp
  moreover have "cnt admitted (thr ?t) = cnt admitted (thr s) - 1" using cnt_update [OF assms(3), of admitted Ret] assms(4) by simp
  ultimately show ?thesis using assms(1,2) by (intro exI [of _ ?t]) (simp add: undisturbed_def has_close_def)
qed

lemma sender_leaves:
  assumes l: "live_inv s" and s: "\<not> exited s" "\<not> has_close s" and j: "j < length (thr s)" "admitted (thr s ! j)"
  shows "\<exists>t. undisturbed s t \<and> cnt admitted (thr t) = cnt admitted (thr s) - 1"
proof (cases "thr s ! j = EnqueueDone")
  case True
  then show ?thesis by (rule sender_done [OF s j(1)])
next
  case False
  then obtain cmd dr where pc: "thr s ! j = EnqueueTry cmd dr \<or> thr s ! j = EnqueueGo cmd dr" using j(2) by (auto elim: admitted.elims)
  obtain t where t: "undisturbed s t" "prefix (thr s) (thr t)" "cnt admitted (thr t) = cnt admitted (thr s)" "cmdCh (pool t) = []"
    using queue_drains [OF s] by blast
  have jt: "j < length (thr t)" "thr t ! j = thr s ! j" using t(2) j(1) by (auto simp: prefix_def nth_append)
  let ?u = "(send cmd t)\<lparr>thr := (thr t)[j := EnqueueDone]\<rparr>"
  have "can_send t" using t(4) by (simp add: can_send_def defaultCmdChanSize_def)
  then have "tstep t (thr t ! j) (send cmd t) EnqueueDone" using pc jt(2) by (auto intro: tstep.enqueue_try tstep.enqueue_go)
  from thread_moves [OF jt(1) _ this] have q: "quiet_run t ?u" using pc jt(2) by auto
  have "live_inv t" using t(1) l quiet_live by (auto simp: undisturbed_def)
  then have "carries_ok (thr t ! j)" using jt(1) by (auto simp: live_inv_def gate_inv_def)
  then have "queued_via_gate cmd" using pc jt(2) by auto
  then have u: "undisturbed t ?u" using q t(1,4) by (auto simp: undisturbed_def has_close_def)
  have c: "cnt admitted (thr ?u) = cnt admitted (thr s)"
    using cnt_update [OF jt(1), of admitted EnqueueDone] pc jt(2) t(3) by auto
  from u have "\<not> exited ?u" "\<not> has_close ?u" by (simp_all add: undisturbed_def)
  from sender_done [OF this, of j] jt(1) obtain v where "undisturbed ?u v" "cnt admitted (thr v) = cnt admitted (thr ?u) - 1" by auto
  then show ?thesis using undisturbed_trans [OF undisturbed_trans [OF t(1) u]] c by auto
qed

lemma cnt_pos_nth: "0 < cnt P xs \<Longrightarrow> \<exists>j < length xs. P (xs ! j)"
  by (metis cnt_zero in_set_conv_nth less_irrefl)

lemma senders_leave:
  assumes "live_inv s" "\<not> exited s" "\<not> has_close s"
  shows "\<exists>t. undisturbed s t \<and> enqueueWG t = 0"
  using assms
proof (induction "nat (cnt admitted (thr s))" arbitrary: s rule: less_induct)
  case less
  show ?case
  proof (cases "cnt admitted (thr s) = 0")
    case True
    then have "enqueueWG s = 0" using less.prems(1) by (simp add: live_inv_def gate_inv_def)
    then show ?thesis using less.prems by (intro exI [of _ s]) (simp add: undisturbed_def)
  next
    case False
    then have pos: "0 < cnt admitted (thr s)" using cnt_nonneg [of admitted "thr s"] by linarith
    then obtain j where j: "j < length (thr s)" "admitted (thr s ! j)" using cnt_pos_nth by blast
    obtain t where t: "undisturbed s t" "cnt admitted (thr t) = cnt admitted (thr s) - 1"
      using sender_leaves [OF less.prems j] by blast
    moreover have "live_inv t" using t(1) less.prems(1) quiet_live by (auto simp: undisturbed_def)
    moreover have "nat (cnt admitted (thr t)) < nat (cnt admitted (thr s))" using t(2) pos by simp
    ultimately obtain u where "undisturbed t u" "enqueueWG u = 0" using less.hyps [of t] by (auto simp: undisturbed_def)
    then show ?thesis using undisturbed_trans [OF t(1)] by blast
  qed
qed

section \<open>Close returns\<close>

lemma answer_comes:
  assumes "live_inv s" "i < length (thr s)" "thr s ! i = CloseWaitDone d"
  shows "\<exists>t. quiet_run s t \<and> CloseDoneCh d \<in> set (acts (pool t))"
  using assms
proof (induction "length (cmdCh (pool s))" arbitrary: s)
  case 0
  have "CloseWaitDone d \<in> set (thr s)" using 0(3,4) by (metis nth_mem)
  then have "CloseDoneCh d \<in> set (acts (pool s))" using 0(1,2) by (auto simp: live_inv_def close_inv_def)
  then show ?case by (intro exI [of _ s]) simp
next
  case (Suc n)
  obtain cmd cmds where q: "cmdCh (pool s) = cmd # cmds" using Suc(2) by (cases "cmdCh (pool s)") auto
  have "CloseWaitDone d \<in> set (thr s)" using Suc(4,5) by (metis nth_mem)
  then consider "CloseDoneCh d \<in> set (acts (pool s))" | "CmdClose d \<in> set (cmdCh (pool s))" "\<not> exited s"
    using Suc(3) by (auto simp: live_inv_def close_inv_def)
  then show ?case
  proof cases
    case 1
    then show ?thesis by (intro exI [of _ s]) simp
  next
    case 2
    show ?thesis
    proof (cases "\<exists>d'. cmd = CmdClose d'")
      case True
      then show ?thesis using actor_closes [OF 2(2) _ 2(1)] q helped_prefix_quiet by blast
    next
      case False
      then obtain t where t: "pool_helped s t" "prefix (thr s) (thr t)" "cmdCh (pool t) = cmds"
        using actor_takes [OF 2(2) q] by blast
      have "live_inv t" using t(1) Suc(3) helped_live by blast
      moreover have "i < length (thr t)" "thr t ! i = CloseWaitDone d" using t(2) Suc(4,5) by (auto simp: prefix_def nth_append)
      ultimately obtain u where "quiet_run t u" "CloseDoneCh d \<in> set (acts (pool u))" using Suc(1) [of t] Suc(2) q t(3) by auto
      then show ?thesis using quiet_trans [OF helped_prefix_quiet [OF t(1,2)]] by blast
    qed
  qed
qed

definition close_returns :: "nat \<Rightarrow> pool_sys \<Rightarrow> bool" where
  "close_returns i s \<longleftrightarrow> (\<exists>t. pool_helped\<^sup>*\<^sup>* s t \<and> length (thr s) \<le> length (thr t) \<and> thr t ! i = Ret \<and> closeOnce t = OnceDone \<and>
     (\<forall>k < length (thr s). k \<noteq> i \<and> \<not> admitted (thr s ! k) \<longrightarrow> thr t ! k = thr s ! k))"

lemma close_returns_quiet: "quiet_run s t \<Longrightarrow> close_returns i t \<Longrightarrow> close_returns i s"
proof -
  assume q: "quiet_run s t" and "close_returns i t"
  then obtain u where u: "pool_helped\<^sup>*\<^sup>* t u" "length (thr t) \<le> length (thr u)" "thr u ! i = Ret" "closeOnce u = OnceDone"
    "\<forall>k < length (thr t). k \<noteq> i \<and> \<not> admitted (thr t ! k) \<longrightarrow> thr u ! k = thr t ! k" by (auto simp: close_returns_def)
  have "\<forall>k < length (thr s). k \<noteq> i \<and> \<not> admitted (thr s ! k) \<longrightarrow> thr u ! k = thr s ! k"
    using q u(5) by (auto simp: quiet_run_def)
  then show ?thesis using q u by (auto simp: close_returns_def quiet_run_def intro!: exI [of _ u])
qed

lemma close_returns_step:
  assumes "i < length (thr s)" "tstep s (thr s ! i) s' pc'" "\<forall>addr r. thr s ! i \<noteq> Dialing addr r"
    "close_returns i (s'\<lparr>thr := (thr s)[i := pc']\<rparr>)"
  shows "close_returns i s"
  using pool_helped.thread [OF assms(1,3,2)] assms(4)
  by (auto simp: close_returns_def nth_list_update intro: converse_rtranclp_into_rtranclp)

lemma close_returns_dials: "i < length (thr s) \<Longrightarrow> thr s ! i = CloseWaitDials \<Longrightarrow> close_returns i s"
proof (rule close_returns_step)
  assume i: "i < length (thr s)" "thr s ! i = CloseWaitDials"
  show "tstep s (thr s ! i) (s\<lparr>closeOnce := OnceDone\<rparr>) Ret" unfolding i(2) by (rule tstep.close_timeout)
  show "close_returns i (s\<lparr>closeOnce := OnceDone\<rparr>\<lparr>thr := (thr s)[i := Ret]\<rparr>)" unfolding close_returns_def
    by (rule exI, rule conjI, rule rtranclp.rtrancl_refl) (simp add: i)
  show "\<forall>addr r. thr s ! i \<noteq> Dialing addr r" using i(2) by simp
qed

lemma live_thread: "live_inv s \<Longrightarrow> i < length (thr s) \<Longrightarrow> tstep s (thr s ! i) s' pc' \<Longrightarrow> live_inv (s'\<lparr>thr := (thr s)[i := pc']\<rparr>)"
  by (rule closes.inv_step) (auto intro: pool_step.thread)

lemma close_returns_wait:
  assumes "live_inv s" "i < length (thr s)" "thr s ! i = CloseWaitDone d"
  shows "close_returns i s"
proof -
  obtain t where t: "quiet_run s t" "CloseDoneCh d \<in> set (acts (pool t))" using answer_comes [OF assms] by blast
  have i: "i < length (thr t)" "thr t ! i = CloseWaitDone d" using t(1) assms(2,3) by (auto simp: quiet_run_def)
  have "tstep t (thr t ! i) t CloseWaitDials" unfolding i(2) by (rule tstep.close_done [OF t(2)])
  from close_returns_step [OF i(1) this] i have "close_returns i t" using close_returns_dials [of i "t\<lparr>thr := (thr t)[i := CloseWaitDials]\<rparr>"] by simp
  then show ?thesis by (rule close_returns_quiet [OF t(1)])
qed

lemma before_send_free:
  assumes "live_inv s" "i < length (thr s)" "before_send (thr s ! i)"
  shows "\<not> exited s \<and> \<not> has_close s"
  using assms cnt_pos [of "thr s ! i" "thr s" before_send] by (auto simp: live_inv_def close_inv_def)

lemma close_returns_send:
  assumes "live_inv s" "i < length (thr s)" "thr s ! i = CloseSend d"
  shows "close_returns i s"
proof -
  have "\<not> exited s" "\<not> has_close s" using before_send_free [OF assms(1,2)] assms(3) by simp_all
  from queue_drains [OF this] obtain t where t: "undisturbed s t" "prefix (thr s) (thr t)" "cmdCh (pool t) = []" by blast
  have i: "i < length (thr t)" "thr t ! i = CloseSend d" using t(2) assms(2,3) by (auto simp: prefix_def nth_append)
  have q: "quiet_run s t" using t(1) by (simp add: undisturbed_def)
  have st: "tstep t (thr t ! i) (send (CmdClose d) t) (CloseWaitDone d)"
    unfolding i(2) by (rule tstep.close_send) (simp add: can_send_def t(3) defaultCmdChanSize_def)
  have "live_inv ((send (CmdClose d) t)\<lparr>thr := (thr t)[i := CloseWaitDone d]\<rparr>)"
    by (rule live_thread [OF quiet_live [OF q assms(1)] i(1) st])
  from close_returns_wait [OF this, of i d] i(1) have "close_returns i t" using close_returns_step [OF i(1) st] i(2) by simp
  then show ?thesis by (rule close_returns_quiet [OF q])
qed

lemma close_returns_enqueues:
  assumes "live_inv s" "i < length (thr s)" "thr s ! i = CloseWaitEnqueues"
  shows "close_returns i s"
proof -
  have "\<not> exited s" "\<not> has_close s" using before_send_free [OF assms(1,2)] assms(3) by simp_all
  from senders_leave [OF assms(1) this] obtain t where t: "undisturbed s t" "enqueueWG t = 0" by blast
  have q: "quiet_run s t" using t(1) by (simp add: undisturbed_def)
  have i: "i < length (thr t)" "thr t ! i = CloseWaitEnqueues" using q assms(2,3) by (auto simp: quiet_run_def)
  have st: "tstep t (thr t ! i) (t\<lparr>nextCh := Suc (nextCh t)\<rparr>) (CloseSend (nextCh t))"
    unfolding i(2) by (rule tstep.close_waited [OF t(2)])
  have "live_inv (t\<lparr>nextCh := Suc (nextCh t)\<rparr>\<lparr>thr := (thr t)[i := CloseSend (nextCh t)]\<rparr>)"
    by (rule live_thread [OF quiet_live [OF q assms(1)] i(1) st])
  from close_returns_send [OF this, of i] i(1) have "close_returns i t" using close_returns_step [OF i(1) st] i(2) by simp
  then show ?thesis by (rule close_returns_quiet [OF q])
qed

lemmas close_returns_closing = close_returns_enqueues close_returns_send close_returns_wait close_returns_dials

lemma closing_returns:
  assumes "live_inv s" "i < length (thr s)" "closing (thr s ! i)"
  shows "close_returns i s"
  using assms by (cases "thr s ! i") (auto intro: close_returns_closing)


lemma close_call_returns:
  assumes "reach pool_init pool_step s" and "i < length (thr s)" and "thr s ! i = CloseCall \<or> closing (thr s ! i)"
  shows "\<exists>t. pool_helped\<^sup>*\<^sup>* s t \<and> thr t ! i = Ret \<and> closeOnce t = OnceDone"
proof -
  have l: "live_inv s" by (rule closes.reach_inv [OF assms(1)])
  have again: "\<exists>t. pool_helped u t \<and> thr t ! i = Ret \<and> closeOnce t = OnceDone"
    if "i < length (thr u)" "thr u ! i = CloseCall" "closeOnce u = OnceDone" for u
  proof -
    have "pool_helped u (u\<lparr>thr := (thr u)[i := Ret]\<rparr>)"
      by (rule pool_helped.thread [OF that(1)]) (simp_all add: that tstep.close_again)
    then show ?thesis using that by (intro exI [of _ "u\<lparr>thr := (thr u)[i := Ret]\<rparr>"]) simp
  qed
  show ?thesis
  proof (cases "closing (thr s ! i)")
    case True
    from closing_returns [OF l assms(2) this] show ?thesis by (auto simp: close_returns_def)
  next
    case False
    with assms(3) have cc: "thr s ! i = CloseCall" by simp
    show ?thesis
    proof (cases "closeOnce s")
      case OnceNew
      let ?s = "s\<lparr>closeOnce := OnceRunning, pool := (pool s)\<lparr>closed := True\<rparr>\<rparr>"
      have st: "tstep s (thr s ! i) ?s CloseWaitEnqueues" unfolding cc by (rule tstep.close_first [OF OnceNew])
      have "close_returns i (?s\<lparr>thr := (thr s)[i := CloseWaitEnqueues]\<rparr>)"
        by (rule closing_returns [OF live_thread [OF l assms(2) st]]) (use assms(2) in simp_all)
      from close_returns_step [OF assms(2) st _ this] cc show ?thesis by (auto simp: close_returns_def)
    next
      case OnceRunning
      then have "0 < cnt closing (thr s)" using l by (simp add: live_inv_def gate_inv_def)
      then obtain j where j: "j < length (thr s)" "closing (thr s ! j)" using cnt_pos_nth by blast
      then have "j \<noteq> i" using cc by auto
      with closing_returns [OF l j] cc assms(2) obtain u where
        "pool_helped\<^sup>*\<^sup>* s u" "i < length (thr u)" "thr u ! i = CloseCall" "closeOnce u = OnceDone"
        by (fastforce simp: close_returns_def)
      with again show ?thesis by (meson rtranclp.rtrancl_into_rtrancl)
    next
      case OnceDone
      then show ?thesis using again [OF assms(2) cc] by blast
    qed
  qed
qed


text \<open>
  C9. Closing the pool always comes to an end by itself: in every state of every interleaving, a call of \<^verbatim>\<open>Close\<close>
  that is under way (also one that waits for another caller's \<^verbatim>\<open>Close\<close>) can be brought to its return by steps of the
  goroutines that are already there, without a new call and without any dial having to return. In
  particular no full queue, no sender in the middle of its call and no hanging dialer can make it deadlock.
\<close>

theorem pool_close_returns:
  assumes "reach pool_init pool_step s" and "i < length (thr s)" and "thr s ! i = CloseCall \<or> closing (thr s ! i)"
  shows "\<exists>t. pool_helped\<^sup>*\<^sup>* s t \<and> thr t ! i = Ret \<and> closeOnce t = OnceDone"
  using assms by (rule close_call_returns)

theorem pool_close_returns_witness:
  "\<exists>t. pool_helped\<^sup>*\<^sup>* (run_state run_pool1 False 1 OnceNew 0 [Dialing ''a'' None, CloseCall]) t \<and> thr t ! 1 = Ret \<and> closeOnce t = OnceDone"
proof (rule pool_close_returns)
  let ?s = "run_state run_pool1 False 1 OnceNew 0 [Dialing ''a'' None]"
  have "reach pool_init pool_step ?s"
    by (rule thread_reach [OF run_dialling, of 0]) (simp, simp, rule dial_open, simp_all add: run_flags)
  from reach_step [OF this pool_step.caller [of CloseCall]]
  show "reach pool_init pool_step (run_state run_pool1 False 1 OnceNew 0 [Dialing ''a'' None, CloseCall])" by simp
qed simp_all

end
