(* ===== verification/Client_Live.thy ===== *)
theory Client_Live
  imports Client_Run ConnPool_Live
begin

text \<open>
  Closing a client comes to an end. \<open>calone\<close> are the steps of a client that need nothing from outside but time: the
  steps of \<^verbatim>\<open>Close\<close> itself, the timeout handlers of the workers and the goroutines of the pool that are
  already there. They are enough to finish \<^verbatim>\<open>Close\<close> from every state a client can reach.
\<close>

section \<open>Steps without help\<close>

inductive calone :: "v3_ext \<Rightarrow> prometheus \<Rightarrow> nat list \<times> client \<Rightarrow> nat list \<times> client \<Rightarrow> bool" for ext pr where
  timeout: "k < length (workers c) \<Longrightarrow> range_order (wOrd e) \<Longrightarrow> wstep e SendTick (workers c ! k) = Some w' \<Longrightarrow>
    calone ext pr (subs, c) (subs, worker_did pr k w' c)"
| pool: "cpool c = Some s \<Longrightarrow> pool_helped s s' \<Longrightarrow> calone ext pr (subs, c) (subs, c\<lparr>cpool := Some s'\<rparr>)"
| call: "close_begin c = Some c' \<Longrightarrow> calone ext pr (subs, c) (subs, c')"
| worker: "cclosing c = CloseWorkers k \<Longrightarrow> k < length (workers c) \<Longrightarrow> wstate (workers c ! k) = stateReady \<Longrightarrow>
    range_order (wOrd e) \<Longrightarrow> wstep e CloseCmd (workers c ! k) = Some w' \<Longrightarrow>
    calone ext pr (subs, c) (subs, (worker_did pr k w' c)\<lparr>cclosing := WaitWorker k\<rparr>)"
| waited: "cclosing c = WaitWorker k \<Longrightarrow> wstate (workers c ! k) = stateClosed \<Longrightarrow>
    calone ext pr (subs, c) (subs, c\<lparr>cclosing := CloseWorkers (Suc k)\<rparr>)"
| close_pool: "cclosing c = CloseWorkers (length (workers c)) \<Longrightarrow> cpool c = Some s \<Longrightarrow>
    calone ext pr (subs, c) (subs, (poolCalls [CloseCall] c)\<lparr>cclosing := WaitPool (length (thr s))\<rparr>)"
| net: "cclosing c = WaitPool i \<Longrightarrow> cpool c = Some s \<Longrightarrow> thr s ! i = Ret \<Longrightarrow>
    calone ext pr (subs, c) (subs, c\<lparr>netClient := False, cclosing := ClosedAll\<rparr>)"

lemma helped_moves: "pool_helped s t \<Longrightarrow> pool_moves s t"
proof -
  assume h: "pool_helped s t"
  have "t \<noteq> s\<lparr>thr := thr s @ [pc]\<rparr>" for pc using h
  proof cases
    case (thread i s' pc')
    have "length (thr t) \<noteq> length (thr (s\<lparr>thr := thr s @ [pc]\<rparr>))" by (simp add: thread(1))
    then show ?thesis by auto
  next
    case (actor cmd cmds e p' stop)
    have "cmdCh p' \<noteq> cmd # cmds"
    proof (cases "\<exists>d. cmd = CmdClose d")
      case True
      then show ?thesis using actor(4) close_fields(3) [of e _ "(pool s)\<lparr>cmdCh := cmds\<rparr>"] by (metis fst_conv list.distinct(1))
    next
      case False
      then have "cmdCh p' = cmds" using frame_handleCmd [of cmd "(pool s)\<lparr>cmdCh := cmds\<rparr>" e] actor(4) by (auto simp: frame_def)
      then show ?thesis by simp
    qed
    then have "pool t \<noteq> pool s" using actor(1,3) by auto
    then show ?thesis by auto
  qed
  then show ?thesis using helped_step [OF h] by (simp add: pool_moves_def)
qed

lemma alone_step: "calone ext pr s t \<Longrightarrow> cstep ext pr s t"
proof (induction rule: calone.induct)
  case (timeout k c e w' subs)
  show ?case by (rule cstep.worker [OF timeout(1) _ timeout(2,3)]) simp
next
  case (pool c s s' subs)
  then show ?case by (intro cstep.pool helped_moves)
qed (auto intro: cstep.intros simp del: wstep.simps)

lemma alone_inv: "(calone ext pr)\<^sup>*\<^sup>* s t \<Longrightarrow> client_inv s \<Longrightarrow> client_inv t"
  using crun.steps_inv mono_rtranclp [of "calone ext pr" "cstep ext pr"] alone_step by blast

lemma alone_reachable: "(calone ext pr)\<^sup>*\<^sup>* s t \<Longrightarrow> creachable ext pr s \<Longrightarrow> creachable ext pr t"
  by (induction rule: rtranclp_induct) (auto intro: reach_step alone_step)

section \<open>Close returns\<close>

definition can_finish :: "v3_ext \<Rightarrow> prometheus \<Rightarrow> nat list \<times> client \<Rightarrow> bool" where
  "can_finish ext pr s \<longleftrightarrow> (\<exists>c'. (calone ext pr)\<^sup>*\<^sup>* s (fst s, c') \<and> cclosing c' = ClosedAll)"

lemma finish_steps: "(calone ext pr)\<^sup>*\<^sup>* (subs, c) (subs, c') \<Longrightarrow> can_finish ext pr (subs, c') \<Longrightarrow> can_finish ext pr (subs, c)"
  by (auto simp: can_finish_def intro: rtranclp_trans)

lemma finish_step: "calone ext pr (subs, c) (subs, c') \<Longrightarrow> can_finish ext pr (subs, c') \<Longrightarrow> can_finish ext pr (subs, c)"
  by (auto intro: finish_steps)

lemma alone_pool_runs:
  assumes "pool_helped\<^sup>*\<^sup>* s s'"
  shows "(calone ext pr)\<^sup>*\<^sup>* (subs, c\<lparr>cpool := Some s\<rparr>) (subs, c\<lparr>cpool := Some s'\<rparr>)"
  using assms
proof (induction rule: rtranclp_induct)
  case (step t u)
  have "calone ext pr (subs, c\<lparr>cpool := Some t\<rparr>) (subs, c\<lparr>cpool := Some u\<rparr>)"
    using calone.pool [of "c\<lparr>cpool := Some t\<rparr>" t u] step(2) by simp
  with step.IH show ?case by simp
qed simp

lemma finish_pool:
  assumes "client_inv (subs, c)" "cclosing c = WaitPool i"
  shows "can_finish ext pr (subs, c)"
proof -
  obtain s where s: "cpool c = Some s" "close_thread s i" "reach pool_init pool_step s"
    using assms by (auto simp: client_inv_def close_ok_def cinv_def pool_ok_def)
  have "\<exists>t. pool_helped\<^sup>*\<^sup>* s t \<and> thr t ! i = Ret"
  proof (cases "thr s ! i = Ret")
    case False
    then have "i < length (thr s)" "thr s ! i = CloseCall \<or> closing (thr s ! i)"
      using s(2) by (auto simp: close_thread_def elim: closing_pc.elims)
    from close_call_returns [OF s(3) this] show ?thesis by blast
  qed blast
  then obtain t where t: "pool_helped\<^sup>*\<^sup>* s t" "thr t ! i = Ret" by blast
  have "c = c\<lparr>cpool := Some s\<rparr>" using s(1) by simp
  then have r: "(calone ext pr)\<^sup>*\<^sup>* (subs, c) (subs, c\<lparr>cpool := Some t\<rparr>)" using alone_pool_runs [OF t(1)] by metis
  let ?d = "c\<lparr>cpool := Some t, netClient := False, cclosing := ClosedAll\<rparr>"
  have "calone ext pr (subs, c\<lparr>cpool := Some t\<rparr>) (subs, ?d)"
    using calone.net [of "c\<lparr>cpool := Some t\<rparr>" i t] assms(2) t(2) by simp
  then have "can_finish ext pr (subs, c\<lparr>cpool := Some t\<rparr>)" unfolding can_finish_def fst_conv
    by (intro exI [of _ ?d] conjI r_into_rtranclp) simp_all
  with r show ?thesis by (rule finish_steps)
qed

text \<open>A moment at which everything sent is late.\<close>

lemma late_moment: "\<exists>n :: int. \<forall>x \<in> set xs. n - f x > k"
proof (induction xs)
  case (Cons x xs)
  then obtain n where "\<forall>y \<in> set xs. n - f y > k" by blast
  then show ?case by (intro exI [of _ "max n (f x + k + 1)"]) auto
qed simp

lemma waiting_worker_closes:
  assumes "reachable (own, w)" "wstate w \<noteq> stateReady"
  shows "wstate w = stateClosed \<or>
    (\<exists>e w'. range_order (wOrd e) \<and> wstep e SendTick w = Some w' \<and> wstate w' = stateClosed)"
proof -
  note b = reachable_base [OF assms(1)]
  have "waiting w \<or> Worker_Run.closed w"
    using winvD(2) [OF reachable_winv [OF assms(1)]] assms(2) by (auto simp: phase_def ready_def)
  then show ?thesis
  proof
    assume w: "waiting w"
    obtain n where n: "\<forall>bp \<in> set (unackedBatches w). n - lastSendTime (heap w (snd bp)) > SendTimeout (wopts w)"
      using late_moment [of "unackedBatches w" "SendTimeout (wopts w)" "\<lambda>bp. lastSendTime (heap w (snd bp))"] by blast
    let ?e = "run_env\<lparr>wnow := n\<rparr>"
    have o': "range_order (wOrd ?e)" by (simp add: run_env_def)
    have "Worker_Run.closed (handleSendTimeout ?e w)" by (rule timeout_closes [OF b w o']) (use n in simp)
    moreover have "\<not> isV1 (wopts w)" using w baseD(1) [OF b] by (auto simp: waiting_def one_version_def)
    ultimately show ?thesis using w o' by (intro disjI2 exI [of _ ?e]) (auto simp: waiting_def Worker_Run.closed_def)
  qed (simp add: Worker_Run.closed_def)
qed

lemma client_worker:
  assumes "client_inv (subs, c)" "k < length (workers c)"
  shows "\<exists>own. reachable (own, workers c ! k)"
  using assms by (auto simp: client_inv_def cinv_def works_def)

lemma alone_one: "calone ext pr (subs, c) (subs, c') \<Longrightarrow> client_inv (subs, c) \<Longrightarrow> client_inv (subs, c')"
  using client_inv_step alone_step by blast

text \<open>A worker that \<^verbatim>\<open>Close\<close> waits for is closed, at the latest by its timeout handler.\<close>

lemma wait_worker:
  assumes "client_inv (subs, c)" "cclosing c = WaitWorker k"
  shows "\<exists>c'. (calone ext pr)\<^sup>*\<^sup>* (subs, c) (subs, c') \<and> cclosing c' = CloseWorkers (Suc k) \<and> length (workers c') = length (workers c)"
proof -
  have k: "k < length (workers c)" "stateClosing \<le> wstate (workers c ! k)" using assms by (simp_all add: client_inv_def close_ok_def)
  obtain own where own: "reachable (own, workers c ! k)" using client_worker [OF assms(1) k(1)] by blast
  have "wstate (workers c ! k) \<noteq> stateReady" using k(2) by (auto simp: less_eq_workerState_def)
  from waiting_worker_closes [OF own this] show ?thesis
  proof (elim disjE exE conjE)
    assume "wstate (workers c ! k) = stateClosed"
    from calone.waited [OF assms(2) this, of ext pr subs] show ?thesis
      by (intro exI [of _ "c\<lparr>cclosing := CloseWorkers (Suc k)\<rparr>"] conjI r_into_rtranclp) simp_all
  next
    fix e w' assume e: "range_order (wOrd e)" "wstep e SendTick (workers c ! k) = Some w'" "wstate w' = stateClosed"
    let ?c = "worker_did pr k w' c"
    have 1: "calone ext pr (subs, c) (subs, ?c)" by (rule calone.timeout [OF k(1) e(1,2)])
    have "calone ext pr (subs, ?c) (subs, ?c\<lparr>cclosing := CloseWorkers (Suc k)\<rparr>)"
      by (rule calone.waited) (use assms(2) k(1) e(3) in simp_all)
    with 1 have "(calone ext pr)\<^sup>*\<^sup>* (subs, c) (subs, ?c\<lparr>cclosing := CloseWorkers (Suc k)\<rparr>)" by (meson r_into_rtranclp rtranclp.rtrancl_into_rtrancl)
    then show ?thesis by (intro exI [of _ "?c\<lparr>cclosing := CloseWorkers (Suc k)\<rparr>"] conjI) simp_all
  qed
qed

lemma begin_close_worker:
  assumes "client_inv (subs, c)" "cclosing c = CloseWorkers k" "k < length (workers c)"
  shows "\<exists>c'. calone ext pr (subs, c) (subs, c') \<and> cclosing c' = WaitWorker k \<and> length (workers c') = length (workers c)"
proof -
  let ?w = "workers c ! k"
  obtain own where own: "reachable (own, ?w)" using client_worker [OF assms(1,3)] by blast
  have rd: "wstate ?w = stateReady" using assms by (simp add: client_inv_def close_ok_def closed_upto_def)
  then have "chansClosed ?w = 0" using winvD(2) [OF reachable_winv [OF own]] by (auto simp: phase_def phase_defs)
  then have "wstep run_env CloseCmd ?w = Some (handleClose run_env ?w)" by simp
  from calone.worker [OF assms(2,3) rd run_env_order this, of ext pr subs] show ?thesis
    by (intro exI [of _ "(worker_did pr k (handleClose run_env ?w) c)\<lparr>cclosing := WaitWorker k\<rparr>"] conjI) simp_all
qed

lemma finish_workers:
  assumes "client_inv (subs, c)" "cclosing c = CloseWorkers k"
  shows "can_finish ext pr (subs, c)"
  using assms
proof (induction "length (workers c) - k" arbitrary: c k rule: less_induct)
  case less
  show ?case
  proof (cases "k < length (workers c)")
    case False
    then have k: "cclosing c = CloseWorkers (length (workers c))"
      using less.prems by (auto simp: client_inv_def close_ok_def closed_upto_def)
    obtain s where s: "cpool c = Some s" using less.prems(1) by (auto simp: client_inv_def cinv_def pool_ok_def)
    note st = calone.close_pool [OF k s, of ext pr subs]
    show ?thesis by (rule finish_step [OF st], rule finish_pool [OF alone_one [OF st less.prems(1)]]) simp
  next
    case True
    obtain c1 where c1: "calone ext pr (subs, c) (subs, c1)" "cclosing c1 = WaitWorker k" "length (workers c1) = length (workers c)"
      using begin_close_worker [OF less.prems True] by blast
    have i1: "client_inv (subs, c1)" by (rule alone_one [OF c1(1) less.prems(1)])
    from wait_worker [OF this c1(2)] obtain c2 where
      c2: "(calone ext pr)\<^sup>*\<^sup>* (subs, c1) (subs, c2)" "cclosing c2 = CloseWorkers (Suc k)" "length (workers c2) = length (workers c1)" by blast
    have "can_finish ext pr (subs, c2)"
      by (rule less.hyps [OF _ alone_inv [OF c2(1) i1] c2(2)]) (use True c1(3) c2(3) in simp)
    then show ?thesis by (intro finish_step [OF c1(1)] finish_steps [OF c2(1)])
  qed
qed

lemma client_finishes:
  assumes "client_inv (subs, c)"
  shows "can_finish ext pr (subs, c)"
proof (cases "cclosing c")
  case NotClosing
  obtain c' where c': "close_begin c = Some c'" using close_no_panic [OF assms] by blast
  then have k: "cclosing c' = CloseWorkers 0" using NotClosing by (auto simp: close_begin_def split: option.splits)
  note st = calone.call [OF c', of ext pr subs]
  show ?thesis by (rule finish_step [OF st finish_workers [OF alone_one [OF st assms] k]])
next
  case (CloseWorkers k)
  with assms show ?thesis by (rule finish_workers)
next
  case (WaitWorker k)
  from wait_worker [OF assms this] obtain c' where c': "(calone ext pr)\<^sup>*\<^sup>* (subs, c) (subs, c')" "cclosing c' = CloseWorkers (Suc k)" by blast
  show ?thesis by (rule finish_steps [OF c'(1) finish_workers [OF alone_inv [OF c'(1) assms] c'(2)]])
next
  case (WaitPool i)
  with assms show ?thesis by (rule finish_pool)
next
  case ClosedAll
  then show ?thesis unfolding can_finish_def by (intro exI [of _ c]) simp
qed

end
