(* ===== verification/Client_Example.thy ===== *)
theory Client_Example
  imports Client
begin

text \<open>
  Clients that the witnesses of the client's theorems use: one for an IP address over TCP with two workers, that
  sends a request and receives a response, and one for a host name. What they evaluate
  to is computed here, by the kernel's own rewriting.
\<close>

section \<open>A client\<close>

text \<open>A V3 client over TCP for an IP address, with two workers; every dial succeeds.\<close>

definition example_opts :: "(Options \<Rightarrow> Options) list" where
  "example_opts = [WithHost ''10.0.0.1'', WithPort 80, WithNetwork ''tcp'', WithWorkerNum 2]"

definition example_options :: Options where
  "example_options = (case buildOptions v3Defaults example_opts of Inr o' \<Rightarrow> o' | Inl er \<Rightarrow> zeroOptions)"

definition example_env :: init_env where
  "example_env = \<lparr>defaultRegistry = sample_prometheus, registryOf = (\<lambda>_. sample_prometheus), dnsEnv = sample_dns_env,
     isIP = (\<lambda>_. True), ipString = (\<lambda>h. h), gnetStart = None,
     poolEnv = \<lparr>now = 0, safeContext = (\<lambda>_. Some \<lparr>CreatedAt = 0, Endpoint = ''10.0.0.1:80''\<rparr>), rangeOrd = (\<lambda>ks. ks), randOf = (\<lambda>_. 0)\<rparr>,
     gnetDial = (\<lambda>i. \<lparr>DialTimeout = (\<lambda>_ _ _. Inr i), EnrollContext = Inr, DialContext = (\<lambda>_ _. Inr i)\<rparr>),
     firstConn = Inr, workerUuid = (\<lambda>i. run_uuid), firstSeq = 0\<rparr>"

definition example_client :: client where
  "example_client = fst (initAll example_env (newClient example_options))"

definition example_sent :: client where
  "example_sent = submit sample_prometheus 0 True 5 msg1 True True example_client"

section \<open>A request and its response\<close>

text \<open>The example client has sent its request and waits; the response is a frame with the batch identifier.\<close>

definition quick_env :: worker_env where
  "quick_env = run_env\<lparr>wext := sample_ext\<lparr>Magic_VAL := 1\<rparr>\<rparr>"

definition example_waiting :: client where
  "example_waiting = (case wstep quick_env TakeData (workers example_sent ! 0) of
     Some w \<Rightarrow> worker_did sample_prometheus 0 w example_sent | None \<Rightarrow> example_sent)"

definition example_response :: bytes where
  "example_response = [18, 52, 0, 0, 0, 12, 0, 0, 0, 0, 48, 58]"

section \<open>A client for a host name\<close>

text \<open>A client for a host name that resolves to two addresses first and to one of them later.\<close>

definition named_env :: init_env where
  "named_env = example_env\<lparr>isIP := (\<lambda>_. False)\<rparr>"

definition example_named :: client where
  "example_named = fst (initAll named_env (newClient example_options))"

definition later_dns_env :: dns_env where
  "later_dns_env = sample_dns_env\<lparr>LookupHost := (\<lambda>_. Inr [''c''])\<rparr>"

definition named_dns :: dnsDiscoverer where
  "named_dns = (case discoverer example_named of Some d \<Rightarrow> d | None \<Rightarrow> sample_dns)"

definition named_dns_later :: dnsDiscoverer where
  "named_dns_later = (case dns_tick later_dns_env named_dns of Some d \<Rightarrow> d | None \<Rightarrow> named_dns)"

section \<open>What they are\<close>

lemma example_evals_all:
  "(snd (initAll example_env (newClient example_options)) = None) \<and>
   (WorkerNum example_options = 2) \<and>
   (MaxRetries example_options = 2) \<and>
   ((case buildOptions v3Defaults example_opts of Inr o' \<Rightarrow> True | Inl er \<Rightarrow> False)) \<and>
   (cframer example_client = Some v3_default_framer) \<and>
   (isV3 (coptions example_client)) \<and>
   (\<not> isUDP (coptions example_client)) \<and>
   (\<not> NoFrameHeader (coptions example_client)) \<and>
   (PayloadBytesToTrip (coptions example_client) = 10) \<and>
   (length (workers example_client) = 2) \<and>
   (unat (curWorkerIndex example_client) = 0) \<and>
   (map available (workers example_client) = [True, True]) \<and>
   (length (workers example_sent) = 2)"
  by code_simp

lemma example_evals:
  "snd (initAll example_env (newClient example_options)) = None"
  "WorkerNum example_options = 2"
  "MaxRetries example_options = 2"
  "(case buildOptions v3Defaults example_opts of Inr o' \<Rightarrow> True | Inl er \<Rightarrow> False)"
  "cframer example_client = Some v3_default_framer"
  "isV3 (coptions example_client)"
  "\<not> isUDP (coptions example_client)"
  "\<not> NoFrameHeader (coptions example_client)"
  "PayloadBytesToTrip (coptions example_client) = 10"
  "length (workers example_client) = 2"
  "unat (curWorkerIndex example_client) = 0"
  "map available (workers example_client) = [True, True]"
  "length (workers example_sent) = 2"
  using example_evals_all by - (elim conjE, assumption)+

lemma example_waiting_facts_all:
  "(length (workers example_sent) = 2) \<and>
   (wstep quick_env TakeData (workers example_sent ! 0) \<noteq> None) \<and>
   (length (workers example_waiting) = 2) \<and>
   (map_of (unackedBatches (workers example_waiting ! 0)) ''0:'' = Some 0) \<and>
   (DecodeV3Rsp sample_ext example_response (NoFrameHeader (coptions example_waiting)) False
     (nat (PayloadBytesToTrip (coptions example_waiting))) (EncryptKey (coptions example_waiting)) =
   Inr \<lparr>rspHeader = Some \<lparr>rspReqID = ''0:'', Code = 0, Msg = []\<rparr>, rspBody = Rsp_LogRsp []\<rparr>)"
  by code_simp

lemma example_waiting_facts:
  "length (workers example_sent) = 2"
  "wstep quick_env TakeData (workers example_sent ! 0) \<noteq> None"
  "length (workers example_waiting) = 2"
  "map_of (unackedBatches (workers example_waiting ! 0)) ''0:'' = Some 0"
  "DecodeV3Rsp sample_ext example_response (NoFrameHeader (coptions example_waiting)) False
     (nat (PayloadBytesToTrip (coptions example_waiting))) (EncryptKey (coptions example_waiting)) =
   Inr \<lparr>rspHeader = Some \<lparr>rspReqID = ''0:'', Code = 0, Msg = []\<rparr>, rspBody = Rsp_LogRsp []\<rparr>"
  using example_waiting_facts_all by - (elim conjE, assumption)+

lemma example_decodes_client_all:
  "(DecodeV3Rsp sample_ext example_response (NoFrameHeader (coptions example_client)) False
     (nat (PayloadBytesToTrip (coptions example_client))) (EncryptKey (coptions example_client)) =
   Inr \<lparr>rspHeader = Some \<lparr>rspReqID = ''0:'', Code = 0, Msg = []\<rparr>, rspBody = Rsp_LogRsp []\<rparr>) \<and>
   (getWorkerIndex ''0:'' = 0)"
  by code_simp

lemma example_decodes_client:
  "DecodeV3Rsp sample_ext example_response (NoFrameHeader (coptions example_client)) False
     (nat (PayloadBytesToTrip (coptions example_client))) (EncryptKey (coptions example_client)) =
   Inr \<lparr>rspHeader = Some \<lparr>rspReqID = ''0:'', Code = 0, Msg = []\<rparr>, rspBody = Rsp_LogRsp []\<rparr>"
  "getWorkerIndex ''0:'' = 0"
  using example_decodes_client_all by - (elim conjE, assumption)+

lemma named_evals_all:
  "(snd (initAll named_env (newClient example_options)) = None) \<and>
   (discoverer example_named \<noteq> None) \<and>
   (dns_tick later_dns_env named_dns \<noteq> None) \<and>
   (endpointList named_dns = map (mkEndpoint 80) [''c'', ''b'']) \<and>
   (endpointList named_dns_later = [mkEndpoint 80 ''c''])"
  by code_simp

lemma named_evals:
  "snd (initAll named_env (newClient example_options)) = None"
  "discoverer example_named \<noteq> None"
  "dns_tick later_dns_env named_dns \<noteq> None"
  "endpointList named_dns = map (mkEndpoint 80) [''c'', ''b'']"
  "endpointList named_dns_later = [mkEndpoint 80 ''c'']"
  using named_evals_all by - (elim conjE, assumption)+

lemma example_build: "buildOptions v3Defaults example_opts = Inr example_options"
  using example_evals(4) by (auto simp: example_options_def split: sum.splits)

lemma example_options_ok: "options_ok example_options"
  using example_build validate_ok by (auto simp: buildOptions_def)

end
