(* ===== verification/Client_Props.thy ===== *)
theory Client_Props
  imports Client_Live Client_Example
begin

text \<open>
  What a running client guarantees: requests, connections and closing across all workers and the pool,
  the routing of responses, the treatment of a byte stream however it is cut, the rotation over the
  workers, and a few behaviours that one might not expect.
\<close>

section \<open>Incoming streams\<close>

text \<open>The responses in a list of payloads, one after the other.\<close>

fun responses :: "v3_ext \<Rightarrow> bytes list \<Rightarrow> client \<Rightarrow> client option" where
  "responses ext [] c = Some c"
| "responses ext (p # ps) c = (case onResponse ext p c of None \<Rightarrow> None | Some c' \<Rightarrow> responses ext ps c')"

lemma responses_append:
  "responses ext (ps @ qs) c = (case responses ext ps c of None \<Rightarrow> None | Some c' \<Rightarrow> responses ext qs c')"
  by (induction ps arbitrary: c) (auto split: option.splits)

definition no_failures :: gnet_io where
  "no_failures = \<lparr>peekFails = (\<lambda>_. False), discardFails = (\<lambda>_. False)\<rparr>"

definition after_frames :: "v3_ext \<Rightarrow> prometheus \<Rightarrow> client \<Rightarrow> bytes list \<times> bytes \<times> framer_err option \<Rightarrow> traffic" where
  "after_frames ext pr c r =
     (case r of (ps, rest, er) \<Rightarrow>
        (case responses ext ps c of
           None \<Rightarrow> Crash
         | Some c' \<Rightarrow> (case er of None \<Rightarrow> Went c' rest ActNone | Some x \<Rightarrow> Went (clientError pr errConnReadFailed c') rest ActClose)))"

lemma goslice_frame:
  assumes "0 \<le> lo" "lo \<le> hi" "hi \<le> n" "n \<le> int (length buf)"
  shows "goslice (take (nat n) buf) lo hi = Some (take (nat (hi - lo)) (drop (nat lo) buf))"
proof -
  have "take (nat (hi - lo)) (drop (nat lo) (take (nat n) buf)) = take (nat (hi - lo)) (drop (nat lo) buf)"
    using assms by (simp add: drop_take min_def)
  then show ?thesis using assms by (simp add: goslice_def)
qed

lemma tcp_loop_reads_all:
  assumes "framer_wf fr"
  shows "tcp_loop ext pr no_failures fr n buf c = Some (after_frames ext pr c (read_all (ReadFrame fr) ErrIncompleteFrame buf))"
proof (induction buf arbitrary: n c rule: measure_induct_rule [where f = length])
  case (less buf)
  show ?case
  proof (cases "buf = []")
    case True
    then show ?thesis by (simp add: tcp_loop.simps read_all.simps after_frames_def)
  next
    case ne: False
    show ?thesis
    proof (cases "ReadFrame fr buf")
      case (Inl er)
      then have "er \<noteq> FramerPanic" using ReadFrame_no_panic [OF assms, of buf] by auto
      then show ?thesis using ne Inl
        by (simp add: tcp_loop.simps [of _ _ _ _ _ buf] read_all.simps [of _ _ buf] after_frames_def no_failures_def)
    next
      case (Inr r)
      obtain len lo hi where r: "r = (len, lo, hi)" by (cases r)
      note f = Inr [unfolded r]
      note b = lf.progress [OF assms f]
      let ?p = "take (nat (hi - lo)) (drop (nat lo) buf)"
      obtain ps rest er where ra: "read_all (ReadFrame fr) ErrIncompleteFrame (drop (nat len) buf) = (ps, rest, er)"
        by (metis prod.exhaust)
      have all: "read_all (ReadFrame fr) ErrIncompleteFrame buf = (?p # ps, rest, er)"
        using lf.read_all_frame [OF assms f] ra by simp
      have IH: "tcp_loop ext pr no_failures fr (n + 2) (drop (nat len) buf) c' = Some (after_frames ext pr c' (ps, rest, er))" for c'
        using less [of "drop (nat len) buf"] b ne ra by simp
      have g: "goslice (take (nat len) buf) lo hi = Some ?p" using b by (intro goslice_frame) auto
      show ?thesis
        using ne f g IH by (subst tcp_loop.simps) (simp add: all after_frames_def no_failures_def split: option.splits)
    qed
  qed
qed

text \<open>
  C18. A V3 client treats a TCP connection as one stream. The loop over the frames in the buffer always ends, and
  it does not matter how the network cuts the stream: when the first piece was handled without closing the
  connection, handling the bytes left over together with the next piece has the same effect on the
  client, leaves the same bytes and gives the same verdict as handling both pieces at once.
\<close>

theorem traffic_chunking:
  assumes "cframer c = Some fr" and "framer_wf fr" and "isV3 (coptions c)" and "\<not> isUDP (coptions c)"
    and "OnTraffic ext pr no_failures xs c = Some (Went c' rest ActNone)"
  shows "OnTraffic ext pr no_failures (xs @ ys) c = OnTraffic ext pr no_failures (rest @ ys) c' \<and>
    (\<exists>t. OnTraffic ext pr no_failures (xs @ ys) c = Some t)"
proof -
  let ?ra = "read_all (ReadFrame fr) ErrIncompleteFrame"
  have T: "OnTraffic ext pr no_failures buf c = Some (after_frames ext pr c (?ra buf))"
    if "cframer c = Some fr" "isV3 (coptions c)" "\<not> isUDP (coptions c)" for buf c
    using that by (simp add: OnTraffic_def tcp_loop_reads_all [OF assms(2)])
  obtain ps er where x: "?ra xs = (ps, rest, None)" and r: "responses ext ps c = Some c'"
    using assms(5) T [OF assms(1,3,4)] by (cases "?ra xs") (auto simp: after_frames_def split: option.splits)
  have "data_moved c c'" by (rule OnTraffic_moved [OF assms(5)])
  then have c': "cframer c' = Some fr" "isV3 (coptions c')" "\<not> isUDP (coptions c')" using assms(1,3,4) by (simp_all add: data_moved_def)
  obtain qs rest' er' where y: "?ra (rest @ ys) = (qs, rest', er')" by (metis prod.exhaust)
  have "?ra (xs @ ys) = (ps @ qs, rest', er')" using lf.read_all_append [OF assms(2) x, of ys] y by simp
  then have "after_frames ext pr c (?ra (xs @ ys)) = after_frames ext pr c' (?ra (rest @ ys))"
    using r y by (simp add: after_frames_def responses_append)
  then show ?thesis using T [OF assms(1,3,4), of "xs @ ys"] T [OF c', of "rest @ ys"] by simp
qed

lemma example_init: "cinit ([], example_client)"
proof -
  have "initAll example_env (newClient example_options) = (example_client, None)"
    using example_evals(1) by (simp add: example_client_def prod_eq_iff)
  moreover have "inj run_uuid" by (rule injI) (simp add: run_uuid_def replicate_eq_replicate)
  moreover have "dns_env_ok (dnsEnv example_env)" by (simp add: example_env_def sample_dns_env_def dns_env_ok_def)
  moreover have "workerUuid example_env i = run_uuid" for i by (simp add: example_env_def)
  moreover have "0 \<le> MaxRetries example_options" "WorkerNum example_options < 2 ^ 63"
    using example_evals(2,3) by simp_all
  ultimately show ?thesis unfolding cinit_def fst_conv snd_conv
    using example_options_ok by (intro conjI refl exI [of _ example_env] exI [of _ example_options] allI) simp_all
qed

lemma example_reachable: "creachable ext pr ([], example_client)"
  by (rule reach_init) (rule example_init)

lemma example_sent_reachable: "creachable ext sample_prometheus ([5], example_sent)"
proof (rule reach_step [OF example_reachable])
  show "cstep ext sample_prometheus ([], example_client) ([5], example_sent)"
    using cstep.send [of ext sample_prometheus "[]" example_client True 5 0 True msg1 True] by (simp add: example_sent_def)
qed

section \<open>Requests\<close>

lemma sum_ledgers:
  assumes "works ss o' ws"
  shows "(\<Sum>w \<leftarrow> ws. calls i (log w) + Worker_Inv.owed i (Worker_Inv.held w)) = count_list (concat ss) i"
  using assms
proof (induction ws arbitrary: ss rule: rev_induct)
  case Nil
  then show ?case by (simp add: works_def)
next
  case (snoc w ws)
  obtain s ss' where ss: "ss = ss' @ [s]" using worksD(2) [OF snoc.prems] by (cases ss rule: rev_cases) auto
  have l: "length ss' = length ws" using worksD(2) [OF snoc.prems] ss by simp
  have "works ss' o' ws"
    unfolding works_def
  proof (intro conjI allI impI)
    fix k assume "k < length ws"
    then show "reachable (ss' ! k, ws ! k)" "windex (ws ! k) = int k" "wopts (ws ! k) = o'"
      using worksD(1) [OF snoc.prems, of k] l by (simp_all add: ss nth_append)
  qed (rule l)
  moreover have "(ss' @ [s]) ! length ws = s" using nth_append_length [of ss' s "[]"] l by simp
  then have "reachable (s, w)" using worksD(1) [OF snoc.prems, of "length ws"] by (simp add: ss)
  ultimately show ?case using snoc.IH ledger_of [of s w] by (simp add: ss ledger_def)
qed

lemma client_total:
  assumes "creachable ext pr (subs, c)"
  shows "count_list (refused c) i + (\<Sum>w \<leftarrow> workers c. calls i (log w) + Worker_Inv.owed i (Worker_Inv.held w)) = count_list subs i"
proof -
  have "client_inv (subs, c)" by (rule crun.reach_inv [OF assms])
  then obtain ss where ss: "works ss (coptions c) (workers c)" "mset subs = mset (refused c) + mset (concat ss)"
    by (auto simp: client_inv_def cinv_def)
  have "count_list subs i = count_list (refused c) i + count_list (concat ss) i"
    using arg_cong [OF ss(2), of "\<lambda>M. count M i"] unfolding count_union count_mset .
  with sum_ledgers [OF ss(1), of i] show ?thesis by simp
qed



section \<open>The components of a client\<close>



section \<open>Closing\<close>

lemma closed_client:
  assumes "creachable ext pr (subs, c)" "\<not> netClient c"
  shows "cclosing c = ClosedAll \<and> dns_stopped c \<and> closed_upto (length (workers c)) (length (workers c)) c \<and>
    (\<exists>s. cpool c = Some s \<and> closeOnce s = OnceDone)"
proof -
  have "close_ok c" using crun.reach_inv [OF assms(1)] by (simp add: client_inv_def)
  then show ?thesis using assms(2) by (cases "cclosing c") (simp_all add: close_ok_def)
qed

lemma closed_worker_empty:
  assumes "reachable (own, w)" "wstate w = stateClosed" "isV3 (wopts w)"
  shows "Worker_Inv.held w = {#}"
proof -
  have c: "Worker_Run.closed w" using winvD(2) [OF reachable_winv [OF assms(1)]] assms(2) by (auto simp: phase_def phase_defs)
  from closed_v3_empty [OF reachable_base [OF assms(1)] c assms(3)] show ?thesis .
qed


lemma map_nth_eq: "map f xs = ys \<Longrightarrow> k < length ys \<Longrightarrow> k < length xs \<and> f (xs ! k) = ys ! k"
  by auto

lemma example_closed: "\<exists>c. creachable ext pr ([], c) \<and> \<not> netClient c"
proof -
  obtain c where c: "(calone ext pr)\<^sup>*\<^sup>* ([], example_client) ([], c)" "cclosing c = ClosedAll"
    using client_finishes [OF crun.reach_inv [OF example_reachable], of ext pr] by (auto simp: can_finish_def)
  have r: "creachable ext pr ([], c)" by (rule alone_reachable [OF c(1) example_reachable])
  then have "\<not> netClient c" using crun.reach_inv [OF r] c(2) by (simp add: client_inv_def close_ok_def)
  with r show ?thesis by blast
qed




section \<open>Responses\<close>

lemma worker_index_of_id:
  assumes "windex w = int k" "k < 2 ^ 63"
  shows "getWorkerIndex (buildBatchID (indexStr w) u) = int k"
proof -
  have "getWorkerIndex (buildBatchID (Itoa (int k)) u) = int k"
  proof -
    have i: "Index (buildBatchID (Itoa (int k)) u) CHR '':'' = int (length (Itoa (int k)))"
      using Index_append [OF Itoa_no_colon, of "int k" u] by (simp add: buildBatchID_def)
    have "0 < length (Itoa (int k))" by simp
    moreover have "take (length (Itoa (int k))) (buildBatchID (Itoa (int k)) u) = Itoa (int k)" by (simp add: buildBatchID_def)
    moreover have "Atoi (Itoa (int k)) = Some (int k)" using assms(2) by (intro Atoi_Itoa) simp_all
    ultimately show ?thesis by (simp add: getWorkerIndex_def i)
  qed
  then show ?thesis using assms(1) by (simp add: indexStr_def)
qed

lemma waiting_id:
  assumes "reachable (own, w)" "map_of (unackedBatches w) bid = Some p \<or> map_of (retryingBatches w) bid = Some p"
  shows "\<exists>u. bid = buildBatchID (indexStr w) u"
proof -
  note b = reachable_base [OF assms(1)]
  have "p \<in> snd ` set (unackedBatches w) \<union> snd ` set (retryingBatches w)"
    using assms(2) by (auto dest!: map_of_SomeD intro: rev_image_eqI)
  then have "p \<in> set (tracked w)" by (auto simp: tracked_def)
  then have "\<not> finished (heap w p)" using baseD(8) [OF b] by (auto simp: trk_ok_def)
  then have "batchID (heap w p) \<in> issued w" using baseD(4) [OF b] by (auto simp: ids_ok_def)
  moreover have "batchID (heap w p) = bid" using assms(2) keyed_lookup [OF baseD(6) [OF b]] keyed_lookup [OF baseD(7) [OF b]] by blast
  ultimately show ?thesis by (auto simp: issued_def)
qed

text \<open>
  C16. A response finds the worker that sent the batch: when a worker waits for the response to a batch (or for
  the retry of it) and a response that names this batch arrives, the client hands it, with its code,
  message and sequence numbers, to that worker's event loop and changes no other worker.
\<close>

theorem response_reaches_its_worker:
  assumes "creachable ext pr (subs, c)" and "k < length (workers c)"
    and "map_of (unackedBatches (workers c ! k)) bid = Some p \<or> map_of (retryingBatches (workers c ! k)) bid = Some p"
    and "DecodeV3Rsp ext data (NoFrameHeader (coptions c)) False (nat (PayloadBytesToTrip (coptions c))) (EncryptKey (coptions c)) =
      Inr \<lparr>rspHeader = Some \<lparr>rspReqID = bid, Code = cd, Msg = txt\<rparr>, rspBody = Rsp_LogRsp seqs\<rparr>"
  shows "onResponse ext data c = Some (c\<lparr>workers := (workers c)[k :=
      onRsp \<lparr>rspBatchID = bid, rspCode = cd, rspMsg = txt, rspSeqs = seqs\<rparr> (workers c ! k)]\<rparr>)"
proof -
  have ci: "client_inv (subs, c)" by (rule crun.reach_inv [OF assms(1)])
  then obtain ss where ss: "works ss (coptions c) (workers c)" and sz: "length (workers c) < 2 ^ 63" by (auto simp: client_inv_def cinv_def)
  from worksD(1) [OF ss assms(2)] have w: "reachable (ss ! k, workers c ! k)" "windex (workers c ! k) = int k" by auto
  from waiting_id [OF w(1) assms(3)] obtain u where "bid = buildBatchID (indexStr (workers c ! k)) u" by blast
  moreover have "k < 2 ^ 63" using assms(2) sz by simp
  ultimately have "getWorkerIndex bid = int k" using worker_index_of_id [OF w(2)] by simp
  then show ?thesis using assms(2,4) by (simp add: onResponse_def Let_def)
qed

lemma example_waiting_reachable: "creachable ext sample_prometheus ([5], example_waiting)"
proof -
  obtain w where w: "wstep quick_env TakeData (workers example_sent ! 0) = Some w" using example_waiting_facts(2) by (rule not_None_eq [THEN iffD1, THEN exE])
  have "range_order (wOrd quick_env)" by (simp add: quick_env_def run_env_def)
  from cstep.worker [OF _ _ this w, of ext sample_prometheus "[5]"]
  have "cstep ext sample_prometheus ([5], example_sent) ([5], worker_did sample_prometheus 0 w example_sent)"
    by (simp add: example_waiting_facts(1))
  from reach_step [OF example_sent_reachable this] show ?thesis unfolding example_waiting_def w option.case .
qed

theorem response_reaches_its_worker_witness:
  "onResponse sample_ext example_response example_waiting = Some (example_waiting\<lparr>workers := (workers example_waiting)[0 :=
     onRsp \<lparr>rspBatchID = ''0:'', rspCode = 0, rspMsg = [], rspSeqs = []\<rparr> (workers example_waiting ! 0)]\<rparr>)"
  using response_reaches_its_worker [OF example_waiting_reachable _ disjI1 [OF example_waiting_facts(4)] example_waiting_facts(5)]
  by (simp add: example_waiting_facts(3))

definition example_answered :: client where
  "example_answered = example_client\<lparr>workers := (workers example_client)[0 :=
     onRsp \<lparr>rspBatchID = ''0:'', rspCode = 0, rspMsg = [], rspSeqs = []\<rparr> (workers example_client ! 0)]\<rparr>"

lemma example_responds: "onResponse sample_ext example_response example_client = Some example_answered"
  using example_decodes_client example_evals(10) by (simp add: onResponse_def example_answered_def Let_def)

text \<open>A whole frame and the first byte of the next one, then the rest of it.\<close>

theorem traffic_chunking_witness:
  "OnTraffic sample_ext sample_prometheus no_failures ((example_response @ [18]) @ [52, 0, 0]) example_client =
   OnTraffic sample_ext sample_prometheus no_failures ([18] @ [52, 0, 0]) example_answered"
proof -
  have 1: "ReadFrame v3_default_framer (example_response @ [18]) = Inr (12, 0, 12)"
    by (simp add: ReadFrame_def Let_def v3_default_framer_def v3_default_cfg_def example_response_def
        int64_def goslice_def readLenField_def GetUint_def be_get_def)
  have 2: "ReadFrame v3_default_framer [18] = Inl ErrIncompleteFrame"
    by (simp add: ReadFrame_def Let_def v3_default_framer_def v3_default_cfg_def int64_def)
  have "goslice (take (nat 12) (example_response @ [18])) 0 12 = Some example_response"
    "drop (nat 12) (example_response @ [18]) = [18]" "example_response @ [18] \<noteq> []"
    by (simp_all add: goslice_def example_response_def)
  with 1 2 have "OnTraffic sample_ext sample_prometheus no_failures (example_response @ [18]) example_client =
      Some (Went example_answered [18] ActNone)"
    using example_evals(5-7) by (simp add: OnTraffic_def tcp_loop.simps no_failures_def example_responds)
  from traffic_chunking [OF example_evals(5) v3_default_framer_wf example_evals(6,7) this, of "[52, 0, 0]"] show ?thesis by simp
qed

section \<open>Rotation\<close>

text \<open>\<open>n\<close> calls of \<^verbatim>\<open>getWorker\<close> in a row, and what each returned.\<close>

fun getWorkers :: "prometheus \<Rightarrow> nat \<Rightarrow> client \<Rightarrow> client \<times> nat option list" where
  "getWorkers pr 0 c = (c, [])"
| "getWorkers pr (Suc n) c =
     (case getWorker pr c of (c1, r) \<Rightarrow> (case getWorkers pr n c1 of (c2, rs) \<Rightarrow> (c2, r # rs)))"

definition turn :: "client \<Rightarrow> nat \<Rightarrow> nat option" where
  "turn c k = (if available (workers c ! k) then Some k else None)"

lemma getWorkers_spec:
  assumes "workers c \<noteq> []" "length (workers c) < 2 ^ 63" "unat (curWorkerIndex c) + n \<le> 2 ^ 64"
  shows "snd (getWorkers pr n c) = map (\<lambda>j. turn c (j mod length (workers c))) [unat (curWorkerIndex c)..<unat (curWorkerIndex c) + n]"
  using assms
proof (induction n arbitrary: c)
  case (Suc n)
  let ?u = "unat (curWorkerIndex c)" and ?k = "unat (curWorkerIndex c) mod length (workers c)"
  obtain c1 r where g: "getWorker pr c = (c1, r)" by (cases "getWorker pr c")
  have c1: "workers c1 = workers c" "curWorkerIndex c1 = curWorkerIndex c + 1" "r = turn c ?k"
    using g getWorker_spec(1) [OF Suc.prems(1,2), of pr] by (auto simp: Let_def turn_def clientError_def split: if_splits)
  have t: "turn c1 = turn c" by (simp add: turn_def c1(1) fun_eq_iff)
  show ?case
  proof (cases n)
    case 0
    then show ?thesis using g c1(3) by simp
  next
    case (Suc m)
    have "?u + 1 < 2 ^ LENGTH(64)" using Suc.prems(3) Suc by simp
    then have u: "unat (curWorkerIndex c1) = ?u + 1" unfolding c1(2) by (simp add: unat_word_ariths)
    have "snd (getWorkers pr n c1) = map (\<lambda>j. turn c (j mod length (workers c))) [?u + 1..<?u + 1 + n]"
      using Suc.IH [of c1] Suc.prems u by (simp add: c1(1) t)
    moreover have "[?u..<?u + Suc n] = ?u # [?u + 1..<?u + 1 + n]" by (simp add: upt_conv_Cons)
    ultimately show ?thesis using g c1(3) by (simp add: case_prod_beta del: upt_Suc)
  qed
qed simp

lemma mod_window:
  assumes "0 < (n :: nat)"
  shows "mset (map (\<lambda>j. j mod n) [u..<u + n]) = mset [0..<n]"
proof -
  have "inj_on (\<lambda>j. j mod n) {u..<u + n}"
  proof (rule inj_onI)
    fix x y assume "x \<in> {u..<u + n}" "y \<in> {u..<u + n}" "x mod n = y mod n"
    then show "x = y" using mod_eq_dvd_iff_nat [of x y n] mod_eq_dvd_iff_nat [of y x n] by (cases x y rule: linorder_cases) (auto dest!: dvd_imp_le)
  qed
  then have d: "distinct (map (\<lambda>j. j mod n) [u..<u + n])" by (simp add: distinct_map)
  then have "card (set (map (\<lambda>j. j mod n) [u..<u + n])) = n" using distinct_card by fastforce
  moreover have "set (map (\<lambda>j. j mod n) [u..<u + n]) \<subseteq> {0..<n}" using assms by auto
  ultimately have "set (map (\<lambda>j. j mod n) [u..<u + n]) = set [0..<n]" by (simp add: card_subset_eq)
  with d show ?thesis by (metis distinct_upt set_eq_iff_mset_eq_distinct)
qed

text \<open>
  C23. Requests are spread evenly: any \<open>n\<close> requests in a row, where \<open>n\<close> is the number of workers, are offered to
  every worker exactly once; a worker without a free permit refuses its turn, whatever the state of the
  others, and no other worker is tried instead. (The 64-bit counter must not overflow in between.)
\<close>

theorem rotation_visits_all:
  assumes "creachable ext pr (subs, c)" and "unat (curWorkerIndex c) + length (workers c) \<le> 2 ^ 64"
  shows "mset (snd (getWorkers pr (length (workers c)) c)) =
    mset (map (\<lambda>k. if available (workers c ! k) then Some k else None) [0..<length (workers c)])"
proof -
  have "client_inv (subs, c)" by (rule crun.reach_inv [OF assms(1)])
  then have sz: "workers c \<noteq> []" "length (workers c) < 2 ^ 63" by (auto simp: client_inv_def dest: cinv_sizes)
  let ?n = "length (workers c)" and ?u = "unat (curWorkerIndex c)"
  have "snd (getWorkers pr ?n c) = map (turn c) (map (\<lambda>j. j mod ?n) [?u..<?u + ?n])"
    using getWorkers_spec [OF sz assms(2)] by (simp add: comp_def)
  then have "mset (snd (getWorkers pr ?n c)) = image_mset (turn c) (mset (map (\<lambda>j. j mod ?n) [?u..<?u + ?n]))" by (simp only: mset_map)
  also have "\<dots> = mset (map (turn c) [0..<?n])" using sz(1) by (subst mod_window) (simp_all only: length_greater_0_conv mset_map not_False_eq_True)
  finally show ?thesis by (simp add: turn_def [abs_def])
qed

theorem rotation_visits_all_witness:
  "mset (snd (getWorkers sample_prometheus 2 example_client)) = {#Some 0, Some 1#}"
proof -
  note example_evals(11,12)
  then show ?thesis
    using rotation_visits_all [OF example_reachable [of sample_ext sample_prometheus]] example_evals(10)
      map_nth_eq [of available "workers example_client" _ 0] map_nth_eq [of available "workers example_client" _ 1]
    by (simp add: upt_rec)
qed

section \<open>Discovery\<close>

lemma distinct_singleton: "distinct xs \<Longrightarrow> set xs = {a} \<Longrightarrow> xs = [a]"
  by (cases xs; cases "tl xs") auto

lemma tick_spec:
  assumes "dns_inv d" "dns_env_ok e" "dns_tick e d = Some d'"
  shows "dns_inv d' \<and> eventHandlers d' = eventHandlers d \<and>
    (let A = set (endpointList d'); B = set (endpointList d) in
     \<exists>ns. notified d' = notified d @ ns \<and> (A = B \<longrightarrow> ns = []) \<and> (A \<noteq> B \<longrightarrow> map nHandler ns = handlerOrd e (eventHandlers d)) \<and>
       (\<forall>n \<in> set ns. set (nAll n) = A \<and> set (nAdd n) = A - B \<and> set (nDel n) = B - A))"
proof -
  have "d' = lookup e d" using assms(3) by (auto simp: dns_tick_def split: if_splits)
  with lookup_spec [OF assms(1,2)] show ?thesis by simp
qed

text \<open>
  C24. A change of the resolved addresses reaches the connection pool: when a lookup of a running client's
  discoverer changes the set of endpoints, one call of the pool's endpoint update is made, with the addresses
  of exactly the new endpoints, of those that were added and of those that are gone; when the set is the
  same, no call is made.
\<close>

theorem endpoint_change_reaches_pool:
  assumes "creachable ext pr (subs, c)" and "discoverer c = Some d" and "dns_env_ok e" and "dns_tick e d = Some d'"
  defines "A \<equiv> set (endpointList d')" and "B \<equiv> set (endpointList d)"
  shows "\<exists>s. cpool c = Some s \<and>
    (A = B \<longrightarrow> cpool (dns_did d d' c) = Some s) \<and>
    (A \<noteq> B \<longrightarrow> (\<exists>alls adds dels. cpool (dns_did d d' c) = Some (s\<lparr>thr := thr s @ [UpdateCall alls adds dels]\<rparr>) \<and>
       set alls = epAddr ` A \<and> set adds = epAddr ` (A - B) \<and> set dels = epAddr ` (B - A)))"
proof -
  have cf: "closeFunc d" using assms(4) by (auto simp: dns_tick_def split: if_splits)
  have ci: "client_inv (subs, c)" by (rule crun.reach_inv [OF assms(1)])
  then obtain s where s: "cpool c = Some s" by (auto simp: client_inv_def cinv_def pool_ok_def)
  have d: "eventHandlers d = [0]" "dns_inv d" using ci assms(2) cf by (auto simp: client_inv_def cinv_def dns_ok_def)
  obtain ns where ns: "notified d' = notified d @ ns" "A = B \<longrightarrow> ns = []" "A \<noteq> B \<longrightarrow> map nHandler ns = handlerOrd e [0]"
    and each: "\<forall>n \<in> set ns. set (nAll n) = A \<and> set (nAdd n) = A - B \<and> set (nDel n) = B - A"
    using tick_spec [OF d(2) assms(3,4)] d(1) by (auto simp: Let_def A_def B_def)
  show ?thesis
  proof (cases "A = B")
    case True
    then show ?thesis using s ns(1,2) by (simp add: dns_did_def)
  next
    case False
    have "handlerOrd e [0] = [0]"
      using range_orderD [of "handlerOrd e" "[0 :: nat]"] assms(3) by (intro distinct_singleton) (simp_all add: dns_env_ok_def)
    with ns(3) False obtain n where n: "ns = [n]" "nHandler n = 0" by auto
    then have "dns_did d d' c = OnEndpointUpdate (nAll n) (nAdd n) (nDel n) (c\<lparr>discoverer := Some d'\<rparr>)"
      using ns(1) by (simp add: dns_did_def)
    then have "cpool (dns_did d d' c) =
        Some (s\<lparr>thr := thr s @ [UpdateCall (map epAddr (nAll n)) (map epAddr (nAdd n)) (map epAddr (nDel n))]\<rparr>)"
      using s by (simp add: OnEndpointUpdate_def poolCalls_def Addresses_def)
    moreover have "set (nAll n) = A" "set (nAdd n) = A - B" "set (nDel n) = B - A" using each n(1) by simp_all
    ultimately show ?thesis using s False by (metis set_map)
  qed
qed

lemma named_init: "cinit ([], example_named)"
proof -
  have "initAll named_env (newClient example_options) = (example_named, None)"
    using named_evals(1) by (simp add: example_named_def prod_eq_iff)
  moreover have "inj run_uuid" by (rule injI) (simp add: run_uuid_def replicate_eq_replicate)
  moreover have "dns_env_ok (dnsEnv named_env)" "\<forall>i. workerUuid named_env i = run_uuid"
    by (simp_all add: named_env_def example_env_def sample_dns_env_def dns_env_ok_def)
  moreover have "0 \<le> MaxRetries example_options" "WorkerNum example_options < 2 ^ 63" using example_evals(2,3) by simp_all
  ultimately show ?thesis unfolding cinit_def fst_conv snd_conv
    using example_options_ok by (intro conjI refl exI [of _ named_env] exI [of _ example_options] allI) simp_all
qed

lemma named_reachable: "creachable ext pr ([], example_named)"
  by (rule reach_init) (rule named_init)

theorem endpoint_change_reaches_pool_witness:
  "\<exists>s alls adds dels. cpool (dns_did named_dns named_dns_later example_named) = Some (s\<lparr>thr := thr s @ [UpdateCall alls adds dels]\<rparr>) \<and>
     set alls = {BuildAddr ''c'' 80} \<and> set adds = {} \<and> set dels = {BuildAddr ''b'' 80}"
proof -
  obtain d where "discoverer example_named = Some d" using named_evals(2) by blast
  then have d: "discoverer example_named = Some named_dns" by (simp add: named_dns_def)
  obtain d' where "dns_tick later_dns_env named_dns = Some d'" using named_evals(3) by blast
  then have d': "dns_tick later_dns_env named_dns = Some named_dns_later" by (simp add: named_dns_later_def)
  have "dns_env_ok later_dns_env" by (simp add: later_dns_env_def sample_dns_env_def dns_env_ok_def)
  note w = endpoint_change_reaches_pool [OF named_reachable [of sample_ext sample_prometheus] d this d', unfolded named_evals(4,5)]
  have "{mkEndpoint 80 ''c''} - mkEndpoint 80 ` {''c'', ''b''} = {}" "mkEndpoint 80 ` {''c'', ''b''} - {mkEndpoint 80 ''c''} = {mkEndpoint 80 ''b''}"
    by (auto simp: mkEndpoint_inj)
  with w show ?thesis by (auto simp: mkEndpoint_inj mkEndpoint_def)
qed

text \<open>What was built before a failure can be closed.\<close>

definition closable :: "client \<Rightarrow> bool" where
  "closable c \<longleftrightarrow> cclosing c = NotClosing \<and> (\<forall>d. discoverer c = Some d \<longrightarrow> dns_Close d \<noteq> None)"

lemma NewDNS_closable: "NewDNS e isIP' ips h p i = Inr d \<Longrightarrow> dns_Close (AddEventHandler hd' d) \<noteq> None"
  by (auto simp: NewDNS_def Let_def dns_Close_def AddEventHandler_def split: if_splits)

lemma initWorkers_loop_closable: "closable c \<Longrightarrow> closable (fst (initWorkers_loop e n c))"
  by (induction e n c rule: initWorkers_loop.induct) (auto simp: closable_def Let_def split: sum.splits)

lemma initWorkers_closable: "closable c \<Longrightarrow> closable (fst (initWorkers e c))"
  unfolding initWorkers_def by (rule initWorkers_loop_closable) (simp add: closable_def)

lemma initDiscoverer_closable: "closable c \<Longrightarrow> closable (fst (initDiscoverer e c))"
  by (auto simp: closable_def initDiscoverer_def dest: NewDNS_closable split: sum.splits)

lemma init_closable:
  "closable (newClient o')" "closable c \<Longrightarrow> closable (fst (initMetrics e c))" "closable c \<Longrightarrow> closable (fst (initNetClient e c))"
  "closable c \<Longrightarrow> closable (fst (client_initConns e c))" "closable c \<Longrightarrow> closable (fst (initFramer c))"
  by (simp_all add: closable_def newClient_def initMetrics_def initNetClient_def client_initConns_def initFramer_def Let_def
      split: sum.splits option.splits)

lemma andThen_closable: "closable (fst r) \<Longrightarrow> (\<And>c. closable c \<Longrightarrow> closable (fst (f c))) \<Longrightarrow> closable (fst (andThen r f))"
  by (cases r) (auto simp: andThen_def split: option.splits)

lemma initAll_closable: "closable (fst (initAll e (newClient o')))"
  unfolding initAll_def by (intro andThen_closable init_closable initDiscoverer_closable initWorkers_closable)

lemma closable_begin: "closable c \<Longrightarrow> \<exists>c'. close_begin c = Some c' \<and> cclosing c' = CloseWorkers 0"
  by (auto simp: closable_def close_begin_def split: option.splits)

lemma initAll_ready:
  assumes "initAll e (newClient o') = (c, None)" "options_ok o'" "\<forall>i. inj (workerUuid e i)"
  shows "coptions c = o' \<and> length (workers c) = nat (WorkerNum o') \<and> netClient c \<and> (\<forall>w \<in> set (workers c). wstate w = stateReady) \<and>
    (isV3 o' \<and> isTCP o' \<longrightarrow> (\<exists>fr. cframer c = Some fr \<and> NewLengthField (framerCfg o') = Inr fr))"
  using assms(1)
proof (rule initAll_built)
  fix m d p fr c1
  assume fr: "isV3 o' \<and> isTCP o' \<Longrightarrow> \<exists>f. fr = Some f \<and> NewLengthField (framerCfg o') = Inr f"
    and w: "initWorkers_loop e (nat (WorkerNum o')) c1 = (c, None)"
    and c1: "c1 = (newClient o')\<lparr>cmetrics := Some m, discoverer := Some (AddEventHandler 0 d), netClient := True,
     cpool := Some (started p), cframer := fr\<rparr>"
  have ov: "one_version o'" "0 \<le> MaxRetries o'" using assms(2) by (auto simp: options_ok_def one_version_def)
  have "works [] (coptions c1) (workers c1)" "coptions c1 = o'" "workers c1 = []" by (simp_all add: c1 newClient_def works_def)
  with initWorkers_loop_ok [OF w, of "[]"] assms(3) ov have
    ss: "\<forall>w \<in> set (workers c). wstate w = stateReady" "c = c1\<lparr>workers := workers c\<rparr>" "length (workers c) = nat (WorkerNum o')" by auto
  have "coptions c = o'" "cframer c = fr" "netClient c" by (subst ss(2), simp add: c1 newClient_def)+
  then show ?thesis using ss fr by blast
qed



section \<open>Heartbeats\<close>

text \<open>
  A heartbeat gives its buffer back exactly once: for V3, whether the write fails at once, succeeds, or fails
  later in its callback (which gnet runs once, and only for a write it accepted), over TCP and UDP, one buffer
  is taken from the pool and one is put back; nothing at all happens for V1. Only when the request cannot be encoded is the buffer lost.
\<close>

theorem heartbeat_buffer_balance:
  fixes ext env o' uniq
  defines "enc \<equiv> (case heartbeatReq env o' uniq of (header, body) \<Rightarrow>
      EncodeV3Req ext header (Some body) (NoFrameHeader o') False False False False [] [] (Options.LittleEndian o'))"
    and "all \<equiv> (\<lambda>conn res er. SendHeartbeat ext env o' uniq conn res @ (if res = None then heartbeatCallback o' er else []))"
  shows "(isV1 o' \<longrightarrow> SendHeartbeat ext env o' uniq conn res = []) \<and>
    (\<not> isV1 o' \<longrightarrow>
      (\<forall>bs. enc = Inr bs \<longrightarrow> count_list (all conn res er) HbGetBuffer = 1 \<and> count_list (all conn res er) HbPutBuffer = 1 \<and>
         count_list (all conn res er) (HbWrite conn bs) = 1) \<and>
      (\<forall>x. enc = Inl x \<longrightarrow> SendHeartbeat ext env o' uniq conn res = [HbGetBuffer]))"
  by (auto simp: enc_def all_def SendHeartbeat_def heartbeatCallback_def split: prod.splits)

end
