(* ===== verification/Worker_Send.thy ===== *)
theory Worker_Send
  imports Worker
begin

text \<open>
  \<^verbatim>\<open>worker.send\<close>: the blocking send. It submits the message with a callback of its own and waits for that callback or
  for its context. The callback runs in another goroutine, and its three steps (the compare-and-swap of
  \<^verbatim>\<open>isDone\<close>, saving the error, closing \<^verbatim>\<open>doneCh\<close>) interleave with the caller and with further
  runs of the callback, of which any number may come, also after the caller has gone.
\<close>

section \<open>Submitting\<close>

definition send_submit :: "gotime \<Rightarrow> bool \<Rightarrow> nat \<Rightarrow> Message \<Rightarrow> worker \<Rightarrow> worker" where
  "send_submit t acquired i m w = doSendAsync t acquired i m True True w"

definition sendAsync :: "gotime \<Rightarrow> bool \<Rightarrow> nat \<Rightarrow> Message \<Rightarrow> bool \<Rightarrow> worker \<Rightarrow> worker" where
  "sendAsync t acquired i m callback w = doSendAsync t acquired i m callback False w"

section \<open>Waiting\<close>

datatype cb_pc = CbCall "goerror option" | CbSave "goerror option" | CbClose | CbRet

datatype send_result = ContextErr | Outcome "goerror option"

record send_sys =
  isDone :: bool
  sendErr :: "goerror option"
  doneCh :: nat                      \<comment> \<open>how often it was closed: twice would panic\<close>
  cbs :: "cb_pc list"
  sendRet :: "send_result option"
  reported :: "goerror option list"  \<comment> \<open>what the callback was called with so far\<close>

definition send_init :: "send_sys \<Rightarrow> bool" where
  "send_init s \<longleftrightarrow> s = \<lparr>isDone = False, sendErr = None, doneCh = 0, cbs = [], sendRet = None, reported = []\<rparr>"

inductive send_step :: "send_sys \<Rightarrow> send_sys \<Rightarrow> bool" where
  callback: "send_step s (s\<lparr>cbs := cbs s @ [CbCall e], reported := reported s @ [e]\<rparr>)"
| cas_first: "i < length (cbs s) \<Longrightarrow> cbs s ! i = CbCall e \<Longrightarrow> \<not> isDone s \<Longrightarrow>
    send_step s (s\<lparr>isDone := True, cbs := (cbs s)[i := CbSave e]\<rparr>)"
| cas_again: "i < length (cbs s) \<Longrightarrow> cbs s ! i = CbCall e \<Longrightarrow> isDone s \<Longrightarrow> send_step s (s\<lparr>cbs := (cbs s)[i := CbRet]\<rparr>)"
| save: "i < length (cbs s) \<Longrightarrow> cbs s ! i = CbSave e \<Longrightarrow> send_step s (s\<lparr>sendErr := e, cbs := (cbs s)[i := CbClose]\<rparr>)"
| close: "i < length (cbs s) \<Longrightarrow> cbs s ! i = CbClose \<Longrightarrow> send_step s (s\<lparr>doneCh := doneCh s + 1, cbs := (cbs s)[i := CbRet]\<rparr>)"
| context_done: "sendRet s = None \<Longrightarrow> send_step s (s\<lparr>sendRet := Some ContextErr\<rparr>)"
| outcome: "sendRet s = None \<Longrightarrow> 0 < doneCh s \<Longrightarrow> send_step s (s\<lparr>sendRet := Some (Outcome (sendErr s))\<rparr>)"

inductive_cases send_stepE: "send_step s t"

section \<open>The callback closes once\<close>

fun winner :: "cb_pc \<Rightarrow> bool" where
  "winner (CbSave e) = True"
| "winner CbClose = True"
| "winner _ = False"

fun says :: "goerror option list \<Rightarrow> goerror option \<Rightarrow> cb_pc \<Rightarrow> bool" where
  "says rs er (CbCall e) = (e \<in> set rs)"
| "says rs er (CbSave e) = (e \<in> set rs)"
| "says rs er CbClose = (er \<in> set rs)"
| "says rs er CbRet = True"

definition send_inv :: "send_sys \<Rightarrow> bool" where
  "send_inv s \<longleftrightarrow>
     cnt winner (cbs s) + int (doneCh s) = of_bool (isDone s) \<and>
     (\<forall>pc \<in> set (cbs s). says (reported s) (sendErr s) pc) \<and>
     (0 < doneCh s \<longrightarrow> sendErr s \<in> set (reported s)) \<and>
     (\<forall>e. sendRet s = Some (Outcome e) \<longrightarrow> 0 < doneCh s \<and> e = sendErr s) \<and>
     (reported s \<noteq> [] \<longrightarrow> isDone s \<or> (\<exists>e. CbCall e \<in> set (cbs s)))"

lemma says_more: "says rs er pc \<Longrightarrow> says (rs @ es) er pc"
  by (cases pc) auto

lemma only_winner:
  assumes "send_inv s" "i < length (cbs s)" "winner (cbs s ! i)"
  shows "doneCh s = 0 \<and> isDone s \<and> (\<forall>pc \<in> set ((cbs s)[i := x]). winner pc \<longrightarrow> pc = x)"
proof -
  have c: "cnt winner (cbs s) + int (doneCh s) \<le> 1" "0 < cnt winner (cbs s)"
    using assms cnt_pos [of "cbs s ! i" "cbs s" winner] by (auto simp: send_inv_def)
  have "\<not> (\<exists>pc \<in> set ((cbs s)[i := CbRet]). winner pc)"
    using c cnt_update [OF assms(2), of winner CbRet] assms(3) cnt_pos [of _ "(cbs s)[i := CbRet]" winner] by force
  then have "\<forall>pc \<in> set ((cbs s)[i := x]). winner pc \<longrightarrow> pc = x"
    using assms(2) by (auto simp: set_conv_nth nth_list_update)
  moreover have "cnt winner (cbs s) + int (doneCh s) = of_bool (isDone s)" using assms(1) by (simp add: send_inv_def)
  ultimately show ?thesis using c by (cases "isDone s") auto
qed

lemma says_nth: "send_inv s \<Longrightarrow> i < length (cbs s) \<Longrightarrow> says (reported s) (sendErr s) (cbs s ! i)"
  by (simp add: send_inv_def)

lemma update_says:
  "send_inv s \<Longrightarrow> says (reported s) (sendErr s) x \<Longrightarrow> \<forall>pc \<in> set ((cbs s)[i := x]). says (reported s) (sendErr s) pc"
  by (auto simp: send_inv_def dest: set_update_subset_insert [THEN subsetD])

lemma send_inv_step:
  assumes inv: "send_inv s" and st: "send_step s t"
  shows "send_inv t"
  using st
proof cases
  case (callback e)
  then show ?thesis using inv by (auto simp: send_inv_def says_more)
next
  case (cas_first i e)
  have "says (reported s) (sendErr s) (CbSave e)" using says_nth [OF inv cas_first(2)] cas_first(3) by simp
  note u = update_says [OF inv this, of i]
  show ?thesis using inv cas_first u cnt_update [of i "cbs s" winner "CbSave e"] by (auto simp: send_inv_def)
next
  case (cas_again i e)
  have u: "\<forall>pc \<in> set ((cbs s)[i := CbRet]). says (reported s) (sendErr s) pc" by (rule update_says [OF inv]) simp
  show ?thesis using inv cas_again u cnt_update [of i "cbs s" winner CbRet] by (auto simp: send_inv_def)
next
  case (save i e)
  note w = only_winner [OF inv save(2), of CbClose]
  have e: "e \<in> set (reported s)" using says_nth [OF inv save(2)] save(3) by simp
  have "says (reported s) e pc" if "pc \<in> set ((cbs s)[i := CbClose])" for pc
  proof -
    have "pc = CbClose \<or> says (reported s) (sendErr s) pc \<and> \<not> winner pc"
      using that w save inv set_update_subset_insert [of "cbs s" i CbClose] by (auto simp: send_inv_def)
    then show ?thesis using e by (elim disjE) (simp, cases pc, simp_all)
  qed
  then show ?thesis using inv save w cnt_update [of i "cbs s" winner CbClose] by (auto simp: send_inv_def)
next
  case (close i)
  note w = only_winner [OF inv close(2), of CbRet]
  have e: "sendErr s \<in> set (reported s)" using says_nth [OF inv close(2)] close(3) by simp
  have u: "\<forall>pc \<in> set ((cbs s)[i := CbRet]). says (reported s) (sendErr s) pc" by (rule update_says [OF inv]) simp
  show ?thesis using inv close w u e cnt_update [of i "cbs s" winner CbRet] by (auto simp: send_inv_def)
next
  case outcome
  then show ?thesis using inv by (auto simp: send_inv_def)
qed (use inv in \<open>auto simp: send_inv_def\<close>)

interpretation sending: inductive_invariant send_init send_step send_inv
proof unfold_locales
  show "send_init s \<Longrightarrow> send_inv s" for s by (simp add: send_init_def send_inv_def)
qed (rule send_inv_step)

section \<open>What the caller gets\<close>

lemma reported_finishes:
  assumes "send_inv s" "reported s \<noteq> []" "sendRet s = None"
  shows "\<exists>t e. send_step\<^sup>*\<^sup>* s t \<and> sendRet t = Some (Outcome e)"
proof -
  have closed: "\<exists>t e. send_step u t \<and> sendRet t = Some (Outcome e)" if "sendRet u = None" "0 < doneCh u" for u
    using send_step.outcome [OF that] by (intro exI [of _ "u\<lparr>sendRet := Some (Outcome (sendErr u))\<rparr>"]) simp
  have saved: "\<exists>t e. send_step\<^sup>*\<^sup>* u t \<and> sendRet t = Some (Outcome e)"
    if i: "i < length (cbs u)" "cbs u ! i = CbClose" and ret: "sendRet u = None" for u i
  proof -
    obtain t e where "send_step (u\<lparr>doneCh := doneCh u + 1, cbs := (cbs u)[i := CbRet]\<rparr>) t" "sendRet t = Some (Outcome e)"
      using closed [of "u\<lparr>doneCh := doneCh u + 1, cbs := (cbs u)[i := CbRet]\<rparr>"] ret by auto
    then show ?thesis using send_step.close [OF i] by (meson converse_rtranclp_into_rtranclp r_into_rtranclp)
  qed
  have won: "\<exists>t e. send_step\<^sup>*\<^sup>* u t \<and> sendRet t = Some (Outcome e)"
    if i: "i < length (cbs u)" "cbs u ! i = CbSave f" and ret: "sendRet u = None" for u i f
    using saved [of i "u\<lparr>sendErr := f, cbs := (cbs u)[i := CbClose]\<rparr>"] send_step.save [OF i] i(1) ret
    by (auto intro: converse_rtranclp_into_rtranclp)
  show ?thesis
  proof (cases "isDone s")
    case False
    then obtain i e where i: "i < length (cbs s)" "cbs s ! i = CbCall e" using assms(1,2) by (auto simp: send_inv_def in_set_conv_nth)
    from won [of i "s\<lparr>isDone := True, cbs := (cbs s)[i := CbSave e]\<rparr>"] send_step.cas_first [OF i False] i(1) assms(3)
    show ?thesis by (auto intro: converse_rtranclp_into_rtranclp)
  next
    case True
    show ?thesis
    proof (cases "0 < doneCh s")
      case True
      with closed assms(3) show ?thesis by blast
    next
      case False
      then have "0 < cnt winner (cbs s)" using assms(1) True by (simp add: send_inv_def)
      then obtain i where i: "i < length (cbs s)" "winner (cbs s ! i)" by (metis cnt_zero in_set_conv_nth less_irrefl)
      then show ?thesis using saved [OF i(1) _ assms(3)] won [OF i(1) _ assms(3)] by (cases "cbs s ! i") auto
    qed
  qed
qed

text \<open>
  C15. A blocking \<^verbatim>\<open>Send\<close> is safe and live however its callback and its context race: the channel is closed at most once
  (closing it again would panic) even if the callback ran several times, the caller returns the error of its context or
  an error the callback was called with, never the initial value, and once the callback has been called the
  caller can return without its context expiring.
\<close>

theorem blocking_send_outcome:
  assumes "reach send_init send_step s"
  shows "doneCh s \<le> 1 \<and> (\<forall>e. sendRet s = Some (Outcome e) \<longrightarrow> e \<in> set (reported s)) \<and>
    (reported s \<noteq> [] \<and> sendRet s = None \<longrightarrow> (\<exists>t e. send_step\<^sup>*\<^sup>* s t \<and> sendRet t = Some (Outcome e)))"
proof -
  have i: "send_inv s" by (rule sending.reach_inv [OF assms])
  have "cnt winner (cbs s) + int (doneCh s) \<le> 1" using i by (simp add: send_inv_def)
  then have "int (doneCh s) \<le> 1" using cnt_nonneg [of winner "cbs s"] by linarith
  moreover have "\<forall>e. sendRet s = Some (Outcome e) \<longrightarrow> e \<in> set (reported s)" using i by (auto simp: send_inv_def)
  ultimately show ?thesis using reported_finishes [OF i] by auto
qed

theorem blocking_send_outcome_witness:
  "\<exists>s t e. reported s = [None] \<and> sendRet s = None \<and> send_step\<^sup>*\<^sup>* s t \<and> sendRet t = Some (Outcome e)"
proof -
  let ?s = "\<lparr>isDone = False, sendErr = None, doneCh = 0, cbs = [], sendRet = None, reported = []\<rparr>"
  let ?t = "?s\<lparr>cbs := [CbCall None], reported := [None]\<rparr>"
  have "send_step ?s ?t" using send_step.callback [of ?s None] by simp
  moreover have "reach send_init send_step ?s" by (rule reach_init) (simp add: send_init_def)
  ultimately have "reach send_init send_step ?t" by (auto intro: reach_step)
  from blocking_send_outcome [OF this] obtain t e where "send_step\<^sup>*\<^sup>* ?t t" "sendRet t = Some (Outcome e)" by auto
  moreover have "reported ?t = [None]" "sendRet ?t = None" by simp_all
  ultimately show ?thesis by blast
qed

end
