(* ===== verification/Semaphore.thy ===== *)
theory Semaphore
  imports Go_Prelude
begin

text \<open>
  \<^verbatim>\<open>syncx/semaphore.go\<close>: a counting semaphore made of an atomic counter and an unbuffered channel. Every
  call is a thread that moves one atomic operation at a time; handing over a permit through the
  unbuffered channel is a joint step of the releasing and the waiting thread. The counter is an
  integer, as it cannot reach \<open>2\<^sup>31\<close> with fewer than that many callers. The parameter of the step
  relation says whether the context of a waiting caller may expire.
\<close>

section \<open>Model\<close>

datatype spc =
    AcquireCall
  | AcquireWait        \<comment> \<open>in the \<^verbatim>\<open>select\<close>\<close>
  | TryLoad
  | TryCas int
  | Holding            \<comment> \<open>returned true\<close>
  | Failed             \<comment> \<open>returned false\<close>
  | ReleaseCall
  | ReleaseSend        \<comment> \<open>at \<^verbatim>\<open>s.ch <- true\<close>\<close>
  | Released

record semaphore =
  maxPermits :: int
  permits :: int
  sthr :: "spc list"

text \<open>\<^verbatim>\<open>NewSemaphore\<close> panics (\<open>None\<close>) unless there is at least one permit.\<close>

definition NewSemaphore :: "int \<Rightarrow> semaphore option" where
  "NewSemaphore n = (if n \<le> 0 then None else Some \<lparr>maxPermits = n, permits = 0, sthr = []\<rparr>)"

definition Cap :: "semaphore \<Rightarrow> int" where
  "Cap s = maxPermits s"

definition Available :: "semaphore \<Rightarrow> int" where
  "Available s = maxPermits s - permits s"

abbreviation goto :: "nat \<Rightarrow> spc \<Rightarrow> int \<Rightarrow> semaphore \<Rightarrow> semaphore" where
  "goto i pc n s \<equiv> s\<lparr>permits := n, sthr := (sthr s)[i := pc]\<rparr>"

inductive sem_step :: "bool \<Rightarrow> semaphore \<Rightarrow> semaphore \<Rightarrow> bool" for expiry :: bool where
  call_acquire: "sem_step expiry s (s\<lparr>sthr := sthr s @ [AcquireCall]\<rparr>)"
| call_try: "sem_step expiry s (s\<lparr>sthr := sthr s @ [TryLoad]\<rparr>)"
| call_release: "i < length (sthr s) \<Longrightarrow> sthr s ! i = Holding \<Longrightarrow>
    sem_step expiry s (goto i ReleaseCall (permits s) s)"
| acquire_now: "i < length (sthr s) \<Longrightarrow> sthr s ! i = AcquireCall \<Longrightarrow> permits s + 1 \<le> maxPermits s \<Longrightarrow>
    sem_step expiry s (goto i Holding (permits s + 1) s)"
| acquire_wait: "i < length (sthr s) \<Longrightarrow> sthr s ! i = AcquireCall \<Longrightarrow> permits s + 1 > maxPermits s \<Longrightarrow>
    sem_step expiry s (goto i AcquireWait (permits s + 1) s)"
| expire: "expiry \<Longrightarrow> i < length (sthr s) \<Longrightarrow> sthr s ! i = AcquireWait \<Longrightarrow>
    sem_step expiry s (goto i Failed (permits s - 1) s)"
| try_full: "i < length (sthr s) \<Longrightarrow> sthr s ! i = TryLoad \<Longrightarrow> permits s \<ge> maxPermits s \<Longrightarrow>
    sem_step expiry s (goto i Failed (permits s) s)"
| try_load: "i < length (sthr s) \<Longrightarrow> sthr s ! i = TryLoad \<Longrightarrow> permits s < maxPermits s \<Longrightarrow>
    sem_step expiry s (goto i (TryCas (permits s)) (permits s) s)"
| try_cas: "i < length (sthr s) \<Longrightarrow> sthr s ! i = TryCas cur \<Longrightarrow> permits s = cur \<Longrightarrow>
    sem_step expiry s (goto i Holding (cur + 1) s)"
| try_again: "i < length (sthr s) \<Longrightarrow> sthr s ! i = TryCas cur \<Longrightarrow> permits s \<noteq> cur \<Longrightarrow>
    sem_step expiry s (goto i TryLoad (permits s) s)"
| release_done: "i < length (sthr s) \<Longrightarrow> sthr s ! i = ReleaseCall \<Longrightarrow> permits s - 1 < maxPermits s \<Longrightarrow>
    sem_step expiry s (goto i Released (permits s - 1) s)"
| release_send: "i < length (sthr s) \<Longrightarrow> sthr s ! i = ReleaseCall \<Longrightarrow> permits s - 1 \<ge> maxPermits s \<Longrightarrow>
    sem_step expiry s (goto i ReleaseSend (permits s - 1) s)"
| handover: "i < length (sthr s) \<Longrightarrow> sthr s ! i = ReleaseSend \<Longrightarrow> j < length (sthr s) \<Longrightarrow>
    sthr s ! j = AcquireWait \<Longrightarrow>
    sem_step expiry s (s\<lparr>sthr := (sthr s)[i := Released, j := Holding]\<rparr>)"

inductive_cases sem_stepE: "sem_step expiry s t"

definition sem_init :: "semaphore \<Rightarrow> bool" where
  "sem_init s \<longleftrightarrow> (\<exists>n. NewSemaphore n = Some s)"

section \<open>Permits\<close>

definition count :: "(spc \<Rightarrow> bool) \<Rightarrow> semaphore \<Rightarrow> int" where
  "count P s = cnt P (sthr s)"

abbreviation holders :: "semaphore \<Rightarrow> int" where
  "holders \<equiv> count (\<lambda>pc. pc = Holding \<or> pc = ReleaseCall)"

abbreviation waiters :: "semaphore \<Rightarrow> int" where
  "waiters \<equiv> count (\<lambda>pc. pc = AcquireWait)"

abbreviation senders :: "semaphore \<Rightarrow> int" where
  "senders \<equiv> count (\<lambda>pc. pc = ReleaseSend)"

lemma count_goto:
  "i < length (sthr s) \<Longrightarrow>
   count P (s\<lparr>permits := n, sthr := (sthr s)[i := pc]\<rparr>) = count P s - of_bool (P (sthr s ! i)) + of_bool (P pc)"
  by (simp add: count_def cnt_update)

lemma count_snoc: "count P (s\<lparr>sthr := sthr s @ [pc]\<rparr>) = count P s + of_bool (P pc)"
  by (simp add: count_def)

lemma count_handover:
  assumes "i < length (sthr s)" "j < length (sthr s)" "sthr s ! i \<noteq> sthr s ! j"
  shows "count P (s\<lparr>sthr := (sthr s)[i := a, j := b]\<rparr>) =
    count P s - of_bool (P (sthr s ! i)) + of_bool (P a) - of_bool (P (sthr s ! j)) + of_bool (P b)"
proof -
  have "i \<noteq> j" using assms(3) by auto
  then show ?thesis using assms by (simp add: count_def cnt_update)
qed

definition sem_inv :: "semaphore \<Rightarrow> bool" where
  "sem_inv s \<longleftrightarrow> 0 < maxPermits s \<and> permits s = holders s + waiters s \<and> senders s \<le> waiters s \<and>
     holders s + senders s \<le> maxPermits s \<and> (\<forall>cur. TryCas cur \<in> set (sthr s) \<longrightarrow> cur < maxPermits s)"

lemma trycas_update:
  "\<forall>cur. TryCas cur \<in> set xs \<longrightarrow> cur < m \<Longrightarrow> \<forall>cur. pc = TryCas cur \<longrightarrow> cur < m \<Longrightarrow>
   \<forall>cur. TryCas cur \<in> set (xs[i := pc]) \<longrightarrow> cur < m"
  using set_update_subset_insert [of xs i pc] by blast

lemma count_nonneg [simp]: "0 \<le> count P s"
  by (simp add: count_def)

lemma sem_inv_step: "sem_step False s t \<Longrightarrow> sem_inv s \<Longrightarrow> sem_inv t"
proof (induction rule: sem_step.induct)
  case (handover i s j)
  then show ?case using count_handover [of i s j]
    by (auto simp: sem_inv_def dest!: set_update_subset_insert [THEN subsetD])
next
  case (try_cas i s cur)
  then have "TryCas cur \<in> set (sthr s)" by (metis nth_mem)
  then have "permits s < maxPermits s" using try_cas by (auto simp: sem_inv_def)
  with try_cas show ?case
    using trycas_update [of "sthr s" "maxPermits s" Holding i] by (simp add: sem_inv_def count_goto)
next
  case (try_load i s)
  then show ?case
    using trycas_update [of "sthr s" "maxPermits s" "TryCas (permits s)" i] by (simp add: sem_inv_def count_goto)
next
  case (call_release i s)
  then show ?case
    using trycas_update [of "sthr s" "maxPermits s" ReleaseCall i] by (simp add: sem_inv_def count_goto)
next
  case (acquire_now i s)
  then show ?case
    using trycas_update [of "sthr s" "maxPermits s" Holding i] by (simp add: sem_inv_def count_goto)
next
  case (acquire_wait i s)
  then show ?case
    using trycas_update [of "sthr s" "maxPermits s" AcquireWait i] by (simp add: sem_inv_def count_goto)
next
  case (try_full i s)
  then show ?case
    using trycas_update [of "sthr s" "maxPermits s" Failed i] by (simp add: sem_inv_def count_goto)
next
  case (try_again i s cur)
  then show ?case
    using trycas_update [of "sthr s" "maxPermits s" TryLoad i] by (simp add: sem_inv_def count_goto)
next
  case (release_done i s)
  then show ?case
    using trycas_update [of "sthr s" "maxPermits s" Released i] by (simp add: sem_inv_def count_goto)
next
  case (release_send i s)
  then show ?case
    using trycas_update [of "sthr s" "maxPermits s" ReleaseSend i] by (simp add: sem_inv_def count_goto)
qed (auto simp: sem_inv_def count_snoc)

interpretation sem: inductive_invariant sem_init "sem_step False" sem_inv
proof unfold_locales
  show "sem_init s \<Longrightarrow> sem_inv s" for s
    by (auto simp: sem_init_def NewSemaphore_def sem_inv_def count_def split: if_splits)
  show "sem_inv s \<Longrightarrow> sem_step False s t \<Longrightarrow> sem_inv t" for s t by (rule sem_inv_step)
qed

text \<open>
  C34. As long as no waiting caller's context expires, the semaphore admits at most its number of
  permits at any time, in every interleaving of \<^verbatim>\<open>Acquire\<close>, \<^verbatim>\<open>TryAcquire\<close> and \<^verbatim>\<open>Release\<close>, the counter is
  exactly the number of holders plus the number of waiters, and a \<^verbatim>\<open>Release\<close> that hands its permit
  over always finds a waiting caller, so it never blocks for good.
\<close>

theorem semaphore_bounds_holders:
  assumes "reach sem_init (sem_step False) s"
  shows "holders s \<le> maxPermits s \<and> permits s = holders s + waiters s \<and> senders s \<le> waiters s"
proof -
  have "sem_inv s" using assms by (rule sem.reach_inv)
  moreover have "0 \<le> senders s" by simp
  ultimately show ?thesis unfolding sem_inv_def by linarith
qed

section \<open>Expiring contexts\<close>

text \<open>A run with one permit: a caller holds it, a second waits, the first releases and offers its permit, the
  second one's context expires before it takes it.\<close>

abbreviation st :: "int \<Rightarrow> spc list \<Rightarrow> semaphore" where
  "st n ts \<equiv> \<lparr>maxPermits = 1, permits = n, sthr = ts\<rparr>"

lemma sem_run_init: "reach sem_init (sem_step b) (st 0 [])"
  by (rule reach_init) (simp add: sem_init_def NewSemaphore_def exI [of _ 1])

lemma sem_run_wait: "reach sem_init (sem_step b) (st 2 [Holding, AcquireWait])"
proof -
  have "reach sem_init (sem_step b) (st 0 [AcquireCall])"
    using reach_step [OF sem_run_init call_acquire] by simp
  then have "reach sem_init (sem_step b) (st 0 [AcquireCall, AcquireCall])"
    by (rule reach_step) (use call_acquire [of b "st 0 [AcquireCall]"] in simp)
  then have "reach sem_init (sem_step b) (st 1 [Holding, AcquireCall])"
    by (rule reach_step) (use acquire_now [of 0 "st 0 [AcquireCall, AcquireCall]" b] in simp)
  then show ?thesis
    by (rule reach_step) (use acquire_wait [of 1 "st 1 [Holding, AcquireCall]" b] in simp)
qed

lemma sem_run_stuck: "reach sem_init (sem_step True) (st 0 [ReleaseSend, Failed])"
proof -
  have "reach sem_init (sem_step True) (st 2 [ReleaseCall, AcquireWait])"
    using sem_run_wait by (rule reach_step) (use call_release [of 0 "st 2 [Holding, AcquireWait]" True] in simp)
  then have "reach sem_init (sem_step True) (st 1 [ReleaseSend, AcquireWait])"
    by (rule reach_step) (use release_send [of 0 "st 2 [ReleaseCall, AcquireWait]" True] in simp)
  then show ?thesis
    by (rule reach_step) (use expire [of True 1 "st 1 [ReleaseSend, AcquireWait]"] in simp)
qed

text \<open>
  C38. With expiring contexts the semaphore breaks both promises. There is a run after which a
  \<^verbatim>\<open>Release\<close> blocks on the channel although nobody waits and the only permit is free, and a longer run
  after which two callers hold the one permit.
\<close>

theorem expiry_breaks_semaphore:
  "(\<exists>s. reach sem_init (sem_step True) s \<and> maxPermits s = 1 \<and> ReleaseSend \<in> set (sthr s) \<and>
      waiters s = 0 \<and> holders s = 0 \<and> Available s = 1) \<and>
   (\<exists>s. reach sem_init (sem_step True) s \<and> maxPermits s = 1 \<and> holders s = 2)"
proof
  show "\<exists>s. reach sem_init (sem_step True) s \<and> maxPermits s = 1 \<and> ReleaseSend \<in> set (sthr s) \<and>
      waiters s = 0 \<and> holders s = 0 \<and> Available s = 1"
    using sem_run_stuck by (intro exI [of _ "st 0 [ReleaseSend, Failed]"]) (simp add: count_def Available_def)
  let ?a = "[ReleaseSend, Failed, AcquireCall]"
  have "reach sem_init (sem_step True) (st 0 ?a)"
    using sem_run_stuck by (rule reach_step) (use call_acquire [of True "st 0 [ReleaseSend, Failed]"] in simp)
  then have "reach sem_init (sem_step True) (st 1 [ReleaseSend, Failed, Holding])"
    by (rule reach_step) (use acquire_now [of 2 "st 0 ?a" True] in simp)
  then have "reach sem_init (sem_step True) (st 1 [ReleaseSend, Failed, Holding, AcquireCall])"
    by (rule reach_step) (use call_acquire [of True "st 1 [ReleaseSend, Failed, Holding]"] in simp)
  then have "reach sem_init (sem_step True) (st 2 [ReleaseSend, Failed, Holding, AcquireWait])"
    by (rule reach_step) (use acquire_wait [of 3 "st 1 [ReleaseSend, Failed, Holding, AcquireCall]" True] in simp)
  then have "reach sem_init (sem_step True) (st 2 [Released, Failed, Holding, Holding])"
    by (rule reach_step) (use handover [of 0 "st 2 [ReleaseSend, Failed, Holding, AcquireWait]" 3 True] in simp)
  then show "\<exists>s. reach sem_init (sem_step True) s \<and> maxPermits s = 1 \<and> holders s = 2"
    by (intro exI [of _ "st 2 [Released, Failed, Holding, Holding]"]) (simp add: count_def)
qed

theorem semaphore_bounds_holders_witness:
  "reach sem_init (sem_step False) (st 2 [Holding, AcquireWait]) \<and> holders (st 2 [Holding, AcquireWait]) \<le> 1"
  using sem_run_wait [of False] semaphore_bounds_holders [OF sem_run_wait [of False]] by simp

end
