(* ===== verification/Host_IP.thy ===== *)
theory Host_IP
  imports Go_Strings Go_Binary
begin

text \<open>
  \<^verbatim>\<open>util/ip.go\<close> and the node number of \<^verbatim>\<open>util/id.go\<close>: which address of the host the SDK reports and
  derives identifiers from. The interfaces of the host are an argument (\<^verbatim>\<open>net.Interfaces\<close>), an IP is its
  bytes as in package \<^verbatim>\<open>net\<close> (4 or 16 of them), and reading the text of an IPv6 address is the argument
  \<open>parseIPv6\<close>.
\<close>

section \<open>Package net\<close>

definition mapped :: "bytes" where
  "mapped = replicate 10 0 @ [255, 255]"

definition To4 :: "bytes \<Rightarrow> bytes option" where
  "To4 ip = (if length ip = 4 then Some ip
             else if length ip = 16 \<and> take 12 ip = mapped then Some (drop 12 ip) else None)"

definition ipv4String :: "bytes \<Rightarrow> string" where
  "ipv4String ip = Join (map (\<lambda>b. show_nat (unat b)) ip) ''.''"

definition IsLoopback :: "bytes \<Rightarrow> bool" where
  "IsLoopback ip = (case To4 ip of Some ip4 \<Rightarrow> ip4 ! 0 = 127 | None \<Rightarrow> ip = replicate 15 0 @ [1])"

definition IsLinkLocalUnicast :: "bytes \<Rightarrow> bool" where
  "IsLinkLocalUnicast ip =
     (case To4 ip of
        Some ip4 \<Rightarrow> ip4 ! 0 = 169 \<and> ip4 ! 1 = 254
      | None \<Rightarrow> length ip = 16 \<and> ip ! 0 = 254 \<and> Bit_Operations.and (ip ! 1) 192 = 128)"

definition octet :: "string \<Rightarrow> byte option" where
  "octet f =
     (if f = [] \<or> \<not> list_all is_digit f \<or> (length f > 1 \<and> hd f = CHR ''0'') \<or> digits_val f > 255 then None
      else Some (word_of_nat (digits_val f)))"

definition parseIPv4 :: "string \<Rightarrow> bytes" where
  "parseIPv4 s =
     (case map octet (Split s CHR ''.'') of
        [Some a, Some b, Some c, Some d] \<Rightarrow> mapped @ [a, b, c, d]
      | _ \<Rightarrow> [])"

text \<open>\<^verbatim>\<open>net.ParseIP\<close>: the first of the characters \<^verbatim>\<open>.\<close>, \<^verbatim>\<open>:\<close> and \<^verbatim>\<open>%\<close> decides; nil is the empty list.\<close>

definition ParseIP :: "(string \<Rightarrow> bytes) \<Rightarrow> string \<Rightarrow> bytes" where
  "ParseIP parseIPv6 s =
     (case find (\<lambda>c. c \<in> {CHR ''.'', CHR '':'', CHR ''%''}) s of
        Some c \<Rightarrow> if c = CHR ''.'' then parseIPv4 s else if c = CHR '':'' then parseIPv6 s else []
      | None \<Rightarrow> [])"

section \<open>Addresses\<close>

definition IPtoUInt :: "(string \<Rightarrow> bytes) \<Rightarrow> string \<Rightarrow> 32 word" where
  "IPtoUInt parseIPv6 ip =
     (let ips = ParseIP parseIPv6 ip
      in if length ips = 16 then word_of_nat (GetUint BigEndian (drop 12 ips))
         else if length ips = 4 then word_of_nat (GetUint BigEndian ips) else 0)"

definition private_range :: "int \<Rightarrow> int \<Rightarrow> int \<Rightarrow> int \<Rightarrow> bool" where
  "private_range i1 i2 i3 i4 \<longleftrightarrow>
     i1 = 11 \<or> i1 = 10 \<or> i1 = 9 \<or> i1 = 30 \<or> i1 = 21 \<or>
     (i1 = 100 \<and> i2 \<ge> 64 \<and> i2 \<le> 127) \<or>
     (i1 = 172 \<and> i2 \<ge> 16 \<and> i2 \<le> 31) \<or>
     (i1 = 192 \<and> i2 = 168) \<or>
     (i1 = 172 \<and> i2 = 32 \<and> (i3 = 0 \<or> i3 = 1) \<and> i4 \<ge> 1 \<and> i4 \<le> 128)"

definition IsPrivateIP :: "string \<Rightarrow> bool" where
  "IsPrivateIP ip =
     (let ipByte = Split ip CHR ''.''
      in if length ipByte \<noteq> 4 then False
         else case (Atoi (ipByte ! 0), Atoi (ipByte ! 1), Atoi (ipByte ! 2), Atoi (ipByte ! 3)) of
                (Some i1, Some i2, Some i3, Some i4) \<Rightarrow> private_range i1 i2 i3 i4
              | _ \<Rightarrow> False)"

datatype ip_err = ErrInterfaces string | ErrNoPrivateIP | ErrNoIP | ErrObtainIP ip_err

text \<open>An interface: is it up, and its addresses or an error; an address that is no \<^verbatim>\<open>*net.IPNet\<close> is \<open>None\<close>.\<close>

record interface =
  FlagUp :: bool
  Addrs :: "string + bytes option list"

definition usable_addr :: "bytes option \<Rightarrow> string list" where
  "usable_addr addr =
     (case addr of
        None \<Rightarrow> []
      | Some ip \<Rightarrow>
          if IsLoopback ip \<or> IsLinkLocalUnicast ip then []
          else case To4 ip of None \<Rightarrow> [] | Some ipv4 \<Rightarrow> [ipv4String ipv4])"

definition iface_addrs :: "interface \<Rightarrow> string list" where
  "iface_addrs iface =
     (if \<not> FlagUp iface then []
      else case Addrs iface of Inl e \<Rightarrow> [] | Inr addrs \<Rightarrow> concat (map usable_addr addrs))"

definition GetIPv4List :: "string + interface list \<Rightarrow> ip_err + string list" where
  "GetIPv4List interfaces =
     (case interfaces of Inl e \<Rightarrow> Inl (ErrInterfaces e) | Inr is \<Rightarrow> Inr (concat (map iface_addrs is)))"

definition GetPrivateIPList :: "string + interface list \<Rightarrow> ip_err + string list" where
  "GetPrivateIPList interfaces =
     (case GetIPv4List interfaces of Inl e \<Rightarrow> Inl e | Inr ips \<Rightarrow> Inr (filter IsPrivateIP ips))"

definition GetFirstPrivateIP :: "string + interface list \<Rightarrow> ip_err + string" where
  "GetFirstPrivateIP interfaces =
     (case GetPrivateIPList interfaces of
        Inl e \<Rightarrow> Inl e | Inr [] \<Rightarrow> Inl ErrNoPrivateIP | Inr (ip # ips) \<Rightarrow> Inr ip)"

definition GetFirstIP :: "string + interface list \<Rightarrow> ip_err + string" where
  "GetFirstIP interfaces =
     (case GetIPv4List interfaces of Inl e \<Rightarrow> Inl e | Inr (ip # ips) \<Rightarrow> Inr ip | Inr [] \<Rightarrow> Inl ErrNoIP)"

definition GetOneIP :: "string + interface list \<Rightarrow> ip_err + string" where
  "GetOneIP interfaces =
     (case GetIPv4List interfaces of
        Inl e \<Rightarrow> Inl (ErrObtainIP e)
      | Inr [] \<Rightarrow> Inl ErrNoIP
      | Inr (ip # ips) \<Rightarrow>
          (case find IsPrivateIP (ip # ips) of Some p \<Rightarrow> Inr p | None \<Rightarrow> Inr ip))"

text \<open>The node number \<^verbatim>\<open>newSnowFlakeNode\<close> asks the snowflake package for.\<close>

definition snowFlakeNodeID :: "(string \<Rightarrow> bytes) \<Rightarrow> string + interface list \<Rightarrow> ip_err + int" where
  "snowFlakeNodeID parseIPv6 interfaces =
     (case GetOneIP interfaces of Inl e \<Rightarrow> Inl e | Inr ip \<Rightarrow> Inr (uint (IPtoUInt parseIPv6 ip mod 1024)))"

section \<open>Printed addresses\<close>

lemma show_nat_dot [simp]: "CHR ''.'' \<notin> set (show_nat n)"
  by (simp add: show_nat_not_mem)

lemma Split_ipv4: "Split (ipv4String [a, b, c, d]) CHR ''.'' = map (\<lambda>x. show_nat (unat x)) [a, b, c, d]"
  by (simp add: ipv4String_def Split_append_sep Split_single)

lemma Atoi_show_nat: "n < 2 ^ 63 \<Longrightarrow> Atoi (show_nat n) = Some (int n)"
  using Atoi_Itoa [of "int n"] by (simp add: Itoa_def)

lemma byte_less: "unat (b :: byte) < 256"
  using unsigned_less [of b] by simp

lemma byte_less_int: "uint (b :: byte) < 256"
  using unsigned_less [of b, where 'a = int] by simp

lemma IsPrivateIP_string:
  "IsPrivateIP (ipv4String [a, b, c, d]) = private_range (uint a) (uint b) (uint c) (uint d)"
proof -
  have "Atoi (show_nat (unat x)) = Some (uint x)" for x :: byte
    using Atoi_show_nat [of "unat x"] byte_less [of x] by simp
  then show ?thesis by (simp add: IsPrivateIP_def Split_ipv4)
qed

lemma show_nat_first: "0 < n \<Longrightarrow> hd (show_nat n) \<noteq> CHR ''0''"
proof (induction n rule: show_nat.induct)
  case (1 n)
  show ?case
  proof (cases "n < 10")
    case True
    then have "(of_char (digit n) :: nat) \<noteq> of_char CHR ''0''" using 1(2) by (simp add: of_char_digit)
    then show ?thesis using True by (subst show_nat.simps) auto
  next
    case False
    then show ?thesis using 1 by (subst show_nat.simps) (simp add: hd_append)
  qed
qed

lemma octet_show_nat: "octet (show_nat (unat b)) = Some b"
proof -
  have "\<not> (length (show_nat (unat b)) > 1 \<and> hd (show_nat (unat b)) = CHR ''0'')"
    using show_nat_first [of "unat b"] by (cases "unat b = 0") (simp_all add: show_nat.simps [of 0])
  then show ?thesis using byte_less [of b] by (auto simp: octet_def show_nat_digits)
qed

lemma ParseIP_string: "ParseIP p6 (ipv4String [a, b, c, d]) = mapped @ [a, b, c, d]"
proof -
  let ?P = "\<lambda>c. c \<in> {CHR ''.'', CHR '':'', CHR ''%''}"
  have "find ?P (ds @ CHR ''.'' # xs) = Some CHR ''.''" if "list_all is_digit ds" for ds xs
    using that by (induction ds) (auto simp: is_digit_def)
  then have "find ?P (ipv4String [a, b, c, d]) = Some CHR ''.''"
    using show_nat_digits [of "unat a"] by (simp add: ipv4String_def)
  then show ?thesis by (simp add: ParseIP_def parseIPv4_def Split_ipv4 octet_show_nat)
qed

section \<open>The chosen address\<close>

lemma To4_length: "To4 ip = Some q \<Longrightarrow> length q = 4"
  by (auto simp: To4_def split: if_splits)

lemma usable_addrD:
  assumes "s \<in> set (usable_addr addr)"
  shows "\<exists>ip a b c d. addr = Some ip \<and> To4 ip = Some [a, b, c, d] \<and> s = ipv4String [a, b, c, d] \<and>
    \<not> IsLoopback ip \<and> \<not> IsLinkLocalUnicast ip"
proof -
  from assms obtain ip q where i: "addr = Some ip" "To4 ip = Some q" "s = ipv4String q" "\<not> IsLoopback ip" "\<not> IsLinkLocalUnicast ip"
    by (auto simp: usable_addr_def split: option.splits if_splits)
  obtain a b c d where "q = [a, b, c, d]"
    using To4_length [OF i(2)] by (auto simp: eval_nat_numeral length_Suc_conv)
  with i show ?thesis by blast
qed

lemma iface_addrsD:
  "s \<in> set (iface_addrs i) \<Longrightarrow> FlagUp i \<and> (\<exists>addrs. Addrs i = Inr addrs \<and> (\<exists>addr \<in> set addrs. s \<in> set (usable_addr addr)))"
  by (cases "Addrs i") (auto simp: iface_addrs_def split: if_splits)

lemma find_first: "find P xs = Some x \<Longrightarrow> x \<in> set xs \<and> P x"
  by (auto simp: find_Some_iff)

lemma find_none: "find P xs = None \<Longrightarrow> filter P xs = []"
  by (auto simp: find_None_iff filter_empty_conv)

text \<open>What \<^verbatim>\<open>GetOneIP\<close> takes from the list of addresses.\<close>

lemma one_of_list:
  assumes "(case l of [] \<Rightarrow> Inl e | ip # ips \<Rightarrow> case find P (ip # ips) of Some p \<Rightarrow> Inr p | None \<Rightarrow> Inr ip) = Inr s"
  shows "s \<in> set l \<and> (P s \<or> filter P l = [])"
proof (cases l)
  case (Cons x xs)
  show ?thesis
  proof (cases "find P l")
    case None
    with assms Cons have "s = x" by (auto split: if_splits)
    with find_none [OF None] Cons show ?thesis by simp
  next
    case (Some y)
    with find_first [OF Some] assms Cons show ?thesis by simp
  qed
qed (use assms in simp)

lemma IPtoUInt_string:
  "uint (IPtoUInt p6 (ipv4String [a, b, c, d])) = ((uint a * 256 + uint b) * 256 + uint c) * 256 + uint d"
proof -
  define n where "n = ((unat a * 256 + unat b) * 256 + unat c) * 256 + unat d"
  have n: "n < 2 ^ 32"
    using byte_less [of a] byte_less [of b] byte_less [of c] byte_less [of d] by (simp add: n_def)
  have "drop 12 (mapped @ [a, b, c, d]) = [a, b, c, d]" "length (mapped @ [a, b, c, d]) = 16" by (simp_all add: mapped_def)
  moreover have "be_get [a, b, c, d] = n" by (simp add: be_get_def n_def)
  ultimately have "IPtoUInt p6 (ipv4String [a, b, c, d]) = word_of_nat n"
    by (simp add: IPtoUInt_def ParseIP_string GetUint_def)
  then have "unat (IPtoUInt p6 (ipv4String [a, b, c, d])) = n" using n by (simp add: unat_of_nat)
  then have "unat (IPtoUInt p6 (ipv4String [a, b, c, d])) = ((unat a * 256 + unat b) * 256 + unat c) * 256 + unat d"
    by (simp only: n_def)
  then have "int (unat (IPtoUInt p6 (ipv4String [a, b, c, d]))) = int (((unat a * 256 + unat b) * 256 + unat c) * 256 + unat d)"
    by (rule arg_cong)
  then show ?thesis by simp
qed

lemma low_ten:
  fixes a b c d :: int
  assumes "0 \<le> d" "d < 256"
  shows "(((a * 256 + b) * 256 + c) * 256 + d) mod 1024 = c mod 4 * 256 + d"
proof -
  have c: "c = 4 * (c div 4) + c mod 4" and m: "0 \<le> c mod 4" "c mod 4 < 4" by simp_all
  have "((a * 256 + b) * 256 + c) * 256 + d = c mod 4 * 256 + d + 1024 * ((a * 256 + b) * 64 + c div 4)"
    using c by presburger
  then have "(((a * 256 + b) * 256 + c) * 256 + d) mod 1024 = (c mod 4 * 256 + d) mod 1024" by (simp only: mod_mult_self2)
  also have "\<dots> = c mod 4 * 256 + d" using m assms by (intro mod_pos_pos_trivial) linarith+
  finally show ?thesis .
qed

text \<open>
  The address the SDK reports is one of the host's own: an IPv4 address of an interface that is up,
  neither a loopback nor a link-local one, printed so that it reads back to the same bytes; a private
  address is preferred, whatever its place in the list. The snowflake node derived from it is the number
  made of its last ten bits and fits the 1024 nodes the generator has.
\<close>

theorem host_address_choice:
  assumes "GetOneIP (Inr is) = Inr s"
  shows "\<exists>i \<in> set is. FlagUp i \<and> (\<exists>addrs ip a b c d. Addrs i = Inr addrs \<and> Some ip \<in> set addrs \<and>
    To4 ip = Some [a, b, c, d] \<and> \<not> IsLoopback ip \<and> \<not> IsLinkLocalUnicast ip \<and>
    s = ipv4String [a, b, c, d] \<and> ParseIP p6 s = mapped @ [a, b, c, d] \<and>
    (private_range (uint a) (uint b) (uint c) (uint d) \<or> GetPrivateIPList (Inr is) = Inr []) \<and>
    snowFlakeNodeID p6 (Inr is) = Inr (uint c mod 4 * 256 + uint d) \<and> uint c mod 4 * 256 + uint d < 1024)"
proof -
  let ?l = "concat (map iface_addrs is)"
  have s: "s \<in> set ?l \<and> (IsPrivateIP s \<or> filter IsPrivateIP ?l = [])"
    by (rule one_of_list [where e = ErrNoIP]) (use assms in \<open>simp add: GetOneIP_def GetIPv4List_def\<close>)
  then obtain i where i: "i \<in> set is" "s \<in> set (iface_addrs i)" by auto
  from iface_addrsD [OF i(2)] obtain addrs addr where ad: "FlagUp i" "Addrs i = Inr addrs" "addr \<in> set addrs" "s \<in> set (usable_addr addr)"
    by blast
  from usable_addrD [OF ad(4)] obtain ip a b c d where ip: "addr = Some ip" "To4 ip = Some [a, b, c, d]" "s = ipv4String [a, b, c, d]"
    "\<not> IsLoopback ip" "\<not> IsLinkLocalUnicast ip" by blast
  have node: "uint (IPtoUInt p6 s mod 1024) = uint c mod 4 * 256 + uint d"
  proof -
    have "uint (IPtoUInt p6 s mod 1024) = uint (IPtoUInt p6 s) mod 1024" by (simp add: uint_mod)
    also have "\<dots> = (((uint a * 256 + uint b) * 256 + uint c) * 256 + uint d) mod 1024" by (simp only: ip(3) IPtoUInt_string)
    also have "\<dots> = uint c mod 4 * 256 + uint d" by (intro low_ten) (simp_all add: byte_less_int)
    finally show ?thesis .
  qed
  have lt: "uint c mod 4 * 256 + uint d < 1024" using byte_less_int [of d] pos_mod_bound [of 4 "uint c"] by linarith
  have pr: "private_range (uint a) (uint b) (uint c) (uint d) \<or> GetPrivateIPList (Inr is) = Inr []"
    using s by (auto simp: ip(3) IsPrivateIP_string GetPrivateIPList_def GetIPv4List_def)
  have nd: "snowFlakeNodeID p6 (Inr is) = Inr (uint c mod 4 * 256 + uint d)"
    unfolding snowFlakeNodeID_def assms using node by simp
  have ps: "ParseIP p6 s = mapped @ [a, b, c, d]" by (simp add: ip(3) ParseIP_string)
  have sm: "Some ip \<in> set addrs" using ad(3) ip(1) by simp
  show ?thesis by (rule bexI [OF _ i(1)], rule conjI [OF ad(1)], intro exI) (rule conjI [OF ad(2)] conjI sm ip ps pr nd lt)+
qed

definition sample_interfaces :: "interface list" where
  "sample_interfaces = [\<lparr>FlagUp = True, Addrs = Inr [Some [127, 0, 0, 1]]\<rparr>, \<lparr>FlagUp = True, Addrs = Inr [Some [8, 8, 8, 8], Some [10, 0, 3, 7]]\<rparr>]"

theorem host_address_choice_witness:
  "GetOneIP (Inr sample_interfaces) = Inr ''10.0.3.7'' \<and> snowFlakeNodeID (\<lambda>_. []) (Inr sample_interfaces) = Inr 775"
proof -
  have g: "GetOneIP (Inr sample_interfaces) = Inr ''10.0.3.7''" by code_simp
  have p: "ParseIP (\<lambda>_. []) ''10.0.3.7'' = mapped @ [10, 0, 3, 7]" by code_simp
  from host_address_choice [OF g, of "\<lambda>_. []"] obtain a b c d where
    "ParseIP (\<lambda>_. []) ''10.0.3.7'' = mapped @ [a, b, c, d]"
    "snowFlakeNodeID (\<lambda>_. []) (Inr sample_interfaces) = Inr (uint c mod 4 * 256 + uint d)" by blast
  with p g show ?thesis by simp
qed

end
