(* ===== verification/Ids.thy ===== *)
theory Ids
  imports Host_IP
begin

text \<open>
  \<^verbatim>\<open>util/id.go\<close>: the process-wide snowflake node, made on the first use from an address of the host, and the
  identifiers drawn from it. The packages snowflake, uuid and cityhash are outside the repository:
  \<open>NewNode\<close>, \<open>Generate\<close>, \<open>NewRandom\<close> and \<open>CityHash64WithSeeds\<close> are arguments, and a node is of any type.
\<close>

datatype id_err = ErrIP ip_err | ErrNode string | ErrUUID string | NilNode

record 'n snowflake =
  snowflakeOnce :: bool
  snowflakeNode :: "'n option"
  snowflakeErr :: "id_err option"

definition newSnowFlakeNode :: "(int \<Rightarrow> string + 'n) \<Rightarrow> (string \<Rightarrow> bytes) \<Rightarrow> string + interface list \<Rightarrow> id_err + 'n" where
  "newSnowFlakeNode NewNode parseIPv6 interfaces =
     (case snowFlakeNodeID parseIPv6 interfaces of
        Inl e \<Rightarrow> Inl (ErrIP e)
      | Inr i \<Rightarrow> (case NewNode i of Inl e \<Rightarrow> Inl (ErrNode e) | Inr node \<Rightarrow> Inr node))"

definition UInt64UUID :: "(bytes \<Rightarrow> 32 word \<Rightarrow> 64 word \<Rightarrow> 64 word \<Rightarrow> 64 word) \<Rightarrow> string + bytes \<Rightarrow> id_err + 64 word" where
  "UInt64UUID CityHash64WithSeeds NewRandom =
     (case NewRandom of
        Inl e \<Rightarrow> Inl (ErrUUID e)
      | Inr guid \<Rightarrow> Inr (CityHash64WithSeeds guid (word_of_nat (length guid)) 13329145742295551469 7926974186468552394))"

text \<open>Generating moves the node on. A node without an error is there once the initialisation ran (\<open>NilNode\<close>
  is the panic otherwise).\<close>

definition snowflake_init :: "(int \<Rightarrow> string + 'n) \<Rightarrow> (string \<Rightarrow> bytes) \<Rightarrow> string + interface list \<Rightarrow> 'n snowflake \<Rightarrow> 'n snowflake" where
  "snowflake_init NewNode parseIPv6 interfaces st =
     (if snowflakeOnce st then st
      else case newSnowFlakeNode NewNode parseIPv6 interfaces of
             Inl e \<Rightarrow> \<lparr>snowflakeOnce = True, snowflakeNode = None, snowflakeErr = Some e\<rparr>
           | Inr node \<Rightarrow> \<lparr>snowflakeOnce = True, snowflakeNode = Some node, snowflakeErr = None\<rparr>)"

definition SafeSnowFlakeID ::
    "(int \<Rightarrow> string + 'n) \<Rightarrow> ('n \<Rightarrow> 'n \<times> string) \<Rightarrow> (string \<Rightarrow> bytes) \<Rightarrow> string + interface list \<Rightarrow> 'n snowflake \<Rightarrow> 'n snowflake \<times> (id_err + string)" where
  "SafeSnowFlakeID NewNode Generate parseIPv6 interfaces st =
     (let st1 = snowflake_init NewNode parseIPv6 interfaces st
      in case snowflakeErr st1 of
           Some e \<Rightarrow> (st1, Inl e)
         | None \<Rightarrow>
             (case snowflakeNode st1 of
                None \<Rightarrow> (st1, Inl NilNode)
              | Some node \<Rightarrow> (case Generate node of (node', i) \<Rightarrow> (st1\<lparr>snowflakeNode := Some node'\<rparr>, Inr i))))"

text \<open>The deprecated variant exits the process on an error (\<open>None\<close>).\<close>

definition SnowFlakeID ::
    "(int \<Rightarrow> string + 'n) \<Rightarrow> ('n \<Rightarrow> 'n \<times> string) \<Rightarrow> (string \<Rightarrow> bytes) \<Rightarrow> string + interface list \<Rightarrow> 'n snowflake \<Rightarrow> ('n snowflake \<times> string) option" where
  "SnowFlakeID NewNode Generate parseIPv6 interfaces st =
     (case SafeSnowFlakeID NewNode Generate parseIPv6 interfaces st of (st', Inl e) \<Rightarrow> None | (st', Inr i) \<Rightarrow> Some (st', i))"

section \<open>One node for the process\<close>

definition snowflake_fresh :: "'n snowflake" where
  "snowflake_fresh = \<lparr>snowflakeOnce = False, snowflakeNode = None, snowflakeErr = None\<rparr>"

fun safe_ids :: "(int \<Rightarrow> string + 'n) \<Rightarrow> ('n \<Rightarrow> 'n \<times> string) \<Rightarrow> (string \<Rightarrow> bytes) \<Rightarrow> (string + interface list) list \<Rightarrow> 'n snowflake \<Rightarrow> (id_err + string) list" where
  "safe_ids NewNode Generate p6 [] st = []"
| "safe_ids NewNode Generate p6 (is # iss) st =
     (case SafeSnowFlakeID NewNode Generate p6 is st of (st', r) \<Rightarrow> r # safe_ids NewNode Generate p6 iss st')"

fun generated :: "('n \<Rightarrow> 'n \<times> string) \<Rightarrow> nat \<Rightarrow> 'n \<Rightarrow> string list" where
  "generated Generate 0 node = []"
| "generated Generate (Suc n) node = (case Generate node of (node', i) \<Rightarrow> i # generated Generate n node')"

lemma ids_after_failure:
  "snowflakeOnce st \<Longrightarrow> snowflakeErr st = Some e \<Longrightarrow> safe_ids NewNode Generate p6 iss st = replicate (length iss) (Inl e)"
  by (induction iss arbitrary: st) (auto simp: SafeSnowFlakeID_def snowflake_init_def Let_def)

lemma ids_after_success:
  "snowflakeOnce st \<Longrightarrow> snowflakeErr st = None \<Longrightarrow> snowflakeNode st = Some node \<Longrightarrow>
   safe_ids NewNode Generate p6 iss st = map Inr (generated Generate (length iss) node)"
  by (induction iss arbitrary: st node) (auto simp: SafeSnowFlakeID_def snowflake_init_def Let_def split: prod.splits)

text \<open>
  The first use decides for the whole process: all identifiers are drawn, in order, from the one node made from the
  host's address at that time; when it could not be made, every later call fails with the same error,
  also after the host has got an address.
\<close>

theorem first_use_decides:
  "safe_ids NewNode Generate p6 (is # iss) snowflake_fresh =
     (case newSnowFlakeNode NewNode p6 is of
        Inl e \<Rightarrow> replicate (Suc (length iss)) (Inl e)
      | Inr node \<Rightarrow> map Inr (generated Generate (Suc (length iss)) node))"
  by (auto simp: SafeSnowFlakeID_def snowflake_init_def snowflake_fresh_def Let_def ids_after_failure ids_after_success split: sum.splits prod.splits)

end
