(* ===== verification/ByteCloser.thy ===== *)
theory ByteCloser
  imports Go_Prelude
begin

text \<open>
  \<^verbatim>\<open>bytecloser/bytecloser.go\<close>: the interface \<^verbatim>\<open>ByteCloser\<close> as a locale and its two implementations, raw bytes
  and a buffer that may belong to a pool. Buffers are objects on a heap; \<open>pooled\<close> lists what the pool
  was given back, in order.
\<close>

locale byte_closer =
  fixes bytes_of :: "'s \<Rightarrow> bytes" and close :: "'s \<Rightarrow> 's" and returned :: "'s \<Rightarrow> nat list"
  assumes close_close: "close (close s) = close s"
    and returns_one: "\<exists>b. returned (close s) = returned s @ b \<and> length b \<le> 1"
begin

lemma closes: "0 < n \<Longrightarrow> (close ^^ n) s = close s"
proof (induction n)
  case (Suc n)
  then show ?case by (cases n) (simp_all add: close_close)
qed simp

lemma returned_at_most_once: "\<exists>b. returned ((close ^^ n) s) = returned s @ b \<and> length b \<le> 1"
  using closes [of n s] returns_one [of s] by (cases n) auto

end

section \<open>Raw bytes\<close>

definition Bytes_Bytes :: "bytes \<Rightarrow> bytes" where "Bytes_Bytes b = b"

definition Bytes_Close :: "bytes \<Rightarrow> bytes" where "Bytes_Close b = b"

interpretation raw: byte_closer Bytes_Bytes Bytes_Close "\<lambda>_. []"
  by unfold_locales (simp_all add: Bytes_Close_def)

section \<open>Buffers\<close>

record BufferBytes =
  bufferPool :: bool
  Buffer :: "nat option"
  buffers :: "nat \<Rightarrow> bytes"
  pooled :: "nat list"

definition BufferBytes_Bytes :: "BufferBytes \<Rightarrow> bytes" where
  "BufferBytes_Bytes b = (case Buffer b of None \<Rightarrow> [] | Some p \<Rightarrow> buffers b p)"

definition BufferBytes_Close :: "BufferBytes \<Rightarrow> BufferBytes" where
  "BufferBytes_Close b =
     (case Buffer b of
        None \<Rightarrow> b
      | Some p \<Rightarrow>
          if \<not> bufferPool b then b\<lparr>buffers := (buffers b)(p := [])\<rparr>
          else b\<lparr>pooled := pooled b @ [p], Buffer := None\<rparr>)"

interpretation buffered: byte_closer BufferBytes_Bytes BufferBytes_Close pooled
  by unfold_locales (auto simp: BufferBytes_Close_def split: option.splits)

text \<open>A closed buffer gives no bytes, and however often it is closed its pool gets it back at most once:
  two users of the pool never share it.\<close>

lemma closed_buffer:
  "BufferBytes_Bytes (BufferBytes_Close b) = [] \<and>
   (\<exists>r. pooled ((BufferBytes_Close ^^ n) b) = pooled b @ r \<and> length r \<le> 1)"
proof
  show "BufferBytes_Bytes (BufferBytes_Close b) = []"
    by (auto simp: BufferBytes_Bytes_def BufferBytes_Close_def split: option.splits)
qed (rule buffered.returned_at_most_once)

end
