(* ===== verification/Spec2Isabelle.thy ===== *)
theory Spec2Isabelle
  imports Client_Props Worker_Send Semaphore Ids ByteCloser
begin

text \<open>
  Verification of the game log SDK, a Go library that sends game log records to a collecting service.

  \<^bold>\<open>The program.\<close> A client (\<^verbatim>\<open>tglog/client.go\<close>) is made with functional options, discovers the endpoints of the
  service by DNS, keeps a pool of connections to them through the network library gnet, and spreads the records
  users send over a number of workers. A worker (\<^verbatim>\<open>tglog/worker.go\<close>) is an event loop that collects records into
  batches, encodes them (\<^verbatim>\<open>tglog/codec.go\<close>), writes them to a connection it borrowed from the pool, and completes
  them: for protocol V1 when they are written, for V3 when the response of the server comes, with timeouts
  and retries in between. Each accepted record holds a permit of a semaphore until its callback has run. Responses come in
  through gnet as a byte stream that a length-field framer cuts into frames; the client decodes them and
  hands each to the worker its batch identifier names. When DNS answers change, the discoverer tells the client, which
  tells the pool. Closing stops the discoverer, the workers, the pool and gnet, in this order.

  \<^bold>\<open>Theories\<close>, in the order they build on each other:
  \<^item> \<open>Go_Prelude\<close>, \<open>Go_Strings\<close>, \<open>Go_Binary\<close>: what the SDK uses of Go: wrap-around integers, maps, slices, number
    printing and parsing, splitting, byte orders. The locale \<open>inductive_invariant\<close> is the invariant rule over the reachable
    states of a step relation, \<open>keeps_invariant\<close> the same for a loop over a list; both are interpreted once per
    invariant below.
  \<^item> \<open>Util\<close> (\<^verbatim>\<open>util/backoff.go\<close>, \<^verbatim>\<open>bytestring.go\<close>, \<^verbatim>\<open>hash.go\<close>), \<open>Host_IP\<close> (\<^verbatim>\<open>util/ip.go\<close>), \<open>Ids\<close> (\<^verbatim>\<open>util/id.go\<close>),
    \<open>Crypto\<close> (\<^verbatim>\<open>crypto/crypto.go\<close>), \<open>ByteCloser\<close> (\<^verbatim>\<open>bytecloser/bytecloser.go\<close>).
  \<^item> \<open>Framer\<close> (\<^verbatim>\<open>framer/framer.go\<close>): \<open>NewLengthField\<close> and \<open>ReadFrame\<close> in 64-bit arithmetic; the locale \<open>stream_framer\<close> is
    the contract of the receive loop.
  \<^item> \<open>Semaphore\<close> (\<^verbatim>\<open>syncx/semaphore.go\<close>): threads that take one atomic operation at a time.
  \<^item> \<open>Message\<close> (\<^verbatim>\<open>tglog/message.go\<close>), \<open>Options\<close> (\<^verbatim>\<open>tglog/options*.go\<close>), \<open>Codec\<close> (\<^verbatim>\<open>tglog/codec.go\<close>), \<open>Request\<close>
    (\<^verbatim>\<open>tglog/request.go\<close>), \<open>Metrics\<close> (\<^verbatim>\<open>tglog/metrics.go\<close>).
  \<^item> \<open>ConnPool\<close> (\<^verbatim>\<open>connpool/connpool.go\<close>): the state the pool's goroutine owns and every handler it runs;
    \<open>ConnPool_Inv\<close>: the invariant and its preservation; \<open>ConnPool_Props\<close>: what the handlers do;
    \<open>ConnPool_Conc\<close>: the exported methods, the dial goroutines and the goroutine of the pool as interleaved steps
    (\<open>tstep\<close>, \<open>pool_step\<close>); \<open>ConnPool_Live\<close>: that closing the pool comes to an end.
  \<^item> \<open>Discoverer\<close> (\<^verbatim>\<open>discoverer/discoverer.go\<close>, \<^verbatim>\<open>dns.go\<close>).
  \<^item> \<open>Worker\<close> (\<^verbatim>\<open>tglog/worker.go\<close>): the state of the event loop, every handler, what callers, write callbacks and timers
    do to it; \<open>Worker_Inv\<close>: the invariant, relative to what a running handler holds; \<open>Worker_Run\<close>: the loop as a step
    function over events (\<open>wstep\<close>) and the invariant over all interleavings; \<open>Worker_Props\<close>: what follows;
    \<open>Worker_Send\<close>: the blocking \<^verbatim>\<open>send\<close> and the race of its callback with its context.
  \<^item> \<open>Client\<close> (\<^verbatim>\<open>tglog/client.go\<close>): initialisation, sending, callbacks, closing, and the step relation \<open>cstep\<close> that
    composes workers, pool, discoverer and metrics; \<open>Client_Run\<close>: its invariant, that every step of the client is a step
    of each component; \<open>Client_Live\<close>: how a client that closes goes on alone; \<open>Client_Example\<close>: the clients of the witnesses; \<open>Client_Props\<close>: what a running client
    guarantees.
  This theory holds the properties that span the codec, the framer and the worker.

  \<^bold>\<open>How the model corresponds to the code.\<close> A Go struct is a record with the fields of the struct, a handler or method a
  function of the same name from the state to the state. Errors are values of a sum type; a panic (a slice out of
  range, a nil dereference, a channel closed twice, a failed type assertion) is a value of its own (\<open>FramerPanic\<close>,
  \<open>CodecPanic\<close>, \<open>CollectorPanic\<close>, \<open>TickerPanic\<close>, or \<open>None\<close>). What an operation does to the outside (replies, closed connections, callbacks,
  metrics, dials started) is a log in the state, in order. What comes from outside (clock, random numbers,
  results of gnet, DNS answers, the order of ranging over a map, what a \<^verbatim>\<open>sync.Pool\<close> hands out) is an
  argument, usually a record of functions, so that the theorems hold for every behaviour of it. Code outside the repository
  (gnet, protobuf, snappy, MD5, AES, Prometheus) is such an argument too, with what the SDK relies on as a named predicate
  (\<open>cipher_ok\<close>, \<open>ext_ok\<close>, \<open>dns_env_ok\<close>, \<open>range_order\<close>). Goroutines are threads of a step relation; a
  \<^verbatim>\<open>select\<close> with several ready cases has a rule for each.

  \<^bold>\<open>What is shown.\<close>
  \<^item> Requests: over all interleavings of a client, every request with a callback is refused, called back or held, exactly
    one of them and exactly once (C1, for one worker C2); the worker refines a ledger of open and answered requests (C12);
    permits are exactly the requests held (C13), every unfinished V3 batch is in one map (C14), retries are bounded
    (C22), responses find their batch (C16, C17), late events about recycled batches change nothing (\<open>late_completion_ignored\<close>), and a blocking send returns what its callback was told (C15).
  \<^item> Connections: the counts of the pool are exact in every state (C3); the handlers for getting a
    connection, rebalancing, recovery and endpoint updates do what they promise (C26 to C30); in every interleaving a caller is
    answered once (C6) and nothing put back is left behind (C5).
  \<^item> Composition: a running client is made of a pool and workers that behave as their own models say (C4); a
    constructor delivers such a client (C25); changes of DNS reach the pool (C24); the rotation is fair (C23).
  \<^item> Closing: the order (C7), that nothing is lost (C10), that a worker, the pool and the whole client come
    to an end by themselves (C11, C9, C8).
  \<^item> Bytes: frames stay within the buffer (C20), chunking does not matter and the loop ends (C18), what
    is encoded can be delimited, decoded and parsed again (C19, C21, C36).
  \<^item> Smaller parts: discovery (C31, C32), metrics (C33), the semaphore (C34), batches (\<open>batch_done_once\<close>, C35), backoff (\<open>Next_bounds_and_growth\<close>), identifiers (\<open>first_use_decides\<close>).
  \<^item> Defects, as theorems about the code as it is: C37, C38, C39 and C40, and the lemmas
    \<open>max_retries_zero_becomes_three\<close>, \<open>decoded_key_length_unchecked\<close>, \<open>separators_not_escaped\<close>, \<open>short_frame_panics\<close>,
    \<open>heartbeat_buffer_balance\<close> and \<open>v1_size_check_ignores_newline\<close>.

  \<^bold>\<open>Bounds and termination.\<close> No definition uses fuel. The receive loop \<open>tcp_loop\<close> may run for ever over a framer
  that reports an empty frame, so it is a partial function into \<open>option\<close>, and C18 shows that it returns for every framer a client
  can have. The resolution loop is bounded by its 32 attempts, as in the source. The counter of the rotation is a 64-bit word, as are
  sequence numbers and the arithmetic of the framer; counts of connections and
  permits are integers, as they are bounded by the number of objects. A client has fewer than \<open>2\<^sup>63\<close> workers.

  \<^bold>\<open>Abstractions.\<close> A handler of the pool's or a worker's goroutine is one step, \<^verbatim>\<open>handleClose\<close> included; the flag \<^verbatim>\<open>closed\<close> of the pool is
  therefore read once per handler. The channels between the goroutines of a worker are unbounded lists; the command channel of
  the pool keeps its capacity. Each worker has its own heap of batches and its own counter for sequence
  numbers, where the source shares a \<^verbatim>\<open>sync.Pool\<close> and one atomic counter among the workers of a process: an object the
  shared pool hands out is not referred to by its former worker except through stale callbacks, which are modelled. Floating-point values are
  exact rationals. A blocking \<^verbatim>\<open>Acquire\<close> is one step that succeeds or expires. Buffers are not tracked in the worker;
  their balance is shown for heartbeats and for \<open>ByteCloser\<close>.

  \<^bold>\<open>Not modelled.\<close> \<^verbatim>\<open>logger/logger.go\<close> (forwards to the standard logger), \<^verbatim>\<open>bufferpool/buffer_pool.go\<close> (calls
  constructors of a third-party package), the log output and \<^verbatim>\<open>dump\<close> of the pool and \<^verbatim>\<open>test/test.go\<close>, a command-line program around the client.
\<close>

section \<open>Codec and framer\<close>

lemma EncodeV3Req_frame:
  assumes "EncodeV3Req ext header body False compress encrypt auth sign key [] le = Inr f"
  shows "\<exists>fl hb bb. f = writeFrame ext le fl hb bb []"
  using assms by (auto simp: EncodeV3Req_def split: option.splits sum.splits prod.splits)

text \<open>What the framer of the default V3 layout reads from a written frame.\<close>

lemma word64_of_small:
  assumes "0 < n" "n < 2 ^ 31"
  shows "sint (word_of_nat n :: 64 word) = int n" "(word_of_nat n :: 64 word) \<noteq> 0"
proof -
  have u: "uint (word_of_nat n :: 64 word) = int n" using assms(2) by (simp add: uint_nat unat_of_nat)
  then show "sint (word_of_nat n :: 64 word) = int n" using assms(2) by (simp add: sint_uint signed_take_bit_int_eq_self)
  show "(word_of_nat n :: 64 word) \<noteq> 0" using u assms(1) by auto
qed

lemma ReadFrame_writeFrame:
  assumes fr: "NewLengthField (framerCfg o') = Inr fr" and lay: "LenFieldOffset o' = 2" "LenFieldLength o' = 4"
      "LenAdjustment o' = -6" "FrameBytesToStrip o' = 0" "Options.MaxFrameLen o' < 2 ^ 31"
    and ext: "frameHeaderLen ext = 10" and f: "f = writeFrame ext (Options.LittleEndian o') fl hb bb []"
    and len: "int (length f) \<le> Options.MaxFrameLen o'"
  shows "ReadFrame fr (f @ rest) = Inr (int (length f), 0, int (length f)) \<and> framer_wf fr"
proof -
  let ?bo = "if Options.LittleEndian o' then ByteOrder.LittleEndian else BigEndian"
  have n: "length f = 10 + length hb + length bb" by (simp add: f)
  have cfg: "cfg fr = framerCfg o'" "byteOrder fr = ?bo"
    using fr lay len n by (auto simp: NewLengthField_def framerCfg_def Let_def split: if_splits)
  have sl: "goslice (f @ rest) 2 6 = Some (PutUint ?bo 4 (length f))"
    using n ext by (simp add: goslice_def f writeFrame_flags ac_simps)
  have "int (length f) < 2 ^ 31" using len lay(5) by linarith
  then have b: "length f < 2 ^ 31" by simp
  then have g: "GetUint ?bo (PutUint ?bo 4 (length f)) = length f" by (intro bo.get_put) simp
  have w: "sint (word_of_nat (length f) :: 64 word) = int (length f)" "(word_of_nat (length f) :: 64 word) \<noteq> 0"
    using word64_of_small [OF _ b] n by simp_all
  have "framer_wf fr" using NewLengthField_wf [OF fr] lay by (simp add: framerCfg_def)
  moreover have "int64 6 = 6" "int64 0 = 0" "int64 (int (length f)) = int (length f)" using b by (simp_all add: int64_id)
  ultimately show ?thesis
    using sl g cfg lay n len w by (simp add: ReadFrame_def framerCfg_def Let_def readLenField_def)
qed
text \<open>
  C19. What the codec writes is self-delimiting for the framer: requests encoded with a frame header, with any mixture
  of compression, encryption, authentication and signatures, none longer than the framer's limit, can be
  written to a TCP connection one after the other; a framer built from options with the default frame layout
  and the same byte order reads from the stream exactly these frames, in order, with nothing left.
\<close>

theorem sent_frames_delimited:
  assumes "NewLengthField (framerCfg o') = Inr fr" and "LenFieldOffset o' = 2" and "LenFieldLength o' = 4"
    and "LenAdjustment o' = -6" and "FrameBytesToStrip o' = 0" and "Options.MaxFrameLen o' < 2 ^ 31" and "frameHeaderLen ext = 10"
    and "\<forall>f \<in> set frames. int (length f) \<le> Options.MaxFrameLen o' \<and>
      (\<exists>header body compress encrypt auth sign key.
         EncodeV3Req ext header body False compress encrypt auth sign key [] (Options.LittleEndian o') = Inr f)"
  shows "read_all (ReadFrame fr) ErrIncompleteFrame (concat frames) = (frames, [], None)"
  using assms(8)
proof (induction frames)
  case Nil
  then show ?case by (simp add: read_all.simps)
next
  case (Cons f frames)
  from Cons.prems obtain fl hb bb where "f = writeFrame ext (Options.LittleEndian o') fl hb bb []" using EncodeV3Req_frame by fastforce
  from ReadFrame_writeFrame [OF assms(1-7) this] Cons.prems
  have r: "ReadFrame fr (f @ concat frames) = Inr (int (length f), 0, int (length f))" "framer_wf fr" by auto
  from lf.read_all_frame [OF r(2,1)] Cons show ?case by simp
qed

definition sample_request :: "string \<Rightarrow> Req" where
  "sample_request i = \<lparr>ReqID = i, AppMetaData = [], ReqBody = Req_LogReq [] [] []\<rparr>"

definition sample_frame :: "string \<Rightarrow> bytes" where
  "sample_frame i = writeFrame sample_ext False 0 [] (StringToBytes i) []"

lemma sample_frame_encoded:
  "EncodeV3Req sample_ext None (Some (sample_request i)) False False False False False [] [] False = Inr (sample_frame i)"
  by (simp add: EncodeV3Req_def encryptIf_def compressIf_def encodeHeader_def sample_request_def sample_frame_def sample_ext_def)

theorem sent_frames_delimited_witness:
  "read_all (ReadFrame v3_default_framer) ErrIncompleteFrame (sample_frame ''0:a'' @ sample_frame ''1:b'') =
     ([sample_frame ''0:a'', sample_frame ''1:b''], [], None)"
proof -
  let ?fs = "[sample_frame ''0:a'', sample_frame ''1:b'']"
  have "framerCfg v3Defaults = v3_default_cfg" by (simp add: framerCfg_def v3Defaults_def zeroOptions_def v3_default_cfg_def)
  then have fr: "NewLengthField (framerCfg v3Defaults) = Inr v3_default_framer"
    by (simp add: NewLengthField_def v3_default_cfg_def v3_default_framer_def int64_def)
  have h: "frameHeaderLen sample_ext = 10" by (simp add: frameHeaderLen_def sample_ext_def)
  have le: "Options.LittleEndian v3Defaults = False" by (simp add: v3Defaults_def zeroOptions_def)
  have fs: "\<forall>f \<in> set ?fs. int (length f) \<le> Options.MaxFrameLen v3Defaults \<and>
      (\<exists>header body compress encrypt auth sign key.
         EncodeV3Req sample_ext header body False compress encrypt auth sign key [] (Options.LittleEndian v3Defaults) = Inr f)"
    unfolding le using sample_frame_encoded by (auto simp: sample_frame_def v3Defaults_def) blast+
  have "read_all (ReadFrame v3_default_framer) ErrIncompleteFrame (concat ?fs) = (?fs, [], None)"
    by (rule sent_frames_delimited [OF fr _ _ _ _ _ h fs]) (simp_all add: v3Defaults_def)
  then show ?thesis by simp
qed

text \<open>
  The size check of a V1 client over UDP forgets the newline that the encoder appends: a ready worker with a
  free permit accepts a record of the largest size (65507 bytes) that does not end in a newline, but such a
  record is encoded to 65508 bytes, more than the check means to allow in a datagram.
\<close>

theorem v1_size_check_ignores_newline:
  assumes "wstate w = stateReady" and "available w" and "isUDP (wopts w)"
    and "int (length (Payload m)) = maxUDPReqSizeV1" and "last (Payload m) \<noteq> newline"
  shows "dataChan (doSendAsync t True i m cb fl w) = dataChan w @ [\<lparr>rid = i, msg = m, flushImmediately = fl, publishTime = t, rcallback = cb,
      rsemaphore = True, rmetrics = True, rpool = True\<rparr>] \<and>
    (\<exists>bs. EncodeV1 [m] [] = Inr bs \<and> int (length bs) = maxUDPReqSizeV1 + 1)"
proof -
  have "int (length (Payload m)) \<noteq> 0" "\<not> int (length (Payload m)) > maxTCPReqSizeV1" using assms(4) by (simp_all add: req_sizes)
  moreover have "Payload m \<noteq> []" using assms(4) by (auto simp: req_sizes)
  ultimately show ?thesis using assms by (simp add: doSendAsync_def Let_def)
qed

theorem v1_size_check_ignores_newline_witness:
  "let w = snd (start_worker (v1_options\<lparr>isTCP := False, isUDP := True\<rparr>)); m = mk_message ''a'' (replicate 65507 97)
   in length (dataChan (doSendAsync 0 True 1 m True False w)) = 1 \<and> (\<exists>bs. EncodeV1 [m] [] = Inr bs \<and> length bs = 65508)"
proof -
  let ?w = "snd (start_worker (v1_options\<lparr>isTCP := False, isUDP := True\<rparr>))" and ?m = "mk_message ''a'' (replicate 65507 97)"
  have w: "wstate ?w = stateReady" "available ?w" "isUDP (wopts ?w)" "dataChan ?w = []"
    by (simp_all add: start_worker_def newWorker_def v1_options_def available_def)
  have m: "int (length (Payload ?m)) = maxUDPReqSizeV1" "last (Payload ?m) \<noteq> newline"
    by (simp_all add: mk_message_def req_sizes)
  from v1_size_check_ignores_newline [OF w(1-3) m, of 0 1 True False] w(4) show ?thesis by (simp add: Let_def maxUDPReqSizeV1_def)
qed

end
